(* ===== verification/Prelude.thy ===== *)
theory Prelude
  imports Main "HOL-Library.Word" "HOL-Library.Multiset" "HOL-Library.Monad_Syntax"
begin

text \<open>
  Shared vocabulary of the development: kernel pointers, the option monad in which code that
  may fail an \<open>ASSERT\<close>, dereference a bad pointer or loop forever is written, wrap-around of
  \<open>size_t\<close> arithmetic, and generic facts about lists, options and maps that several
  components use.
\<close>

section \<open>Pointers and failing computations\<close>

type_synonym ptr = nat

definition NULL :: ptr where
  "NULL = 0"

text \<open>
  \<open>c_assert b\<close> is the kernel's \<open>ASSERT (b)\<close>: a failed assertion panics, and the
  computation has no result (\<open>None\<close>).
\<close>

definition c_assert :: "bool \<Rightarrow> unit option" where
  "c_assert b = (if b then Some () else None)"

lemma c_assert_simps [simp]:
  "c_assert True = Some ()"
  "c_assert False = None"
  by (simp_all add: c_assert_def)

lemma c_assert_Some [simp]: "c_assert b = Some u \<longleftrightarrow> b"
  by (simp add: c_assert_def)

lemma c_assert_bind_Some [simp]: "(c_assert b \<bind> f = Some r) \<longleftrightarrow> b \<and> f () = Some r"
  by (simp add: c_assert_def)

section \<open>Machine arithmetic\<close>

text \<open>
  \<open>size_t\<close> is a 32-bit unsigned integer on the target. Sizes and indices are natural numbers
  in the model; where the source adds or multiplies them the result is reduced by \<open>wrap32\<close>.
\<close>

definition wrap32 :: "nat \<Rightarrow> nat" where
  "wrap32 n = n mod 2 ^ 32"

definition SIZE_MAX :: nat where
  "SIZE_MAX = 2 ^ 32 - 1"

lemma wrap32_id [simp]: "n < 2 ^ 32 \<Longrightarrow> wrap32 n = n"
  by (simp add: wrap32_def)

lemma wrap32_less [simp]: "wrap32 n < 2 ^ 32"
  by (simp add: wrap32_def)

lemma wrap32_le: "wrap32 n \<le> n"
  by (simp add: wrap32_def)

section \<open>Lists\<close>

lemma in_set_tlD: "x \<in> set (tl xs) \<Longrightarrow> x \<in> set xs"
  by (cases xs) auto

text \<open>A loop over \<open>start + i\<close> visits the interval from \<open>start\<close>.\<close>

lemma all_shift: "(\<forall>j < n. P (i + j)) \<longleftrightarrow> (\<forall>k \<in> {i..<i + n}. P (k :: nat))"
proof
  assume a: "\<forall>j < n. P (i + j)"
  show "\<forall>k \<in> {i..<i + n}. P k"
  proof
    fix k assume "k \<in> {i..<i + n}"
    then have "k - i < n" "k = i + (k - i)" by auto
    with a show "P k" by metis
  qed
qed auto

end
