(* ===== verification/Klist.thy ===== *)
theory Klist
  imports Prelude
begin

text \<open>
  \<open>lib/kernel/list.c\<close>: intrusive doubly linked lists. A \<open>struct list_elem\<close> is a
  \<open>prev\<close> and a \<open>next\<close> pointer somewhere in memory; a \<open>struct list\<close> is two such
  elements, \<open>head\<close> and \<open>tail\<close>. The heap keeps the two fields as two partial functions
  from addresses (a field that is not mapped belongs to memory that holds no list element).
  Every function of the file is translated with its assertions; \<open>None\<close> means that an
  \<open>ASSERT\<close> fires, a pointer that is null or wild is dereferenced, or a loop does not end.
  \<open>dll h l xs\<close> says that the list header \<open>l\<close> holds exactly the elements \<open>xs\<close>, in
  order.
\<close>

section \<open>The heap of list elements\<close>

record heap =
  h_prev :: "ptr \<rightharpoonup> ptr"
  h_next :: "ptr \<rightharpoonup> ptr"

record klist =
  lst_head :: ptr
  lst_tail :: ptr

definition get_prev :: "heap \<Rightarrow> ptr \<Rightarrow> ptr option" where
  "get_prev h p = (if p = NULL then None else h_prev h p)"

definition get_next :: "heap \<Rightarrow> ptr \<Rightarrow> ptr option" where
  "get_next h p = (if p = NULL then None else h_next h p)"

definition set_prev :: "heap \<Rightarrow> ptr \<Rightarrow> ptr \<Rightarrow> heap option" where
  "set_prev h p v =
     (if p = NULL \<or> h_prev h p = None then None else Some (h\<lparr>h_prev := (h_prev h)(p \<mapsto> v)\<rparr>))"

definition set_next :: "heap \<Rightarrow> ptr \<Rightarrow> ptr \<Rightarrow> heap option" where
  "set_next h p v =
     (if p = NULL \<or> h_next h p = None then None else Some (h\<lparr>h_next := (h_next h)(p \<mapsto> v)\<rparr>))"

section \<open>Operations\<close>

definition is_head :: "heap \<Rightarrow> ptr \<Rightarrow> bool option" where
  "is_head h elem =
     (if elem = NULL then Some False
      else do { p \<leftarrow> get_prev h elem;
                if p \<noteq> NULL then Some False
                else do { n \<leftarrow> get_next h elem; Some (n \<noteq> NULL) } })"

definition is_interior :: "heap \<Rightarrow> ptr \<Rightarrow> bool option" where
  "is_interior h elem =
     (if elem = NULL then Some False
      else do { p \<leftarrow> get_prev h elem;
                if p = NULL then Some False
                else do { n \<leftarrow> get_next h elem; Some (n \<noteq> NULL) } })"

definition is_tail :: "heap \<Rightarrow> ptr \<Rightarrow> bool option" where
  "is_tail h elem =
     (if elem = NULL then Some False
      else do { p \<leftarrow> get_prev h elem;
                if p = NULL then Some False
                else do { n \<leftarrow> get_next h elem; Some (n = NULL) } })"

definition list_init :: "heap \<Rightarrow> klist \<Rightarrow> heap option" where
  "list_init h l = do {
     c_assert (lst_head l \<noteq> NULL);
     h \<leftarrow> set_prev h (lst_head l) NULL;
     h \<leftarrow> set_next h (lst_head l) (lst_tail l);
     h \<leftarrow> set_prev h (lst_tail l) (lst_head l);
     set_next h (lst_tail l) NULL }"

definition list_begin :: "heap \<Rightarrow> klist \<Rightarrow> ptr option" where
  "list_begin h l = do { c_assert (lst_head l \<noteq> NULL); get_next h (lst_head l) }"

definition list_next :: "heap \<Rightarrow> ptr \<Rightarrow> ptr option" where
  "list_next h elem = do {
     b1 \<leftarrow> is_head h elem;
     b2 \<leftarrow> (if b1 then Some True else is_interior h elem);
     c_assert b2;
     get_next h elem }"

definition list_end :: "klist \<Rightarrow> ptr option" where
  "list_end l = do { c_assert (lst_head l \<noteq> NULL); Some (lst_tail l) }"

definition list_rbegin :: "heap \<Rightarrow> klist \<Rightarrow> ptr option" where
  "list_rbegin h l = do { c_assert (lst_head l \<noteq> NULL); get_prev h (lst_tail l) }"

definition list_prev :: "heap \<Rightarrow> ptr \<Rightarrow> ptr option" where
  "list_prev h elem = do {
     b1 \<leftarrow> is_interior h elem;
     b2 \<leftarrow> (if b1 then Some True else is_tail h elem);
     c_assert b2;
     get_prev h elem }"

definition list_rend :: "klist \<Rightarrow> ptr option" where
  "list_rend l = do { c_assert (lst_head l \<noteq> NULL); Some (lst_head l) }"

definition list_head :: "klist \<Rightarrow> ptr option" where
  "list_head l = do { c_assert (lst_head l \<noteq> NULL); Some (lst_head l) }"

definition list_tail :: "klist \<Rightarrow> ptr option" where
  "list_tail l = do { c_assert (lst_head l \<noteq> NULL); Some (lst_tail l) }"

definition list_insert :: "heap \<Rightarrow> ptr \<Rightarrow> ptr \<Rightarrow> heap option" where
  "list_insert h before elem = do {
     b1 \<leftarrow> is_interior h before;
     b2 \<leftarrow> (if b1 then Some True else is_tail h before);
     c_assert b2;
     c_assert (elem \<noteq> NULL);
     p \<leftarrow> get_prev h before;
     h \<leftarrow> set_prev h elem p;
     h \<leftarrow> set_next h elem before;
     p \<leftarrow> get_prev h before;
     h \<leftarrow> set_next h p elem;
     set_prev h before elem }"

definition list_splice :: "heap \<Rightarrow> ptr \<Rightarrow> ptr \<Rightarrow> ptr \<Rightarrow> heap option" where
  "list_splice h before first last0 = do {
     b1 \<leftarrow> is_interior h before;
     b2 \<leftarrow> (if b1 then Some True else is_tail h before);
     c_assert b2;
     if first = last0 then Some h
     else do {
       last \<leftarrow> list_prev h last0;
       b3 \<leftarrow> is_interior h first;
       c_assert b3;
       b4 \<leftarrow> is_interior h last;
       c_assert b4;
       fp \<leftarrow> get_prev h first;
       ln \<leftarrow> get_next h last;
       h \<leftarrow> set_next h fp ln;
       ln \<leftarrow> get_next h last;
       fp \<leftarrow> get_prev h first;
       h \<leftarrow> set_prev h ln fp;
       bp \<leftarrow> get_prev h before;
       h \<leftarrow> set_prev h first bp;
       h \<leftarrow> set_next h last before;
       bp \<leftarrow> get_prev h before;
       h \<leftarrow> set_next h bp first;
       set_prev h before last } }"

definition list_push_front :: "heap \<Rightarrow> klist \<Rightarrow> ptr \<Rightarrow> heap option" where
  "list_push_front h l elem = do { b \<leftarrow> list_begin h l; list_insert h b elem }"

definition list_push_back :: "heap \<Rightarrow> klist \<Rightarrow> ptr \<Rightarrow> heap option" where
  "list_push_back h l elem = do { e \<leftarrow> list_end l; list_insert h e elem }"

definition list_remove :: "heap \<Rightarrow> ptr \<Rightarrow> (ptr \<times> heap) option" where
  "list_remove h elem = do {
     b \<leftarrow> is_interior h elem;
     c_assert b;
     p \<leftarrow> get_prev h elem;
     n \<leftarrow> get_next h elem;
     h \<leftarrow> set_next h p n;
     n \<leftarrow> get_next h elem;
     p \<leftarrow> get_prev h elem;
     h \<leftarrow> set_prev h n p;
     r \<leftarrow> get_next h elem;
     Some (r, h) }"

definition list_empty :: "heap \<Rightarrow> klist \<Rightarrow> bool option" where
  "list_empty h l = do { b \<leftarrow> list_begin h l; e \<leftarrow> list_end l; Some (b = e) }"

definition list_front :: "heap \<Rightarrow> klist \<Rightarrow> ptr option" where
  "list_front h l = do { b \<leftarrow> list_empty h l; c_assert (\<not> b); get_next h (lst_head l) }"

definition list_back :: "heap \<Rightarrow> klist \<Rightarrow> ptr option" where
  "list_back h l = do { b \<leftarrow> list_empty h l; c_assert (\<not> b); get_prev h (lst_tail l) }"

definition list_pop_front :: "heap \<Rightarrow> klist \<Rightarrow> (ptr \<times> heap) option" where
  "list_pop_front h l = do {
     front \<leftarrow> list_front h l;
     (_, h) \<leftarrow> list_remove h front;
     Some (front, h) }"

definition list_pop_back :: "heap \<Rightarrow> klist \<Rightarrow> (ptr \<times> heap) option" where
  "list_pop_back h l = do {
     back \<leftarrow> list_back h l;
     (_, h) \<leftarrow> list_remove h back;
     Some (back, h) }"


partial_function (option) list_size_loop :: "heap \<Rightarrow> klist \<Rightarrow> ptr \<Rightarrow> nat \<Rightarrow> nat option" where
  "list_size_loop h l e cnt = do {
     t \<leftarrow> list_end l;
     if e = t then Some cnt
     else do { e' \<leftarrow> list_next h e; list_size_loop h l e' (cnt + 1) } }"

definition list_size :: "heap \<Rightarrow> klist \<Rightarrow> nat option" where
  "list_size h l = do { e \<leftarrow> list_begin h l; list_size_loop h l e 0 }"

partial_function (option) list_reverse_loop :: "heap \<Rightarrow> klist \<Rightarrow> ptr \<Rightarrow> heap option" where
  "list_reverse_loop h l e = do {
     t \<leftarrow> list_end l;
     if e = t then Some h
     else do {
       p \<leftarrow> get_prev h e;
       n \<leftarrow> get_next h e;
       h \<leftarrow> set_prev h e n;
       h \<leftarrow> set_next h e p;
       e' \<leftarrow> get_prev h e;
       list_reverse_loop h l e' } }"

definition list_reverse :: "heap \<Rightarrow> klist \<Rightarrow> heap option" where
  "list_reverse h l = do {
     b \<leftarrow> list_empty h l;
     if b then Some h
     else do {
       e \<leftarrow> list_begin h l;
       h \<leftarrow> list_reverse_loop h l e;
       hn \<leftarrow> get_next h (lst_head l);
       tp \<leftarrow> get_prev h (lst_tail l);
       h \<leftarrow> set_next h (lst_head l) tp;
       h \<leftarrow> set_prev h (lst_tail l) hn;
       f \<leftarrow> get_next h (lst_head l);
       k \<leftarrow> get_prev h (lst_tail l);
       fp \<leftarrow> get_prev h f;
       kn \<leftarrow> get_next h k;
       h \<leftarrow> set_prev h f kn;
       set_next h k fp } }"

text \<open>
  The sorting and searching operations take the caller's comparison function \<open>less\<close> (here \<open>lt\<close>). It
  reads the structures the elements are embedded in, which the list operations never write,
  so it is a fixed predicate on element addresses.
\<close>

type_synonym list_less_func = "ptr \<Rightarrow> ptr \<Rightarrow> bool"

partial_function (option) is_sorted_loop ::
  "heap \<Rightarrow> list_less_func \<Rightarrow> ptr \<Rightarrow> ptr \<Rightarrow> bool option" where
  "is_sorted_loop h lt a b = do {
     a' \<leftarrow> list_next h a;
     if a' = b then Some True
     else do {
       p \<leftarrow> list_prev h a';
       if lt a' p then Some False else is_sorted_loop h lt a' b } }"

definition is_sorted :: "heap \<Rightarrow> list_less_func \<Rightarrow> ptr \<Rightarrow> ptr \<Rightarrow> bool option" where
  "is_sorted h lt a b = (if a \<noteq> b then is_sorted_loop h lt a b else Some True)"

partial_function (option) find_end_of_run_loop ::
  "heap \<Rightarrow> list_less_func \<Rightarrow> ptr \<Rightarrow> ptr \<Rightarrow> ptr option" where
  "find_end_of_run_loop h lt a b = do {
     a' \<leftarrow> list_next h a;
     if a' = b then Some a'
     else do {
       p \<leftarrow> list_prev h a';
       if lt a' p then Some a' else find_end_of_run_loop h lt a' b } }"

definition find_end_of_run :: "heap \<Rightarrow> list_less_func \<Rightarrow> ptr \<Rightarrow> ptr \<Rightarrow> ptr option" where
  "find_end_of_run h lt a b = do {
     c_assert (a \<noteq> NULL);
     c_assert (b \<noteq> NULL);
     c_assert (a \<noteq> b);
     find_end_of_run_loop h lt a b }"

partial_function (option) inplace_merge_loop ::
  "heap \<Rightarrow> list_less_func \<Rightarrow> ptr \<Rightarrow> ptr \<Rightarrow> ptr \<Rightarrow> heap option" where
  "inplace_merge_loop h lt a0 a1b0 b1 =
     (if a0 \<noteq> a1b0 \<and> a1b0 \<noteq> b1 then
        if \<not> lt a1b0 a0 then do {
          a0' \<leftarrow> list_next h a0;
          inplace_merge_loop h lt a0' a1b0 b1 }
        else do {
          a1b0' \<leftarrow> list_next h a1b0;
          p \<leftarrow> list_prev h a1b0';
          h' \<leftarrow> list_splice h a0 p a1b0';
          inplace_merge_loop h' lt a0 a1b0' b1 }
      else Some h)"

definition inplace_merge ::
  "heap \<Rightarrow> list_less_func \<Rightarrow> ptr \<Rightarrow> ptr \<Rightarrow> ptr \<Rightarrow> heap option" where
  "inplace_merge h lt a0 a1b0 b1 = do {
     c_assert (a0 \<noteq> NULL);
     c_assert (a1b0 \<noteq> NULL);
     c_assert (b1 \<noteq> NULL);
     s1 \<leftarrow> is_sorted h lt a0 a1b0;
     c_assert s1;
     s2 \<leftarrow> is_sorted h lt a1b0 b1;
     c_assert s2;
     inplace_merge_loop h lt a0 a1b0 b1 }"

text \<open>One pass of the \<open>for\<close> loop of \<open>list_sort\<close>, counting the runs it outputs.\<close>

partial_function (option) list_sort_pass ::
  "heap \<Rightarrow> klist \<Rightarrow> list_less_func \<Rightarrow> ptr \<Rightarrow> nat \<Rightarrow> (nat \<times> heap) option" where
  "list_sort_pass h l lt a0 output_run_cnt = do {
     t \<leftarrow> list_end l;
     if a0 = t then Some (output_run_cnt, h)
     else do {
       a1b0 \<leftarrow> find_end_of_run h lt a0 t;
       if a1b0 = t then Some (output_run_cnt + 1, h)
       else do {
         b1 \<leftarrow> find_end_of_run h lt a1b0 t;
         h' \<leftarrow> inplace_merge h lt a0 a1b0 b1;
         list_sort_pass h' l lt b1 (output_run_cnt + 1) } } }"

partial_function (option) list_sort_loop ::
  "heap \<Rightarrow> klist \<Rightarrow> list_less_func \<Rightarrow> heap option" where
  "list_sort_loop h l lt = do {
     a0 \<leftarrow> list_begin h l;
     r \<leftarrow> list_sort_pass h l lt a0 0;
     if fst r > 1 then list_sort_loop (snd r) l lt else Some (snd r) }"

definition list_sort :: "heap \<Rightarrow> klist \<Rightarrow> list_less_func \<Rightarrow> heap option" where
  "list_sort h l lt = do {
     c_assert (lst_head l \<noteq> NULL);
     h \<leftarrow> list_sort_loop h l lt;
     b \<leftarrow> list_begin h l;
     e \<leftarrow> list_end l;
     s \<leftarrow> is_sorted h lt b e;
     c_assert s;
     Some h }"

partial_function (option) insert_point ::
  "heap \<Rightarrow> klist \<Rightarrow> list_less_func \<Rightarrow> ptr \<Rightarrow> ptr \<Rightarrow> ptr option" where
  "insert_point h l lt elem e = do {
     t \<leftarrow> list_end l;
     if e = t \<or> lt elem e then Some e
     else do { e' \<leftarrow> list_next h e; insert_point h l lt elem e' } }"

definition list_insert_ordered ::
  "heap \<Rightarrow> klist \<Rightarrow> ptr \<Rightarrow> list_less_func \<Rightarrow> heap option" where
  "list_insert_ordered h l elem lt = do {
     c_assert (lst_head l \<noteq> NULL);
     c_assert (elem \<noteq> NULL);
     b \<leftarrow> list_begin h l;
     e \<leftarrow> insert_point h l lt elem b;
     list_insert h e elem }"

partial_function (option) list_unique_loop ::
  "heap \<Rightarrow> klist \<Rightarrow> klist option \<Rightarrow> list_less_func \<Rightarrow> ptr \<Rightarrow> heap option" where
  "list_unique_loop h l duplicates lt elem = do {
     nxt \<leftarrow> list_next h elem;
     t \<leftarrow> list_end l;
     if nxt = t then Some h
     else if \<not> lt elem nxt \<and> \<not> lt nxt elem then do {
       r \<leftarrow> list_remove h nxt;
       h' \<leftarrow> (case duplicates of None \<Rightarrow> Some (snd r) | Some d \<Rightarrow> list_push_back (snd r) d nxt);
       list_unique_loop h' l duplicates lt elem }
     else list_unique_loop h l duplicates lt nxt }"

definition list_unique ::
  "heap \<Rightarrow> klist \<Rightarrow> klist option \<Rightarrow> list_less_func \<Rightarrow> heap option" where
  "list_unique h l duplicates lt = do {
     c_assert (lst_head l \<noteq> NULL);
     b \<leftarrow> list_empty h l;
     if b then Some h
     else do { elem \<leftarrow> list_begin h l; list_unique_loop h l duplicates lt elem } }"

partial_function (option) list_max_loop ::
  "heap \<Rightarrow> klist \<Rightarrow> list_less_func \<Rightarrow> ptr \<Rightarrow> ptr \<Rightarrow> ptr option" where
  "list_max_loop h l lt mx e = do {
     t \<leftarrow> list_end l;
     if e = t then Some mx
     else do { e' \<leftarrow> list_next h e;
               list_max_loop h l lt (if lt mx e then e else mx) e' } }"

definition list_max :: "heap \<Rightarrow> klist \<Rightarrow> list_less_func \<Rightarrow> ptr option" where
  "list_max h l lt = do {
     mx \<leftarrow> list_begin h l;
     t \<leftarrow> list_end l;
     if mx \<noteq> t then do { e \<leftarrow> list_next h mx; list_max_loop h l lt mx e } else Some mx }"

partial_function (option) list_min_loop ::
  "heap \<Rightarrow> klist \<Rightarrow> list_less_func \<Rightarrow> ptr \<Rightarrow> ptr \<Rightarrow> ptr option" where
  "list_min_loop h l lt mn e = do {
     t \<leftarrow> list_end l;
     if e = t then Some mn
     else do { e' \<leftarrow> list_next h e;
               list_min_loop h l lt (if lt e mn then e else mn) e' } }"

definition list_min :: "heap \<Rightarrow> klist \<Rightarrow> list_less_func \<Rightarrow> ptr option" where
  "list_min h l lt = do {
     mn \<leftarrow> list_begin h l;
     t \<leftarrow> list_end l;
     if mn \<noteq> t then do { e \<leftarrow> list_next h mn; list_min_loop h l lt mn e } else Some mn }"

section \<open>The representation predicate\<close>

fun links :: "heap \<Rightarrow> ptr list \<Rightarrow> bool" where
  "links h [] \<longleftrightarrow> True"
| "links h [a] \<longleftrightarrow> True"
| "links h (a # b # cs) \<longleftrightarrow> h_next h a = Some b \<and> h_prev h b = Some a \<and> links h (b # cs)"

definition chain :: "klist \<Rightarrow> ptr list \<Rightarrow> ptr list" where
  "chain l xs = lst_head l # xs @ [lst_tail l]"

definition dll :: "heap \<Rightarrow> klist \<Rightarrow> ptr list \<Rightarrow> bool" where
  "dll h l xs \<longleftrightarrow>
     distinct (chain l xs) \<and> NULL \<notin> set (chain l xs) \<and> links h (chain l xs) \<and>
     h_prev h (lst_head l) = Some NULL \<and> h_next h (lst_tail l) = Some NULL"

text \<open>An element that is allocated and may be inserted: both its fields can be written.\<close>

definition node_ok :: "heap \<Rightarrow> ptr \<Rightarrow> bool" where
  "node_ok h p \<longleftrightarrow> p \<noteq> NULL \<and> h_prev h p \<noteq> None \<and> h_next h p \<noteq> None"

lemma links_append:
  "links h (us @ a # vs) \<longleftrightarrow> links h (us @ [a]) \<and> links h (a # vs)"
  by (induction h us rule: links.induct) auto

lemma links_snoc:
  "links h (us @ [a, b]) \<longleftrightarrow> links h (us @ [a]) \<and> h_next h a = Some b \<and> h_prev h b = Some a"
  by (subst links_append) simp

lemma links_appendD1: "links h (xs @ ys) \<Longrightarrow> links h xs"
  by (induction h xs rule: links.induct) auto

lemma links_appendD2: "links h (xs @ ys) \<Longrightarrow> links h ys"
proof (induction xs)
  case (Cons x xs)
  then show ?case by (cases "xs @ ys") auto
qed simp

lemma links_join:
  "xs \<noteq> [] \<Longrightarrow> ys \<noteq> [] \<Longrightarrow>
   links h (xs @ ys) \<longleftrightarrow> links h xs \<and> links h ys \<and>
     h_next h (last xs) = Some (hd ys) \<and> h_prev h (hd ys) = Some (last xs)"
proof (induction h xs rule: links.induct)
  case (2 h v)
  then show ?case by (cases ys) auto
qed auto

lemma links_cong:
  assumes "\<And>p. p \<in> set (butlast xs) \<Longrightarrow> h_next h p = h_next h' p"
    and "\<And>p. p \<in> set (tl xs) \<Longrightarrow> h_prev h p = h_prev h' p"
  shows "links h xs \<longleftrightarrow> links h' xs"
  using assms by (induction h xs rule: links.induct) auto

lemma links_upd_next [simp]:
  "p \<notin> set (butlast xs) \<Longrightarrow> links (h\<lparr>h_next := (h_next h)(p \<mapsto> v)\<rparr>) xs = links h xs"
  by (rule links_cong) auto

lemma links_upd_prev [simp]:
  "p \<notin> set (tl xs) \<Longrightarrow> links (h\<lparr>h_prev := (h_prev h)(p \<mapsto> v)\<rparr>) xs = links h xs"
  by (rule links_cong) auto


text \<open>
  \<open>frame S h h'\<close>: a step from \<open>h\<close> to \<open>h'\<close> wrote only fields of elements in
  \<open>S\<close> and allocated or freed nothing. It is what lets several lists live in one heap.
\<close>

definition frame :: "ptr set \<Rightarrow> heap \<Rightarrow> heap \<Rightarrow> bool" where
  "frame S h h' \<longleftrightarrow>
     (\<forall>p. p \<notin> S \<longrightarrow> h_prev h' p = h_prev h p \<and> h_next h' p = h_next h p) \<and>
     dom (h_prev h') = dom (h_prev h) \<and> dom (h_next h') = dom (h_next h)"

lemma frame_refl [simp]: "frame S h h"
  by (simp add: frame_def)

lemma frame_trans: "frame S h h' \<Longrightarrow> frame S h' h'' \<Longrightarrow> frame S h h''"
  by (simp add: frame_def)

lemma frame_mono: "frame S h h' \<Longrightarrow> S \<subseteq> T \<Longrightarrow> frame T h h'"
  by (auto simp: frame_def)

lemma frame_node_ok:
  assumes "frame S h h'"
  shows "node_ok h' p = node_ok h p"
proof -
  have "p \<in> dom (h_prev h') \<longleftrightarrow> p \<in> dom (h_prev h)" "p \<in> dom (h_next h') \<longleftrightarrow> p \<in> dom (h_next h)"
    using assms by (simp_all add: frame_def)
  then show ?thesis by (simp add: node_ok_def domIff)
qed

lemma dll_frame:
  assumes "dll h l xs" and "frame S h h'" and "S \<inter> set (chain l xs) = {}"
  shows "dll h' l xs"
proof -
  have same: "h_prev h' p = h_prev h p \<and> h_next h' p = h_next h p" if "p \<in> set (chain l xs)" for p
    using that assms(2,3) by (auto simp: frame_def)
  have "links h' (chain l xs) = links h (chain l xs)"
    by (rule links_cong) (use same in \<open>auto simp: chain_def butlast_append split: if_splits\<close>)
  then show ?thesis
    using assms(1) same [of "lst_head l"] same [of "lst_tail l"] by (simp add: dll_def chain_def)
qed

subsection \<open>Splitting a list at a position\<close>

lemma chain_split:
  "chain l (us @ vs) =
     butlast (lst_head l # us) @ [last (lst_head l # us), hd (vs @ [lst_tail l])] @ tl (vs @ [lst_tail l])"
  by (cases us rule: rev_cases; cases vs) (simp_all add: chain_def)

lemma chain_split_mid:
  "chain l (us @ ms @ vs) =
     butlast (lst_head l # us) @ [last (lst_head l # us)] @ ms @ [hd (vs @ [lst_tail l])] @
       tl (vs @ [lst_tail l])"
  by (cases us rule: rev_cases; cases vs) (simp_all add: chain_def)

lemma chain_mem:
  "last (lst_head l # us) \<in> set (chain l (us @ vs))" "hd (vs @ [lst_tail l]) \<in> set (chain l (us @ vs))"
  by (simp add: chain_def) (cases vs; simp add: chain_def)

lemma dll_adjacent:
  assumes "dll h l (us @ vs)"
  shows "h_next h (last (lst_head l # us)) = Some (hd (vs @ [lst_tail l]))"
    and "h_prev h (hd (vs @ [lst_tail l])) = Some (last (lst_head l # us))"
    and "last (lst_head l # us) \<noteq> NULL" and "hd (vs @ [lst_tail l]) \<noteq> NULL"
    and "last (lst_head l # us) \<noteq> hd (vs @ [lst_tail l])"
proof -
  define p b where "p = last (lst_head l # us)" and "b = hd (vs @ [lst_tail l])"
  have "links h (butlast (lst_head l # us) @ [p, b] @ tl (vs @ [lst_tail l]))"
    and "distinct (butlast (lst_head l # us) @ [p, b] @ tl (vs @ [lst_tail l]))"
    and "NULL \<notin> set (butlast (lst_head l # us) @ [p, b] @ tl (vs @ [lst_tail l]))"
    using assms unfolding dll_def chain_split p_def b_def by auto
  then show "h_next h (last (lst_head l # us)) = Some (hd (vs @ [lst_tail l]))"
    and "h_prev h (hd (vs @ [lst_tail l])) = Some (last (lst_head l # us))"
    and "last (lst_head l # us) \<noteq> NULL" and "hd (vs @ [lst_tail l]) \<noteq> NULL"
    and "last (lst_head l # us) \<noteq> hd (vs @ [lst_tail l])"
    unfolding p_def [symmetric] b_def [symmetric]
    using links_append [of h "butlast (lst_head l # us)" p "b # tl (vs @ [lst_tail l])"] by auto
qed

lemma dll_next_ok:
  assumes "dll h l (us @ vs)"
  shows "h_next h (hd (vs @ [lst_tail l])) =
           Some (if vs = [] then NULL else hd (tl vs @ [lst_tail l]))"
proof (cases vs)
  case Nil
  then show ?thesis using assms by (simp add: dll_def)
next
  case (Cons v vs')
  then have "dll h l ((us @ [v]) @ vs')" using assms by simp
  from dll_adjacent(1) [OF this] Cons show ?thesis by simp
qed

lemma dll_tl_neq_NULL: "dll h l (us @ v # vs) \<Longrightarrow> hd (vs @ [lst_tail l]) \<noteq> NULL"
  using dll_adjacent(4) [of h l "us @ [v]" vs] by simp

lemma dll_headers:
  "dll h l xs \<Longrightarrow> lst_head l \<noteq> NULL" "dll h l xs \<Longrightarrow> lst_tail l \<noteq> NULL"
  "dll h l xs \<Longrightarrow> lst_head l \<noteq> lst_tail l"
  by (auto simp: dll_def chain_def)

lemma dll_distinct: "dll h l xs \<Longrightarrow> distinct xs"
  by (auto simp: dll_def chain_def)

lemma dll_not_tail: "dll h l xs \<Longrightarrow> x \<in> set xs \<Longrightarrow> x \<noteq> lst_tail l \<and> x \<noteq> lst_head l \<and> x \<noteq> NULL"
  by (auto simp: dll_def chain_def)

lemma dll_unique:
  assumes "dll h l xs" and "dll h l ys"
  shows "xs = ys"
proof -
  have "vs = ws" if "dll h l (us @ vs)" "dll h l (us @ ws)" for us vs ws
    using that
  proof (induction vs arbitrary: us ws)
    case Nil
    then show ?case
      using dll_adjacent(1) [OF Nil(1)] dll_adjacent(1) [OF Nil(2)] dll_not_tail [OF Nil(2)]
      by (cases ws) auto
  next
    case (Cons v vs)
    have "hd (ws @ [lst_tail l]) = v"
      using dll_adjacent(1) [OF Cons.prems(1)] dll_adjacent(1) [OF Cons.prems(2)] by simp
    with dll_not_tail [OF Cons.prems(1), of v] obtain ws' where "ws = v # ws'"
      by (cases ws) auto
    with Cons.IH [of "us @ [v]" ws'] Cons.prems show ?case by simp
  qed
  from this [of "[]" xs ys] assms show ?thesis by simp
qed

subsection \<open>Reading a list\<close>

lemma list_end_dll [simp]: "dll h l xs \<Longrightarrow> list_end l = Some (lst_tail l)"
  by (simp add: list_end_def dll_headers(1))

lemma list_begin_dll [simp]: "dll h l xs \<Longrightarrow> list_begin h l = Some (hd (xs @ [lst_tail l]))"
  using dll_adjacent(1) [of h l "[]" xs] by (simp add: list_begin_def get_next_def dll_headers)

lemma list_rbegin_dll: "dll h l xs \<Longrightarrow> list_rbegin h l = Some (last (lst_head l # xs))"
  using dll_adjacent(2) [of h l xs "[]"] by (simp add: list_rbegin_def get_prev_def dll_headers)

lemma is_interior_dll:
  assumes "dll h l (us @ vs)"
  shows "is_interior h (hd (vs @ [lst_tail l])) = Some (vs \<noteq> [])"
  using dll_adjacent [OF assms] dll_next_ok [OF assms] dll_tl_neq_NULL [of h l us] assms
  by (cases vs) (auto simp: is_interior_def get_prev_def get_next_def)

lemma is_tail_dll:
  assumes "dll h l (us @ vs)"
  shows "is_tail h (hd (vs @ [lst_tail l])) = Some (vs = [])"
  using dll_adjacent [OF assms] dll_next_ok [OF assms] dll_tl_neq_NULL [of h l us] assms
  by (cases vs) (auto simp: is_tail_def get_prev_def get_next_def)

lemma list_next_dll:
  assumes "dll h l (us @ v # vs)"
  shows "list_next h v = Some (hd (vs @ [lst_tail l]))"
proof -
  have "is_interior h v = Some True" using is_interior_dll [OF assms] by simp
  moreover have "is_head h v = Some False"
    using dll_adjacent [OF assms] by (auto simp: is_head_def get_prev_def)
  ultimately show ?thesis
    using dll_next_ok [OF assms] dll_adjacent(4) [OF assms] by (simp add: list_next_def get_next_def)
qed

lemma list_prev_dll:
  assumes "dll h l (us @ vs)"
  shows "list_prev h (hd (vs @ [lst_tail l])) = Some (last (lst_head l # us))"
  using is_interior_dll [OF assms] is_tail_dll [OF assms] dll_adjacent [OF assms]
  by (auto simp: list_prev_def get_prev_def)

lemma list_empty_dll [simp]: "dll h l xs \<Longrightarrow> list_empty h l = Some (xs = [])"
  using dll_not_tail [of h l xs] by (cases xs) (auto simp: list_empty_def)

lemma list_front_dll: "dll h l (x # xs) \<Longrightarrow> list_front h l = Some x"
  using dll_adjacent(1) [of h l "[]" "x # xs"] by (simp add: list_front_def get_next_def dll_headers)

lemma list_back_dll: "dll h l (xs @ [x]) \<Longrightarrow> list_back h l = Some x"
  using dll_adjacent(2) [of h l "xs @ [x]" "[]"] by (simp add: list_back_def get_prev_def dll_headers)


section \<open>Writing a list\<close>

text \<open>
  The two pointer surgeries every writing operation is made of: linking the segment that
  starts at \<open>x\<close> and ends at \<open>y\<close> in between \<open>p\<close> and \<open>b\<close>, and linking out
  what is between \<open>p\<close> and \<open>n\<close>.
\<close>

definition link_in :: "heap \<Rightarrow> ptr \<Rightarrow> ptr \<Rightarrow> ptr \<Rightarrow> ptr \<Rightarrow> heap" where
  "link_in h p x y b =
     h\<lparr>h_prev := (h_prev h)(x \<mapsto> p, b \<mapsto> y), h_next := (h_next h)(y \<mapsto> b, p \<mapsto> x)\<rparr>"

definition link_out :: "heap \<Rightarrow> ptr \<Rightarrow> ptr \<Rightarrow> heap" where
  "link_out h p n = h\<lparr>h_prev := (h_prev h)(n \<mapsto> p), h_next := (h_next h)(p \<mapsto> n)\<rparr>"

lemma links_link_in:
  assumes "links h (us @ [p, b] @ vs)" and "links h ms" and "ms \<noteq> []"
    and "distinct (us @ [p, b] @ vs @ ms)"
  shows "links (link_in h p (hd ms) (last ms) b) (us @ [p] @ ms @ [b] @ vs)"
proof -
  let ?h = "link_in h p (hd ms) (last ms) b"
  have lp: "links h (us @ [p])" and lb: "links h (b # vs)"
    using assms(1) links_append [of h us p "b # vs"] by auto
  have mm: "hd ms \<in> set ms" "last ms \<in> set ms" using assms(3) by auto
  have "last ms \<notin> set (butlast ms)"
    using assms(3,4) by (cases ms rule: rev_cases) auto
  moreover have "hd ms \<notin> set (tl ms)"
    using assms(3,4) by (cases ms) auto
  ultimately have "links ?h ms = links h ms"
    by (intro links_cong) (use assms(4) mm in \<open>auto simp: link_in_def dest: in_set_tlD in_set_butlastD\<close>)
  moreover have "links ?h (us @ [p]) = links h (us @ [p])"
    by (rule links_cong) (use assms(4) mm in \<open>auto simp: link_in_def butlast_append disjoint_iff dest!: in_set_tlD\<close>)
  moreover have "links ?h (b # vs) = links h (b # vs)"
    by (rule links_cong) (use assms(4) mm in \<open>auto simp: link_in_def dest: in_set_butlastD split: if_splits\<close>)
  moreover have "h_next ?h p = Some (hd ms)" "h_prev ?h (hd ms) = Some p"
    "h_next ?h (last ms) = Some b" "h_prev ?h b = Some (last ms)"
    using assms(4) mm by (auto simp: link_in_def)
  ultimately show ?thesis
    using lp lb assms(2,3) links_join [of "us @ [p]" "ms @ b # vs" ?h] links_join [of ms "b # vs" ?h]
    by simp
qed

lemma links_link_out:
  assumes "links h (us @ [p] @ ms @ [b] @ vs)" and "distinct (us @ [p] @ ms @ [b] @ vs)"
  shows "links (link_out h p b) (us @ [p, b] @ vs)" and "links (link_out h p b) ms"
proof -
  have lp: "links h (us @ [p])" and "links h ((p # ms) @ b # vs)"
    using assms(1) links_append [of h us p "ms @ b # vs"] by auto
  then have lb: "links h (b # vs)"
    using links_append [of h "p # ms" b vs] by auto
  have lm: "links h ms"
    using assms(1) links_appendD1 [of h ms] links_appendD2 [of h "us @ [p]"] by auto
  have "links (link_out h p b) (us @ [p]) = links h (us @ [p])"
    by (rule links_cong) (use assms(2) in \<open>auto simp: link_out_def butlast_append dest: in_set_tlD\<close>)
  moreover have "links (link_out h p b) (b # vs) = links h (b # vs)"
    by (rule links_cong) (use assms(2) in \<open>auto simp: link_out_def dest: in_set_butlastD split: if_splits\<close>)
  ultimately show "links (link_out h p b) (us @ [p, b] @ vs)"
    using lp lb links_append [of "link_out h p b" us p "b # vs"] by (auto simp: link_out_def)
  have "links (link_out h p b) ms = links h ms"
    by (rule links_cong) (use assms(2) in \<open>auto simp: link_out_def dest: in_set_tlD in_set_butlastD\<close>)
  with lm show "links (link_out h p b) ms" by simp
qed

lemma dll_link_in:
  assumes "dll h l (us @ vs)" and "links h ms" and "ms \<noteq> []" and "distinct ms" and "NULL \<notin> set ms"
    and "set ms \<inter> set (chain l (us @ vs)) = {}"
  shows "dll (link_in h (last (lst_head l # us)) (hd ms) (last ms) (hd (vs @ [lst_tail l]))) l
           (us @ ms @ vs)"
proof -
  define p b where pb: "p = last (lst_head l # us)" "b = hd (vs @ [lst_tail l])"
  let ?h = "link_in h p (hd ms) (last ms) b"
  have "links h (butlast (lst_head l # us) @ [p, b] @ tl (vs @ [lst_tail l]))"
    using assms(1) unfolding dll_def chain_split pb by auto
  moreover have "distinct (chain l (us @ vs) @ ms)"
    using assms(1,4,6) by (auto simp: dll_def)
  then have "distinct (butlast (lst_head l # us) @ [p, b] @ tl (vs @ [lst_tail l]) @ ms)"
    by (simp only: chain_split pb append_assoc)
  ultimately have "links ?h (chain l (us @ ms @ vs))"
    unfolding chain_split_mid pb [symmetric] using assms(2,3) by (intro links_link_in)
  moreover have "distinct (chain l (us @ ms @ vs))" "NULL \<notin> set (chain l (us @ ms @ vs))"
    using assms by (auto simp: dll_def chain_def)
  moreover have "hd ms \<in> set ms" "last ms \<in> set ms" using assms(3) by auto
  then have "lst_head l \<noteq> hd ms" "lst_tail l \<noteq> last ms"
    using assms(6) unfolding chain_def by (metis IntI empty_iff list.set_intros(1), auto)
  then have "h_prev ?h (lst_head l) = Some NULL"
    using assms(1) pb(2) by (cases vs) (auto simp: dll_def chain_def link_in_def)
  moreover have "h_next ?h (lst_tail l) = Some NULL"
    using assms(1) pb(1) \<open>lst_tail l \<noteq> last ms\<close>
    by (cases us rule: rev_cases) (auto simp: dll_def chain_def link_in_def)
  ultimately show ?thesis unfolding dll_def pb [symmetric] by blast
qed

lemma frame_link_in:
  assumes "dll h l (us @ vs)" and "\<forall>x \<in> set ms. node_ok h x" and "ms \<noteq> []"
  shows "frame (set ms \<union> set (chain l (us @ vs))) h
           (link_in h (last (lst_head l # us)) (hd ms) (last ms) (hd (vs @ [lst_tail l])))"
proof -
  have "hd ms \<in> set ms" "last ms \<in> set ms" using assms(3) by auto
  then show ?thesis
    using dll_adjacent [OF assms(1)] assms(2) chain_mem [where l = l and us = us and vs = vs]
    by (auto simp: frame_def link_in_def node_ok_def)
qed

lemma dll_link_out:
  assumes "dll h l (us @ ms @ vs)"
  shows "dll (link_out h (last (lst_head l # us)) (hd (vs @ [lst_tail l]))) l (us @ vs)"
    and "links (link_out h (last (lst_head l # us)) (hd (vs @ [lst_tail l]))) ms"
    and "frame (set (chain l (us @ vs))) h (link_out h (last (lst_head l # us)) (hd (vs @ [lst_tail l])))"
proof -
  define p b where pb: "p = last (lst_head l # us)" "b = hd (vs @ [lst_tail l])"
  let ?h = "link_out h p b"
  have d: "links h (butlast (lst_head l # us) @ [p] @ ms @ [b] @ tl (vs @ [lst_tail l]))"
    "distinct (butlast (lst_head l # us) @ [p] @ ms @ [b] @ tl (vs @ [lst_tail l]))"
    using assms unfolding dll_def chain_split_mid pb by auto
  have "links ?h (chain l (us @ vs))"
    unfolding chain_split pb [symmetric] using d by (rule links_link_out)
  moreover have "distinct (chain l (us @ vs))" "NULL \<notin> set (chain l (us @ vs))"
    using assms by (auto simp: dll_def chain_def)
  moreover have "h_prev ?h (lst_head l) = Some NULL"
    using assms pb(2) by (cases vs) (auto simp: dll_def chain_def link_out_def)
  moreover have "h_next ?h (lst_tail l) = Some NULL"
    using assms pb(1) by (cases us rule: rev_cases) (auto simp: dll_def chain_def link_out_def)
  ultimately show "dll (link_out h (last (lst_head l # us)) (hd (vs @ [lst_tail l]))) l (us @ vs)"
    unfolding dll_def pb [symmetric] by blast
  show "links (link_out h (last (lst_head l # us)) (hd (vs @ [lst_tail l]))) ms"
    unfolding pb [symmetric] using d by (rule links_link_out)
  have "h_next h p \<noteq> None" "h_prev h b \<noteq> None"
    using dll_adjacent(1) [OF assms] dll_adjacent(2) [of h l "us @ ms" vs] assms pb by auto
  with chain_mem [where l = l and us = us and vs = vs] pb
  show "frame (set (chain l (us @ vs))) h (link_out h (last (lst_head l # us)) (hd (vs @ [lst_tail l])))"
    by (auto simp: frame_def link_out_def)
qed

subsection \<open>Insertion\<close>

lemma list_insert_exec:
  assumes "dll h l (us @ vs)" and "node_ok h x" and "x \<notin> set (chain l (us @ vs))"
  shows "list_insert h (hd (vs @ [lst_tail l])) x =
           Some (link_in h (last (lst_head l # us)) x x (hd (vs @ [lst_tail l])))"
proof -
  define p b where pb: "p = last (lst_head l # us)" "b = hd (vs @ [lst_tail l])"
  have "x \<noteq> p" "x \<noteq> b" using assms(3) chain_mem [where l = l and us = us and vs = vs] pb by auto
  moreover note adj = dll_adjacent [OF assms(1), folded pb]
  moreover have "is_interior h b = Some (vs \<noteq> [])" "is_tail h b = Some (vs = [])"
    using is_interior_dll [OF assms(1)] is_tail_dll [OF assms(1)] pb by simp_all
  ultimately show ?thesis
    using assms(2) unfolding pb [symmetric]
    by (auto simp: list_insert_def get_prev_def set_prev_def set_next_def node_ok_def link_in_def)
qed

lemma list_insert_dll:
  assumes "dll h l (us @ vs)" and "node_ok h x" and "x \<notin> set (chain l (us @ vs))"
    and "b = hd (vs @ [lst_tail l])"
  shows "\<exists>h'. list_insert h b x = Some h' \<and> dll h' l (us @ x # vs) \<and>
              frame (insert x (set (chain l (us @ vs)))) h h'"
  using list_insert_exec [OF assms(1-3)] dll_link_in [OF assms(1), of "[x]"]
    frame_link_in [OF assms(1), of "[x]"] assms by (auto simp: node_ok_def)

lemma list_push_front_dll:
  assumes "dll h l xs" and "node_ok h x" and "x \<notin> set (chain l xs)"
  shows "\<exists>h'. list_push_front h l x = Some h' \<and> dll h' l (x # xs) \<and>
              frame (insert x (set (chain l xs))) h h'"
  using list_insert_dll [of h l "[]" xs x] assms by (simp add: list_push_front_def)

lemma list_push_back_dll:
  assumes "dll h l xs" and "node_ok h x" and "x \<notin> set (chain l xs)"
  shows "\<exists>h'. list_push_back h l x = Some h' \<and> dll h' l (xs @ [x]) \<and>
              frame (insert x (set (chain l xs))) h h'"
  using list_insert_dll [of h l xs "[]" x "lst_tail l"] assms
  by (simp add: list_push_back_def)

lemma list_init_dll:
  assumes "node_ok h (lst_head l)" and "node_ok h (lst_tail l)" and "lst_head l \<noteq> lst_tail l"
  shows "\<exists>h'. list_init h l = Some h' \<and> dll h' l [] \<and> frame {lst_head l, lst_tail l} h h'"
  using assms
  by (auto simp: list_init_def set_prev_def set_next_def node_ok_def dll_def chain_def frame_def)

subsection \<open>Removal\<close>

lemma list_remove_exec:
  assumes "dll h l (us @ x # vs)"
  shows "list_remove h x =
           Some (hd (vs @ [lst_tail l]), link_out h (last (lst_head l # us)) (hd (vs @ [lst_tail l])))"
proof -
  have d2: "dll h l ((us @ [x]) @ vs)" using assms by simp
  note a1 = dll_adjacent [OF assms] and a2 = dll_adjacent [OF d2]
  have "distinct (chain l (us @ x # vs))" using assms by (simp add: dll_def)
  then have "last (lst_head l # us) \<noteq> hd (vs @ [lst_tail l])"
    by (cases us rule: rev_cases; cases vs) (auto simp: chain_def)
  then show ?thesis
    using a1 a2 is_interior_dll [OF assms]
    by (auto simp: list_remove_def get_prev_def get_next_def set_prev_def set_next_def link_out_def)
qed

lemma dll_node_ok:
  assumes "dll h l xs" and "x \<in> set xs"
  shows "node_ok h x"
proof -
  from assms(2) obtain us vs where "xs = us @ x # vs" by (meson split_list)
  then have "dll h l (us @ x # vs)" "dll h l ((us @ [x]) @ vs)" using assms(1) by simp_all
  from dll_adjacent [OF this(1)] dll_adjacent [OF this(2)] show ?thesis by (simp add: node_ok_def)
qed

lemma list_remove_dll:
  assumes "dll h l (us @ x # vs)"
  shows "\<exists>h'. list_remove h x = Some (hd (vs @ [lst_tail l]), h') \<and> dll h' l (us @ vs) \<and>
              frame (set (chain l (us @ vs))) h h' \<and> node_ok h' x"
proof -
  have "dll h l (us @ [x] @ vs)" using assms by simp
  note out = dll_link_out [OF this]
  have "node_ok h x" using dll_node_ok [OF assms] by simp
  with out(1,3) list_remove_exec [OF assms] frame_node_ok [OF out(3)] show ?thesis by auto
qed

lemma list_pop_front_dll:
  assumes "dll h l (x # xs)"
  shows "\<exists>h'. list_pop_front h l = Some (x, h') \<and> dll h' l xs \<and>
              frame (set (chain l xs)) h h' \<and> node_ok h' x"
  using list_remove_dll [of h l "[]" x xs] list_front_dll [OF assms] assms
  by (auto simp: list_pop_front_def)

lemma list_pop_back_dll:
  assumes "dll h l (xs @ [x])"
  shows "\<exists>h'. list_pop_back h l = Some (x, h') \<and> dll h' l xs \<and>
              frame (set (chain l xs)) h h' \<and> node_ok h' x"
  using list_remove_dll [of h l xs x "[]"] list_back_dll [OF assms] assms
  by (auto simp: list_pop_back_def)

lemma list_pop_front_empty: "dll h l [] \<Longrightarrow> list_pop_front h l = None"
  by (simp add: list_pop_front_def list_front_def)

end
