(* ===== verification/Klist_Ops.thy ===== *)
theory Klist_Ops
  imports Klist
begin

text \<open>
  The remaining operations of \<open>lib/kernel/list.c\<close>, refined to functions on lists of element
  addresses: counting, splicing, reversing, ordered insertion, removal of duplicates, maximum
  and minimum; and the queue contract that the clients of lists rely on.
\<close>

section \<open>Iterating\<close>

lemma list_size_loop_dll:
  "dll h l (us @ vs) \<Longrightarrow> list_size_loop h l (hd (vs @ [lst_tail l])) n = Some (n + length vs)"
proof (induction vs arbitrary: us n)
  case Nil
  then show ?case by (subst list_size_loop.simps) simp
next
  case (Cons v vs)
  then have "dll h l ((us @ [v]) @ vs)" by simp
  from Cons.IH [OF this] Cons.prems dll_not_tail [OF Cons.prems, of v] show ?case
    by (subst list_size_loop.simps) (simp add: list_next_dll)
qed

lemma list_size_dll: "dll h l xs \<Longrightarrow> list_size h l = Some (length xs)"
  using list_size_loop_dll [of h l "[]" xs 0] by (simp add: list_size_def)

fun first_max :: "list_less_func \<Rightarrow> ptr \<Rightarrow> ptr list \<Rightarrow> ptr" where
  "first_max lt m [] = m"
| "first_max lt m (x # xs) = first_max lt (if lt m x then x else m) xs"

lemma list_max_loop_dll:
  "dll h l (us @ vs) \<Longrightarrow> list_max_loop h l lt m (hd (vs @ [lst_tail l])) = Some (first_max lt m vs)"
proof (induction vs arbitrary: us m)
  case Nil
  then show ?case by (subst list_max_loop.simps) simp
next
  case (Cons v vs)
  then have "dll h l ((us @ [v]) @ vs)" by simp
  from Cons.IH [OF this] Cons.prems dll_not_tail [OF Cons.prems, of v] show ?case
    by (subst list_max_loop.simps) (simp add: list_next_dll)
qed

lemma list_min_loop_dll:
  "dll h l (us @ vs) \<Longrightarrow>
   list_min_loop h l lt m (hd (vs @ [lst_tail l])) = Some (first_max (\<lambda>a b. lt b a) m vs)"
proof (induction vs arbitrary: us m)
  case Nil
  then show ?case by (subst list_min_loop.simps) simp
next
  case (Cons v vs)
  then have "dll h l ((us @ [v]) @ vs)" by simp
  from Cons.IH [OF this] Cons.prems dll_not_tail [OF Cons.prems, of v] show ?case
    by (subst list_min_loop.simps) (simp add: list_next_dll)
qed

lemma list_max_dll:
  assumes "dll h l xs"
  shows "list_max h l lt = Some (if xs = [] then lst_tail l else first_max lt (hd xs) (tl xs))"
proof (cases xs)
  case (Cons x xs')
  then show ?thesis
    using assms list_max_loop_dll [of h l "[x]" xs' lt x] list_next_dll [of h l "[]" x xs']
      dll_not_tail [OF assms, of x] by (simp add: list_max_def)
qed (use assms in \<open>simp add: list_max_def\<close>)

lemma list_min_dll:
  assumes "dll h l xs"
  shows "list_min h l lt =
           Some (if xs = [] then lst_tail l else first_max (\<lambda>a b. lt b a) (hd xs) (tl xs))"
proof (cases xs)
  case (Cons x xs')
  then show ?thesis
    using assms list_min_loop_dll [of h l "[x]" xs' lt x] list_next_dll [of h l "[]" x xs']
      dll_not_tail [OF assms, of x] by (simp add: list_min_def)
qed (use assms in \<open>simp add: list_min_def\<close>)

section \<open>Ordered insertion\<close>

fun insert_by :: "list_less_func \<Rightarrow> ptr \<Rightarrow> ptr list \<Rightarrow> ptr list" where
  "insert_by lt x [] = [x]"
| "insert_by lt x (y # ys) = (if lt x y then x # y # ys else y # insert_by lt x ys)"

lemma insert_point_dll:
  "dll h l (us @ vs) \<Longrightarrow>
   \<exists>as bs. vs = as @ bs \<and> insert_point h l lt x (hd (vs @ [lst_tail l])) = Some (hd (bs @ [lst_tail l])) \<and>
           insert_by lt x vs = as @ x # bs"
proof (induction vs arbitrary: us)
  case Nil
  then show ?case by (subst insert_point.simps) simp
next
  case (Cons v vs)
  have nt: "v \<noteq> lst_tail l" using dll_not_tail [OF Cons.prems, of v] by simp
  show ?case
  proof (cases "lt x v")
    case True
    then have "insert_point h l lt x v = Some v"
      by (subst insert_point.simps) (use Cons.prems in simp)
    with True show ?thesis by (intro exI [of _ "[]"] exI [of _ "v # vs"]) simp
  next
    case False
    from Cons.prems have "dll h l ((us @ [v]) @ vs)" by simp
    from Cons.IH [OF this] obtain as bs where ab: "vs = as @ bs"
      "insert_point h l lt x (hd (vs @ [lst_tail l])) = Some (hd (bs @ [lst_tail l]))"
      "insert_by lt x vs = as @ x # bs" by blast
    have "insert_point h l lt x v = Some (hd (bs @ [lst_tail l]))"
      by (subst insert_point.simps)
        (use Cons.prems False nt ab(2) in \<open>simp add: list_next_dll [OF Cons.prems]\<close>)
    with ab False show ?thesis by (intro exI [of _ "v # as"] exI [of _ bs]) simp
  qed
qed

lemma list_insert_ordered_dll:
  assumes "dll h l xs" and "node_ok h x" and "x \<notin> set (chain l xs)"
  shows "\<exists>h'. list_insert_ordered h l x lt = Some h' \<and> dll h' l (insert_by lt x xs) \<and>
              frame (insert x (set (chain l xs))) h h'"
proof -
  obtain as bs where ab: "xs = as @ bs"
    "insert_point h l lt x (hd (xs @ [lst_tail l])) = Some (hd (bs @ [lst_tail l]))"
    "insert_by lt x xs = as @ x # bs"
    using insert_point_dll [of h l "[]" xs lt x] assms(1) by auto
  with list_insert_dll [of h l as bs x] assms show ?thesis
    by (auto simp: list_insert_ordered_def dll_headers node_ok_def)
qed

lemma set_insert_by [simp]: "set (insert_by lt x xs) = insert x (set xs)"
  by (induction xs) auto

lemma mset_insert_by [simp]: "mset (insert_by lt x xs) = add_mset x (mset xs)"
  by (induction xs) auto

section \<open>Removing duplicates\<close>

text \<open>What \<open>list_unique\<close> keeps after \<open>e\<close>, and what it takes out.\<close>

fun uniq :: "list_less_func \<Rightarrow> ptr \<Rightarrow> ptr list \<Rightarrow> ptr list \<times> ptr list" where
  "uniq lt e [] = ([], [])"
| "uniq lt e (x # xs) =
     (if \<not> lt e x \<and> \<not> lt x e then (fst (uniq lt e xs), x # snd (uniq lt e xs))
      else (x # fst (uniq lt x xs), snd (uniq lt x xs)))"

lemma list_unique_loop_dll:
  assumes "dll h l (us @ e # vs)" and "dll h d ds" and "set (chain l (us @ e # vs)) \<inter> set (chain d ds) = {}"
  shows "\<exists>h'. list_unique_loop h l (Some d) lt e = Some h' \<and> dll h' l (us @ e # fst (uniq lt e vs)) \<and>
              dll h' d (ds @ snd (uniq lt e vs))"
  using assms
proof (induction vs arbitrary: us e h ds)
  case Nil
  then show ?case
    by (subst list_unique_loop.simps) (simp add: list_next_dll [OF Nil(1)])
next
  case (Cons v vs)
  have nx: "list_next h e = Some v" using list_next_dll [OF Cons.prems(1)] by simp
  have nt: "v \<noteq> lst_tail l" using dll_not_tail [OF Cons.prems(1), of v] by simp
  show ?case
  proof (cases "\<not> lt e v \<and> \<not> lt v e")
    case False
    have "dll h l ((us @ [e]) @ v # vs)" using Cons.prems(1) by simp
    from Cons.IH [OF this Cons.prems(2)] Cons.prems(3) False nx nt Cons.prems(1) show ?thesis
      by (subst list_unique_loop.simps) auto
  next
    case True
    have "dll h l ((us @ [e]) @ v # vs)" using Cons.prems(1) by simp
    from list_remove_dll [OF this] obtain h1 where h1: "list_remove h v = Some (hd (vs @ [lst_tail l]), h1)"
      "dll h1 l (us @ e # vs)" "frame (set (chain l (us @ e # vs))) h h1" "node_ok h1 v" by auto
    have "dll h1 d ds"
      by (rule dll_frame [OF Cons.prems(2) h1(3)]) (use Cons.prems(3) in \<open>auto simp: chain_def\<close>)
    moreover have v: "v \<notin> set (chain d ds)" "v \<notin> set (chain l (us @ e # vs))"
      using Cons.prems(1,3) by (auto simp: chain_def dll_def)
    ultimately obtain h2 where h2: "list_push_back h1 d v = Some h2" "dll h2 d (ds @ [v])"
      "frame (insert v (set (chain d ds))) h1 h2"
      using list_push_back_dll [of h1 d ds v] h1(4) by blast
    have "dll h2 l (us @ e # vs)"
      by (rule dll_frame [OF h1(2) h2(3)]) (use v Cons.prems(3) in \<open>auto simp: chain_def\<close>)
    from Cons.IH [OF this h2(2)] v Cons.prems(3) True nx nt h1(1) h2(1) Cons.prems(1) show ?thesis
      by (subst list_unique_loop.simps) (auto simp: chain_def)
  qed
qed

lemma list_unique_loop_drop_dll:
  assumes "dll h l (us @ e # vs)"
  shows "\<exists>h'. list_unique_loop h l None lt e = Some h' \<and> dll h' l (us @ e # fst (uniq lt e vs))"
  using assms
proof (induction vs arbitrary: us e h)
  case Nil
  then show ?case
    by (subst list_unique_loop.simps) (simp add: list_next_dll [OF Nil(1)])
next
  case (Cons v vs)
  have nx: "list_next h e = Some v" using list_next_dll [OF Cons.prems(1)] by simp
  have nt: "v \<noteq> lst_tail l" using dll_not_tail [OF Cons.prems(1), of v] by simp
  have d: "dll h l ((us @ [e]) @ v # vs)" using Cons.prems by simp
  from list_remove_dll [OF this] obtain h1 where h1: "list_remove h v = Some (hd (vs @ [lst_tail l]), h1)"
    "dll h1 l (us @ e # vs)" by auto
  show ?case
    using Cons.IH [OF h1(2)] Cons.IH [OF d] nx nt h1(1) Cons.prems
    by (subst list_unique_loop.simps) auto
qed

section \<open>Splicing\<close>

lemma list_splice_exec:
  assumes before: "dll h lb (ps @ qs)" and b: "b = hd (qs @ [lst_tail lb])"
    and seg: "dll h l (us @ ms @ vs)" and ne: "ms \<noteq> []"
    and h1: "h1 = link_out h (last (lst_head l # us)) (hd (vs @ [lst_tail l]))"
    and prev: "h_prev h1 b = Some bp" "bp \<noteq> NULL" "h_next h1 bp \<noteq> None" and nb: "b \<noteq> hd ms"
  shows "list_splice h b (hd ms) (hd (vs @ [lst_tail l])) = Some (link_in h1 bp (hd ms) (last ms) b)"
proof -
  define p n where pn: "p = last (lst_head l # us)" "n = hd (vs @ [lst_tail l])"
  obtain m ms' where m: "ms = m # ms'" using ne by (cases ms) auto
  have s1: "dll h l (us @ m # ms' @ vs)" and s2: "dll h l ((us @ ms) @ vs)"
    using seg m by simp_all
  have s3: "dll h l ((us @ butlast ms) @ [last ms] @ vs)"
    using seg ne by (metis append.assoc append_butlast_last_id)
  have "is_interior h b = Some (qs \<noteq> [])" "is_tail h b = Some (qs = [])"
    using is_interior_dll [OF before] is_tail_dll [OF before] b by simp_all
  moreover have "list_prev h n = Some (last ms)"
    using list_prev_dll [OF s2] pn ne by simp
  moreover have "is_interior h (hd ms) = Some True" "is_interior h (last ms) = Some True"
    using is_interior_dll [OF s1] is_interior_dll [OF s3] m by simp_all
  moreover have "h_prev h (hd ms) = Some p" "h_next h p \<noteq> None" "p \<noteq> NULL"
    using dll_adjacent [OF s1] pn m by simp_all
  moreover have "h_next h (last ms) = Some n" "h_prev h n \<noteq> None" "n \<noteq> NULL"
    using dll_adjacent [OF s2] pn m by simp_all
  moreover have "p \<noteq> last ms" "n \<noteq> hd ms" "hd ms \<noteq> NULL" "last ms \<noteq> NULL"
  proof -
    have d: "distinct (butlast (lst_head l # us) @ [p] @ ms @ [n] @ tl (vs @ [lst_tail l]))"
      "NULL \<notin> set (butlast (lst_head l # us) @ [p] @ ms @ [n] @ tl (vs @ [lst_tail l]))"
      using seg unfolding dll_def chain_split_mid pn by auto
    have "hd ms \<in> set ms" "last ms \<in> set ms" using ne by auto
    with d show "p \<noteq> last ms" "n \<noteq> hd ms" "hd ms \<noteq> NULL" "last ms \<noteq> NULL" by auto
  qed
  moreover have "b \<noteq> NULL" using dll_adjacent(4) [OF before] b by simp
  moreover have "hd ms \<noteq> n" using \<open>n \<noteq> hd ms\<close> by simp
  ultimately show ?thesis
    using h1 prev nb unfolding pn [symmetric]
    by (auto simp: list_splice_def get_prev_def get_next_def set_prev_def set_next_def
        link_out_def link_in_def split: if_splits)
qed

lemma list_splice_two_lists:
  assumes "dll h l (us @ ms @ vs)" and "dll h l2 (ps @ qs)" and "ms \<noteq> []"
    and "set (chain l (us @ ms @ vs)) \<inter> set (chain l2 (ps @ qs)) = {}"
  shows "\<exists>h'. list_splice h (hd (qs @ [lst_tail l2])) (hd ms) (hd (vs @ [lst_tail l])) = Some h' \<and>
              dll h' l (us @ vs) \<and> dll h' l2 (ps @ ms @ qs)"
proof -
  let ?h1 = "link_out h (last (lst_head l # us)) (hd (vs @ [lst_tail l]))"
  let ?h2 = "link_in ?h1 (last (lst_head l2 # ps)) (hd ms) (last ms) (hd (qs @ [lst_tail l2]))"
  note out = dll_link_out [OF assms(1)]
  have d2: "dll ?h1 l2 (ps @ qs)"
    by (rule dll_frame [OF assms(2) out(3)]) (use assms(4) in \<open>auto simp: chain_def\<close>)
  have ms: "distinct ms" "NULL \<notin> set ms" "set ms \<inter> set (chain l2 (ps @ qs)) = {}"
    "set ms \<inter> set (chain l (us @ vs)) = {}"
    using assms(1,4) by (auto simp: chain_def dll_def)
  have "hd (qs @ [lst_tail l2]) \<noteq> hd ms"
    using ms(3) assms(3) chain_mem(2) [where l = l2 and us = ps and vs = qs] hd_in_set [of ms]
    by (metis IntI empty_iff)
  then have "list_splice h (hd (qs @ [lst_tail l2])) (hd ms) (hd (vs @ [lst_tail l])) = Some ?h2"
    using dll_adjacent [OF d2] by (intro list_splice_exec [OF assms(2) refl assms(1,3) refl]) auto
  moreover have "dll ?h2 l2 (ps @ ms @ qs)"
    using dll_link_in [OF d2 out(2) assms(3)] ms by blast
  moreover have "\<forall>x \<in> set ms. node_ok ?h1 x"
    using dll_node_ok [OF assms(1)] frame_node_ok [OF out(3)] by simp
  note fr = frame_link_in [OF d2 this assms(3)]
  have "dll ?h2 l (us @ vs)"
  proof (rule dll_frame [OF out(1) fr])
    have "set (chain l (us @ vs)) \<subseteq> set (chain l (us @ ms @ vs))" by (auto simp: chain_def)
    then show "(set ms \<union> set (chain l2 (ps @ qs))) \<inter> set (chain l (us @ vs)) = {}"
      using ms(4) assms(4) by blast
  qed
  ultimately show ?thesis by blast
qed

lemma list_splice_same_list:
  assumes "dll h l (us @ as @ ms @ vs)" and "as \<noteq> []" and "ms \<noteq> []"
  shows "\<exists>h'. list_splice h (hd as) (hd ms) (hd (vs @ [lst_tail l])) = Some h' \<and>
              dll h' l (us @ ms @ as @ vs) \<and> frame (set (chain l (us @ as @ ms @ vs))) h h'"
proof -
  have seg: "dll h l ((us @ as) @ ms @ vs)" using assms(1) by simp
  let ?h1 = "link_out h (last (lst_head l # (us @ as))) (hd (vs @ [lst_tail l]))"
  let ?h2 = "link_in ?h1 (last (lst_head l # us)) (hd ms) (last ms) (hd ((as @ vs) @ [lst_tail l]))"
  note out = dll_link_out [OF seg]
  have d2: "dll ?h1 l (us @ as @ vs)" using out(1) by simp
  have hd_as: "hd ((as @ vs) @ [lst_tail l]) = hd as" "hd ((as @ ms @ vs) @ [lst_tail l]) = hd as"
    using assms(2) by (cases as; simp)+
  have ms: "distinct ms" "NULL \<notin> set ms" "set ms \<inter> set (chain l (us @ as @ vs)) = {}"
    using assms(1) by (auto simp: chain_def dll_def)
  have "set as \<inter> set ms = {}" using assms(1) by (auto simp: dll_def chain_def)
  then have "hd as \<noteq> hd ms" using assms(2,3) hd_in_set by fastforce
  then have "list_splice h (hd as) (hd ms) (hd (vs @ [lst_tail l])) = Some ?h2"
    using dll_adjacent [OF d2] unfolding hd_as(1)
    by (intro list_splice_exec [OF assms(1) hd_as(2) [symmetric] seg assms(3) refl]) auto
  moreover have "dll ?h2 l (us @ ms @ as @ vs)"
    using dll_link_in [OF d2 out(2) assms(3)] ms by blast
  moreover have "\<forall>x \<in> set ms. node_ok ?h1 x"
    using dll_node_ok [OF seg] frame_node_ok [OF out(3)] by simp
  note fr = frame_link_in [OF d2 this assms(3)]
  have "frame (set (chain l (us @ as @ ms @ vs))) h ?h2"
    by (rule frame_trans [OF frame_mono [OF out(3)] frame_mono [OF fr]]) (auto simp: chain_def)
  ultimately show ?thesis by blast
qed

section \<open>Reversing\<close>

lemma links_rev:
  "links h (rev xs) \<longleftrightarrow> links \<lparr>h_prev = h_next h, h_next = h_prev h\<rparr> xs"
  by (induction "\<lparr>h_prev = h_next h, h_next = h_prev h\<rparr>" xs rule: links.induct) (auto simp: links_snoc)

lemma list_reverse_loop_dll:
  assumes "dll h0 l (us @ vs)"
    and "\<And>p. p \<in> set us \<Longrightarrow> h_prev h p = h_next h0 p \<and> h_next h p = h_prev h0 p"
    and "\<And>p. p \<notin> set us \<Longrightarrow> h_prev h p = h_prev h0 p \<and> h_next h p = h_next h0 p"
  shows "\<exists>h'. list_reverse_loop h l (hd (vs @ [lst_tail l])) = Some h' \<and>
           (\<forall>p. if p \<in> set (us @ vs) then h_prev h' p = h_next h0 p \<and> h_next h' p = h_prev h0 p
                else h_prev h' p = h_prev h0 p \<and> h_next h' p = h_next h0 p)"
  using assms
proof (induction vs arbitrary: us h)
  case Nil
  then show ?case by (subst list_reverse_loop.simps) auto
next
  case (Cons v vs)
  note adj = dll_adjacent [OF Cons.prems(1)] dll_next_ok [OF Cons.prems(1)]
  have v: "v \<noteq> lst_tail l" "v \<noteq> NULL" "v \<notin> set us"
    using dll_not_tail [OF Cons.prems(1), of v] dll_distinct [OF Cons.prems(1)] by auto
  define h1 where "h1 = h\<lparr>h_prev := (h_prev h)(v \<mapsto> hd (vs @ [lst_tail l])),
                         h_next := (h_next h)(v \<mapsto> last (lst_head l # us))\<rparr>"
  have d: "dll h0 l ((us @ [v]) @ vs)" using Cons.prems(1) by simp
  have "list_reverse_loop h l v = list_reverse_loop h1 l (hd (vs @ [lst_tail l]))"
    by (subst list_reverse_loop.simps)
      (use v adj Cons.prems in
        \<open>simp add: get_prev_def get_next_def set_prev_def set_next_def h1_def list_end_dll [OF d]\<close>)
  moreover have "\<And>p. p \<in> set (us @ [v]) \<Longrightarrow> h_prev h1 p = h_next h0 p \<and> h_next h1 p = h_prev h0 p"
    using Cons.prems(2) adj by (auto simp: h1_def)
  moreover have "\<And>p. p \<notin> set (us @ [v]) \<Longrightarrow> h_prev h1 p = h_prev h0 p \<and> h_next h1 p = h_next h0 p"
    using Cons.prems(3) by (auto simp: h1_def)
  ultimately show ?case using Cons.IH [OF d, of h1] by simp
qed

lemma list_reverse_dll:
  assumes "dll h l xs"
  shows "\<exists>h'. list_reverse h l = Some h' \<and> dll h' l (rev xs) \<and> frame (set (chain l xs)) h h'"
proof (cases "xs = []")
  case True
  with assms show ?thesis by (simp add: list_reverse_def)
next
  case False
  obtain h1 where h1: "list_reverse_loop h l (hd (xs @ [lst_tail l])) = Some h1"
    "\<And>p. p \<in> set xs \<Longrightarrow> h_prev h1 p = h_next h p \<and> h_next h1 p = h_prev h p"
    "\<And>p. p \<notin> set xs \<Longrightarrow> h_prev h1 p = h_prev h p \<and> h_next h1 p = h_next h p"
    using list_reverse_loop_dll [of h l "[]" xs h] assms by auto
  define H T f k where HTfk: "H = lst_head l" "T = lst_tail l" "f = hd xs" "k = last xs"
  have mem: "f \<in> set xs" "k \<in> set xs" using False HTfk by auto
  have ne: "H \<notin> set xs" "T \<notin> set xs" "H \<noteq> T" "H \<noteq> NULL" "T \<noteq> NULL" "f \<noteq> NULL" "k \<noteq> NULL"
    "f \<noteq> H" "f \<noteq> T" "k \<noteq> H" "k \<noteq> T" "distinct xs" "NULL \<notin> set xs"
    using assms mem HTfk by (auto simp: dll_def chain_def)
  have adj: "h_next h H = Some f" "h_prev h f = Some H" "h_next h k = Some T" "h_prev h T = Some k"
    using dll_adjacent [of h l "[]" xs] dll_adjacent [of h l xs "[]"] assms False HTfk by auto
  define h2 where "h2 = h1\<lparr>h_prev := (h_prev h1)(T \<mapsto> f, k \<mapsto> H), h_next := (h_next h1)(H \<mapsto> k, f \<mapsto> T)\<rparr>"
  have "list_reverse h l = Some h2"
    using assms False h1 mem ne adj
    by (auto simp: list_reverse_def get_prev_def get_next_def set_prev_def set_next_def h2_def HTfk)
  moreover have "dll h2 l (rev xs)"
  proof -
    have "k \<notin> set (butlast xs)" using ne(12) False HTfk by (cases xs rule: rev_cases) auto
    moreover have "f \<notin> set (tl xs)" using ne(12) False HTfk by (cases xs) auto
    ultimately have "links h2 (rev xs) = links h xs"
      unfolding links_rev
      by (intro links_cong) (use h1(2) ne(1,2) in \<open>auto simp: h2_def dest: in_set_tlD in_set_butlastD\<close>)
    moreover have "links h xs"
      using assms links_appendD1 [of h xs "[T]"] links_appendD2 [of h "[H]"] HTfk
      by (auto simp: dll_def chain_def)
    moreover have "hd (rev xs) = k" "last (rev xs) = f" using False HTfk by (simp_all add: hd_rev last_rev)
    ultimately have "links h2 ([H] @ rev xs @ [T])"
      using False ne links_join [of "[H]" "rev xs @ [T]" h2] links_join [of "rev xs" "[T]" h2]
      by (simp add: h2_def)
    moreover have "h_prev h2 H = Some NULL" "h_next h2 T = Some NULL"
      using assms ne h1(3) HTfk by (simp_all add: h2_def dll_def)
    ultimately show ?thesis using ne HTfk by (simp add: dll_def chain_def)
  qed
  moreover have "frame (set (chain l xs)) h h2"
  proof -
    have ok: "h_prev h p \<noteq> None \<and> h_next h p \<noteq> None" if "p \<in> set xs" for p
      using dll_node_ok [OF assms that] by (simp add: node_ok_def)
    have "(h_prev h2 p = None) = (h_prev h p = None) \<and> (h_next h2 p = None) = (h_next h p = None)" for p
      using ok [of p] h1(2,3) [of p] adj mem ne by (cases "p \<in> set xs") (auto simp: h2_def)
    then have "dom (h_prev h2) = dom (h_prev h) \<and> dom (h_next h2) = dom (h_next h)"
      by (auto simp: set_eq_iff domIff)
    then show ?thesis
      using h1(3) mem HTfk by (auto simp: frame_def chain_def h2_def)
  qed
  ultimately show ?thesis by blast
qed

end
