(* ===== verification/Klist_Sort.thy ===== *)
theory Klist_Sort
  imports Klist_Ops
begin

text \<open>
  \<open>list_sort\<close> of \<open>lib/kernel/list.c\<close>, the natural merge sort that splices elements in
  place. Each heap loop is refined to a function on lists of element addresses (\<open>drop_run\<close>,
  \<open>merge_runs\<close>, \<open>merge_pass\<close>); the functions are then shown to sort.
\<close>

section \<open>Runs and merging on lists\<close>

fun take_run :: "list_less_func \<Rightarrow> ptr \<Rightarrow> ptr list \<Rightarrow> ptr list" where
  "take_run lt a [] = []"
| "take_run lt a (x # xs) = (if lt x a then [] else x # take_run lt x xs)"

fun drop_run :: "list_less_func \<Rightarrow> ptr \<Rightarrow> ptr list \<Rightarrow> ptr list" where
  "drop_run lt a [] = []"
| "drop_run lt a (x # xs) = (if lt x a then x # xs else drop_run lt x xs)"

fun merge_runs :: "list_less_func \<Rightarrow> ptr list \<Rightarrow> ptr list \<Rightarrow> ptr list" where
  "merge_runs lt [] bs = bs"
| "merge_runs lt as [] = as"
| "merge_runs lt (a # as) (b # bs) =
     (if \<not> lt b a then a # merge_runs lt as (b # bs) else b # merge_runs lt (a # as) bs)"

lemma take_drop_run: "take_run lt a xs @ drop_run lt a xs = xs"
  by (induction xs arbitrary: a) auto

lemma length_drop_run: "length (drop_run lt a xs) \<le> length xs"
  by (induction xs arbitrary: a) (auto simp: le_SucI)

lemma drop_run_take_run [simp]: "drop_run lt a (take_run lt a xs) = []"
  by (induction xs arbitrary: a) auto

function merge_pass :: "list_less_func \<Rightarrow> ptr list \<Rightarrow> ptr list \<times> nat" where
  "merge_pass lt [] = ([], 0)"
| "merge_pass lt (a # vs) =
     (case drop_run lt a vs of
        [] \<Rightarrow> (a # take_run lt a vs, 1)
      | b # ws \<Rightarrow>
          let r = merge_pass lt (drop_run lt b ws)
          in (merge_runs lt (a # take_run lt a vs) (b # take_run lt b ws) @ fst r, snd r + 1))"
  by pat_completeness auto
termination
proof (relation "measure (length \<circ> snd)", goal_cases)
  case (2 lt a vs b ws)
  then show ?case using length_drop_run [of lt a vs] length_drop_run [of lt b ws] by simp
qed simp

fun nruns :: "list_less_func \<Rightarrow> ptr list \<Rightarrow> nat" where
  "nruns lt [] = 0"
| "nruns lt [a] = 1"
| "nruns lt (a # b # xs) = (if lt b a then 1 else 0) + nruns lt (b # xs)"

lemma mset_merge_runs [simp]: "mset (merge_runs lt as bs) = mset as + mset bs"
  by (induction lt as bs rule: merge_runs.induct) auto

lemma set_merge_runs [simp]: "set (merge_runs lt as bs) = set as \<union> set bs"
  by (induction lt as bs rule: merge_runs.induct) auto

lemma mset_merge_pass: "mset (fst (merge_pass lt xs)) = mset xs"
proof (induction lt xs rule: merge_pass.induct)
  case (2 lt a vs)
  have tk: "mset vs = mset (take_run lt a vs) + mset (drop_run lt a vs)"
    by (metis mset_append take_drop_run)
  show ?case
  proof (cases "drop_run lt a vs")
    case Nil
    then show ?thesis using tk by simp
  next
    case (Cons b ws)
    have "mset ws = mset (take_run lt b ws) + mset (drop_run lt b ws)"
      by (metis mset_append take_drop_run)
    with 2 [OF Cons] tk Cons show ?thesis by (simp add: Let_def)
  qed
qed simp

lemma nruns_append: "nruns lt (xs @ ys) \<le> nruns lt xs + nruns lt ys"
proof (induction lt xs rule: nruns.induct)
  case (2 lt a)
  then show ?case by (cases ys) auto
qed auto

lemma nruns_drop: "nruns lt (a # vs) = Suc (nruns lt (drop_run lt a vs))"
  by (induction vs arbitrary: a) auto

section \<open>The heap loops\<close>

lemma is_sorted_loop_dll:
  "dll h l (us @ a # vs @ ws) \<Longrightarrow>
   is_sorted_loop h lt a (hd (ws @ [lst_tail l])) = Some (drop_run lt a vs = [])"
proof (induction vs arbitrary: us a)
  case Nil
  then show ?case by (subst is_sorted_loop.simps) (simp add: list_next_dll)
next
  case (Cons v vs)
  have d: "dll h l ((us @ [a]) @ v # vs @ ws)" using Cons.prems by simp
  have "v \<noteq> hd (ws @ [lst_tail l])" using Cons.prems by (cases ws) (auto simp: dll_def chain_def)
  moreover have "list_next h a = Some v" using list_next_dll [OF Cons.prems] by simp
  moreover have "list_prev h v = Some a" using list_prev_dll [OF d] by simp
  ultimately show ?case
    using Cons.IH [OF d] by (subst is_sorted_loop.simps) simp
qed

lemma is_sorted_dll:
  assumes "dll h l (us @ a # vs @ ws)"
  shows "is_sorted h lt a (hd (ws @ [lst_tail l])) = Some (drop_run lt a vs = [])"
proof -
  have "a \<noteq> hd (ws @ [lst_tail l])" using assms by (cases ws) (auto simp: dll_def chain_def)
  then show ?thesis by (simp add: is_sorted_def is_sorted_loop_dll [OF assms])
qed

lemma find_end_of_run_loop_dll:
  "dll h l (us @ a # vs) \<Longrightarrow>
   find_end_of_run_loop h lt a (lst_tail l) = Some (hd (drop_run lt a vs @ [lst_tail l]))"
proof (induction vs arbitrary: us a)
  case Nil
  then show ?case by (subst find_end_of_run_loop.simps) (simp add: list_next_dll)
next
  case (Cons v vs)
  have d: "dll h l ((us @ [a]) @ v # vs)" using Cons.prems by simp
  have "v \<noteq> lst_tail l" using dll_not_tail [OF Cons.prems, of v] by simp
  moreover have "list_next h a = Some v" using list_next_dll [OF Cons.prems] by simp
  moreover have "list_prev h v = Some a" using list_prev_dll [OF d] by simp
  ultimately show ?case
    using Cons.IH [OF d] by (subst find_end_of_run_loop.simps) simp
qed

lemma find_end_of_run_dll:
  assumes "dll h l (us @ a # vs)"
  shows "find_end_of_run h lt a (lst_tail l) = Some (hd (drop_run lt a vs @ [lst_tail l]))"
  using dll_not_tail [OF assms, of a] dll_headers [OF assms] find_end_of_run_loop_dll [OF assms]
  by (simp add: find_end_of_run_def)

lemma inplace_merge_loop_dll:
  "dll h l (us @ as @ bs @ ws) \<Longrightarrow>
   \<exists>h'. inplace_merge_loop h lt (hd (as @ bs @ ws @ [lst_tail l])) (hd (bs @ ws @ [lst_tail l]))
          (hd (ws @ [lst_tail l])) = Some h' \<and>
        dll h' l (us @ merge_runs lt as bs @ ws) \<and> frame (set (chain l (us @ as @ bs @ ws))) h h'"
proof (induction lt as bs arbitrary: us h rule: merge_runs.induct)
  case (1 lt bs)
  then show ?case by (subst inplace_merge_loop.simps) simp
next
  case (2 lt a as)
  then show ?case by (subst inplace_merge_loop.simps) simp
next
  case (3 lt a as b bs)
  have ne: "a \<noteq> b" "b \<noteq> hd (ws @ [lst_tail l])"
    using "3.prems" by (cases ws; auto simp: dll_def chain_def)+
  show ?case
  proof (cases "lt b a")
    case False
    have d: "dll h l ((us @ [a]) @ as @ (b # bs) @ ws)" using "3.prems" by simp
    have "list_next h a = Some (hd (as @ (b # bs) @ ws @ [lst_tail l]))"
      using list_next_dll [of h l us a "as @ (b # bs) @ ws"] "3.prems" by simp
    with "3.IH"(1) [OF _ d] False ne show ?thesis
      by (subst inplace_merge_loop.simps) (simp add: chain_def)
  next
    case True
    let ?n = "hd (bs @ ws @ [lst_tail l])"
    have d: "dll h l ((us @ a # as) @ b # bs @ ws)" and d2: "dll h l ((us @ a # as @ [b]) @ bs @ ws)"
      and d3: "dll h l (us @ (a # as) @ [b] @ bs @ ws)"
      using "3.prems" by simp_all
    have nx: "list_next h b = Some ?n" using list_next_dll [OF d] by simp
    have pv: "list_prev h ?n = Some b" using list_prev_dll [OF d2] by simp
    obtain h1 where h1: "list_splice h a b ?n = Some h1" "dll h1 l ((us @ [b]) @ (a # as) @ bs @ ws)"
      "frame (set (chain l (us @ (a # as) @ [b] @ bs @ ws))) h h1"
      using list_splice_same_list [OF d3] by auto
    have same: "set (chain l ((us @ [b]) @ (a # as) @ bs @ ws)) = set (chain l (us @ (a # as) @ (b # bs) @ ws))"
      by (auto simp: chain_def)
    from "3.IH"(2) [OF _ h1(2)] True obtain h' where
      h': "inplace_merge_loop h1 lt a ?n (hd (ws @ [lst_tail l])) = Some h'"
      "dll h' l ((us @ [b]) @ merge_runs lt (a # as) bs @ ws)"
      "frame (set (chain l ((us @ [b]) @ (a # as) @ bs @ ws))) h1 h'" by auto
    have "frame (set (chain l (us @ (a # as) @ (b # bs) @ ws))) h h'"
      using frame_trans [OF h1(3)] h'(3) unfolding same by simp
    moreover have "inplace_merge_loop h lt a b (hd (ws @ [lst_tail l])) = Some h'"
      using True ne nx pv h1(1) h'(1) by (subst inplace_merge_loop.simps) simp
    ultimately show ?thesis using h'(2) True by simp
  qed
qed

lemma inplace_merge_dll:
  assumes "dll h l (us @ (a # as) @ (b # bs) @ ws)" and "drop_run lt a as = []" and "drop_run lt b bs = []"
  shows "\<exists>h'. inplace_merge h lt a b (hd (ws @ [lst_tail l])) = Some h' \<and>
              dll h' l (us @ merge_runs lt (a # as) (b # bs) @ ws) \<and>
              frame (set (chain l (us @ (a # as) @ (b # bs) @ ws))) h h'"
proof -
  have "dll h l ((us @ a # as) @ b # bs @ ws)" using assms(1) by simp
  then have "is_sorted h lt b (hd (ws @ [lst_tail l])) = Some True"
    using is_sorted_dll [of h l "us @ a # as" b bs ws lt] assms(3) by simp
  moreover have "is_sorted h lt a b = Some True"
    using is_sorted_dll [of h l us a as "b # bs @ ws" lt] assms(1,2) by simp
  moreover have "a \<noteq> NULL" "b \<noteq> NULL" "hd (ws @ [lst_tail l]) \<noteq> NULL"
    using assms(1) by (cases ws; auto simp: dll_def chain_def)+
  ultimately show ?thesis
    using inplace_merge_loop_dll [OF assms(1), of lt] by (simp add: inplace_merge_def)
qed

lemma list_sort_pass_dll:
  "dll h l (us @ vs) \<Longrightarrow>
   \<exists>h'. list_sort_pass h l lt (hd (vs @ [lst_tail l])) n = Some (n + snd (merge_pass lt vs), h') \<and>
        dll h' l (us @ fst (merge_pass lt vs)) \<and> frame (set (chain l (us @ vs))) h h'"
proof (induction lt vs arbitrary: us h n rule: merge_pass.induct)
  case (1 lt)
  then show ?case by (subst list_sort_pass.simps) simp
next
  case (2 lt a vs)
  note td = take_drop_run [of lt a vs]
  have nt: "a \<noteq> lst_tail l" using dll_not_tail [OF "2.prems", of a] by simp
  note run1 = find_end_of_run_dll [OF "2.prems", of lt]
  show ?case
  proof (cases "drop_run lt a vs")
    case Nil
    then show ?thesis using run1 nt "2.prems" td by (subst list_sort_pass.simps) simp
  next
    case (Cons b ws)
    let ?as = "take_run lt a vs" and ?bs = "take_run lt b ws" and ?r = "drop_run lt b ws"
    have vs: "vs = ?as @ b # ws" using td Cons by simp
    have d: "dll h l ((us @ a # ?as) @ b # ws)" using "2.prems" vs by simp
    have d2: "dll h l (us @ (a # ?as) @ (b # ?bs) @ ?r)"
      using d take_drop_run [of lt b ws] by simp
    have nb: "b \<noteq> lst_tail l" using dll_not_tail [OF d, of b] by simp
    note run2 = find_end_of_run_dll [OF d, of lt]
    obtain h1 where h1: "inplace_merge h lt a b (hd (?r @ [lst_tail l])) = Some h1"
      "dll h1 l ((us @ merge_runs lt (a # ?as) (b # ?bs)) @ ?r)"
      "frame (set (chain l (us @ (a # ?as) @ (b # ?bs) @ ?r))) h h1"
      using inplace_merge_dll [OF d2, of lt] by auto
    obtain h' where h': "list_sort_pass h1 l lt (hd (?r @ [lst_tail l])) (n + 1) =
        Some (n + 1 + snd (merge_pass lt ?r), h')"
      "dll h' l ((us @ merge_runs lt (a # ?as) (b # ?bs)) @ fst (merge_pass lt ?r))"
      "frame (set (chain l ((us @ merge_runs lt (a # ?as) (b # ?bs)) @ ?r))) h1 h'"
      using "2.IH" [OF Cons h1(2)] by blast
    have "set ws = set ?bs \<union> set ?r" by (metis set_append take_drop_run)
    then have sv: "set vs = set ?as \<union> insert b (set ?bs \<union> set ?r)"
      using arg_cong [OF vs, of set] by auto
    have same: "set (chain l (us @ (a # ?as) @ (b # ?bs) @ ?r)) = set (chain l (us @ a # vs))"
      "set (chain l ((us @ merge_runs lt (a # ?as) (b # ?bs)) @ ?r)) = set (chain l (us @ a # vs))"
      by (auto simp: chain_def sv simp del: merge_runs.simps)
    have "frame (set (chain l (us @ a # vs))) h h'"
      using frame_trans [OF h1(3) [unfolded same] h'(3) [unfolded same]] .
    then show ?thesis
      using run1 run2 nt nb Cons h1(1) h'(1,2) "2.prems"
      by (subst list_sort_pass.simps) (simp add: Let_def)
  qed
qed

section \<open>What a comparison function must promise\<close>

text \<open>
  The contract on the caller's \<open>list_less_func\<close>: it is a strict weak order. Everything the
  ordered operations guarantee is proved once from it.
\<close>

definition sorted_by :: "list_less_func \<Rightarrow> ptr list \<Rightarrow> bool" where
  "sorted_by lt xs \<longleftrightarrow> sorted_wrt (\<lambda>a b. \<not> lt b a) xs"

definition same_rank :: "list_less_func \<Rightarrow> ptr \<Rightarrow> ptr \<Rightarrow> bool" where
  "same_rank lt x y \<longleftrightarrow> \<not> lt x y \<and> \<not> lt y x"

locale less_order =
  fixes lt :: list_less_func
  assumes lt_asym: "lt a b \<Longrightarrow> \<not> lt b a"
    and lt_ntrans: "\<not> lt a b \<Longrightarrow> \<not> lt b c \<Longrightarrow> \<not> lt a c"
begin

lemma sorted_by_Cons:
  "sorted_by lt (a # xs) \<longleftrightarrow> (\<forall>x \<in> set xs. \<not> lt x a) \<and> sorted_by lt xs"
  by (simp add: sorted_by_def)

lemma drop_run_Nil_iff: "drop_run lt a xs = [] \<longleftrightarrow> sorted_by lt (a # xs)"
proof (induction xs arbitrary: a)
  case (Cons x xs)
  have "\<not> lt y a" if "\<not> lt x a" "\<not> lt y x" for y
    using lt_ntrans [OF that(2,1)] .
  then show ?case by (auto simp: sorted_by_Cons Cons.IH)
qed (simp add: sorted_by_def)

lemma sorted_by_take_run: "sorted_by lt (a # take_run lt a xs)"
  by (simp flip: drop_run_Nil_iff)

lemma nruns_le_1_iff: "nruns lt xs \<le> 1 \<longleftrightarrow> sorted_by lt xs"
proof (cases xs)
  case (Cons a ys)
  show ?thesis
  proof (cases "drop_run lt a ys")
    case Nil
    then have "sorted_by lt xs" using Cons by (simp add: drop_run_Nil_iff)
    then show ?thesis using Nil Cons by (simp add: nruns_drop)
  next
    case (Cons b ws)
    then have "\<not> sorted_by lt xs" using \<open>xs = a # ys\<close> drop_run_Nil_iff [of a ys] by auto
    then show ?thesis using Cons \<open>xs = a # ys\<close> by (simp add: nruns_drop)
  qed
qed (simp add: sorted_by_def)

lemma lt_lower:
  assumes "\<not> lt b a" "\<forall>x \<in> set bs. \<not> lt x b"
  shows "\<forall>x \<in> set bs. \<not> lt x a"
  using assms lt_ntrans [of _ b a] by blast

lemma sorted_by_merge_runs:
  "sorted_by lt as \<Longrightarrow> sorted_by lt bs \<Longrightarrow> sorted_by lt (merge_runs lt as bs)"
proof (induction l \<equiv> lt as bs rule: merge_runs.induct)
  case (3 a as b bs)
  have p: "\<forall>x \<in> set as. \<not> lt x a" "\<forall>x \<in> set bs. \<not> lt x b" "sorted_by lt as" "sorted_by lt bs"
    using 3(3,4) by (simp_all add: sorted_by_Cons)
  show ?case
  proof (cases "lt b a")
    case False
    then show ?thesis using 3(1) [OF _ p(3) 3(4)] p lt_lower [OF False p(2)]
      by (simp add: sorted_by_Cons ball_Un)
  next
    case True
    then show ?thesis using 3(2) [OF _ 3(3) p(4)] p lt_asym [OF True] lt_lower [OF lt_asym [OF True] p(1)]
      by (simp add: sorted_by_Cons ball_Un)
  qed
qed auto

lemma filter_merge_runs:
  "sorted_by lt as \<Longrightarrow> sorted_by lt bs \<Longrightarrow>
   filter (same_rank lt x) (merge_runs lt as bs) = filter (same_rank lt x) as @ filter (same_rank lt x) bs"
proof (induction l \<equiv> lt as bs rule: merge_runs.induct)
  case (3 a as b bs)
  show ?case
  proof (cases "lt b a")
    case False
    then show ?thesis using 3(1) [OF _ _ 3(4)] 3(3) by (simp add: sorted_by_Cons)
  next
    case True
    have "\<not> same_rank lt x y" if "same_rank lt x b" "\<not> lt y a" for y
    proof
      assume "same_rank lt x y"
      then have "\<not> lt b a"
        using that lt_ntrans [of b x y] lt_ntrans [of b y a] by (simp add: same_rank_def)
      with True show False by simp
    qed
    then have none: "filter (same_rank lt x) (a # as) = []" if "same_rank lt x b"
      using that 3(3) lt_asym [of a a] unfolding filter_empty_conv by (auto simp: sorted_by_Cons)
    have "sorted_by lt bs" using 3(4) by (simp add: sorted_by_Cons)
    note IH = 3(2) [OF _ 3(3) this]
    show ?thesis
    proof (cases "same_rank lt x b")
      case True
      then show ?thesis using \<open>lt b a\<close> IH none by (simp del: filter.simps(2) add: filter.simps(2) [of _ b])
    next
      case False
      then show ?thesis using \<open>lt b a\<close> IH by (simp del: filter.simps(2) add: filter.simps(2) [of _ b])
    qed
  qed
qed auto

lemma merge_pass_props:
  "nruns lt (fst (merge_pass lt xs)) \<le> snd (merge_pass lt xs) \<and>
   snd (merge_pass lt xs) = (nruns lt xs + 1) div 2 \<and>
   filter (same_rank lt x) (fst (merge_pass lt xs)) = filter (same_rank lt x) xs"
proof (induction l \<equiv> lt xs rule: merge_pass.induct)
  case (2 a vs)
  let ?as = "a # take_run lt a vs"
  have n1: "nruns lt (a # vs) = Suc (nruns lt (drop_run lt a vs))" by (rule nruns_drop)
  have f1: "filter (same_rank lt x) (a # vs) =
      filter (same_rank lt x) ?as @ filter (same_rank lt x) (drop_run lt a vs)"
    using arg_cong [OF take_drop_run, of "filter (same_rank lt x)" lt a vs] by simp
  show ?case
  proof (cases "drop_run lt a vs")
    case Nil
    moreover have "nruns lt ?as = 1" by (simp add: nruns_drop)
    ultimately show ?thesis using n1 f1 by simp
  next
    case (Cons b ws)
    let ?bs = "b # take_run lt b ws" and ?r = "drop_run lt b ws"
    have n2: "nruns lt (b # ws) = Suc (nruns lt ?r)" by (rule nruns_drop)
    have f2: "filter (same_rank lt x) (b # ws) =
        filter (same_rank lt x) ?bs @ filter (same_rank lt x) ?r"
      using arg_cong [OF take_drop_run, of "filter (same_rank lt x)" lt b ws] by simp
    have s: "sorted_by lt ?as" "sorted_by lt ?bs" by (rule sorted_by_take_run)+
    have m1: "nruns lt (merge_runs lt ?as ?bs) \<le> 1"
      using sorted_by_merge_runs [OF s] unfolding nruns_le_1_iff .
    have mp: "merge_pass lt (a # vs) =
        (merge_runs lt ?as ?bs @ fst (merge_pass lt ?r), snd (merge_pass lt ?r) + 1)"
      using Cons by (simp add: Let_def)
    note IH = 2(1) [OF Cons]
    have "nruns lt (merge_runs lt ?as ?bs @ fst (merge_pass lt ?r)) \<le> snd (merge_pass lt ?r) + 1"
      using nruns_append [of lt "merge_runs lt ?as ?bs" "fst (merge_pass lt ?r)"] m1 IH by linarith
    with IH n1 n2 Cons f1 f2 filter_merge_runs [OF s, of x] show ?thesis
      unfolding mp by (simp del: filter.simps merge_runs.simps)
  qed
qed simp

lemma list_sort_loop_dll:
  assumes "dll h l xs"
  shows "\<exists>h' ys. list_sort_loop h l lt = Some h' \<and> dll h' l ys \<and> mset ys = mset xs \<and> sorted_by lt ys \<and>
           (\<forall>x. filter (same_rank lt x) ys = filter (same_rank lt x) xs) \<and> frame (set (chain l xs)) h h'"
  using assms
proof (induction "nruns lt xs" arbitrary: xs h rule: less_induct)
  case less
  let ?ys = "fst (merge_pass lt xs)" and ?n = "snd (merge_pass lt xs)"
  obtain h1 where h1: "list_sort_pass h l lt (hd (xs @ [lst_tail l])) 0 = Some (?n, h1)" "dll h1 l ?ys"
    "frame (set (chain l xs)) h h1"
    using list_sort_pass_dll [of h l "[]" xs lt 0] less.prems by auto
  have same: "set (chain l ?ys) = set (chain l xs)"
    using mset_eq_setD [OF mset_merge_pass [of lt xs]] by (simp add: chain_def)
  have props: "nruns lt ?ys \<le> ?n" "?n = (nruns lt xs + 1) div 2"
    and stable: "filter (same_rank lt x) ?ys = filter (same_rank lt x) xs" for x
    using merge_pass_props [of xs x] by blast+
  show ?case
  proof (cases "?n > 1")
    case True
    then have "nruns lt ?ys < nruns lt xs" using props by linarith
    from less.hyps [OF this h1(2)] obtain h' ys where "list_sort_loop h1 l lt = Some h'" "dll h' l ys"
      "mset ys = mset ?ys" "sorted_by lt ys" "\<forall>x. filter (same_rank lt x) ys = filter (same_rank lt x) ?ys"
      "frame (set (chain l xs)) h1 h'" unfolding same by blast
    with True h1 less.prems stable mset_merge_pass [of lt xs] frame_trans [OF h1(3)] show ?thesis
      by (subst list_sort_loop.simps) auto
  next
    case False
    then have "sorted_by lt ?ys" using props nruns_le_1_iff [of ?ys] by linarith
    with False h1 less.prems stable mset_merge_pass [of lt xs] show ?thesis
      by (subst list_sort_loop.simps) auto
  qed
qed

lemma list_sort_dll:
  assumes "dll h l xs"
  shows "\<exists>h' ys. list_sort h l lt = Some h' \<and> dll h' l ys \<and> mset ys = mset xs \<and> sorted_by lt ys \<and>
           (\<forall>x. filter (same_rank lt x) ys = filter (same_rank lt x) xs) \<and> frame (set (chain l xs)) h h'"
proof -
  obtain h' ys where *: "list_sort_loop h l lt = Some h'" "dll h' l ys" "mset ys = mset xs" "sorted_by lt ys"
    "\<forall>x. filter (same_rank lt x) ys = filter (same_rank lt x) xs" "frame (set (chain l xs)) h h'"
    using list_sort_loop_dll [OF assms] by blast
  have "is_sorted h' lt (hd (ys @ [lst_tail l])) (lst_tail l) = Some True"
  proof (cases ys)
    case Nil
    then show ?thesis by (simp add: is_sorted_def)
  next
    case (Cons y ys')
    then show ?thesis
      using is_sorted_dll [of h' l "[]" y ys' "[]" lt] *(2,4) by (simp add: drop_run_Nil_iff)
  qed
  then have "list_sort h l lt = Some h'" using * dll_headers [OF assms] by (simp add: list_sort_def)
  with * show ?thesis by blast
qed

lemma sorted_by_insert_by: "sorted_by lt xs \<Longrightarrow> sorted_by lt (insert_by lt x xs)"
proof (induction xs)
  case (Cons y ys)
  have p: "\<forall>z \<in> set ys. \<not> lt z y" "sorted_by lt ys" using Cons.prems by (simp_all add: sorted_by_Cons)
  show ?case
  proof (cases "lt x y")
    case True
    then show ?thesis using Cons.prems lt_asym [OF True] lt_lower [OF lt_asym [OF True] p(1)]
      by (simp add: sorted_by_Cons)
  next
    case False
    then show ?thesis using Cons.IH [OF p(2)] p(1) by (simp add: sorted_by_Cons set_insert_by)
  qed
qed (simp add: sorted_by_def)

end

end
