(* ===== verification/Klist_Queue.thy ===== *)
theory Klist_Queue
  imports Klist_Sort
begin

text \<open>
  The two contracts that clients of \<open>lib/kernel/list.c\<close> rely on, as locales with their
  interpretations on the heap model: a list used with \<open>list_push_back\<close> and
  \<open>list_pop_front\<close> is a first-in first-out queue (the ready list, the waiters of a semaphore,
  the frame table), and the properties of each list operation.
\<close>

section \<open>First-in first-out queues\<close>

text \<open>
  Sequences of enqueue and dequeue operations, over any queue implementation whose operations
  may fail.
\<close>

fun enq_all :: "('s \<Rightarrow> 'a \<Rightarrow> 's option) \<Rightarrow> 's \<Rightarrow> 'a list \<Rightarrow> 's option" where
  "enq_all enq s [] = Some s"
| "enq_all enq s (x # xs) = do { s' \<leftarrow> enq s x; enq_all enq s' xs }"

fun deq_n :: "('s \<Rightarrow> ('a \<times> 's) option) \<Rightarrow> 's \<Rightarrow> nat \<Rightarrow> ('a list \<times> 's) option" where
  "deq_n deq s 0 = Some ([], s)"
| "deq_n deq s (Suc n) = do { (x, s') \<leftarrow> deq s; (xs, s'') \<leftarrow> deq_n deq s' n; Some (x # xs, s'') }"

locale fifo =
  fixes rep :: "'s \<Rightarrow> 'a list \<Rightarrow> bool"
    and free :: "'s \<Rightarrow> 'a \<Rightarrow> bool"
    and enq :: "'s \<Rightarrow> 'a \<Rightarrow> 's option"
    and deq :: "'s \<Rightarrow> ('a \<times> 's) option"
  assumes enq_rep: "rep s xs \<Longrightarrow> free s x \<Longrightarrow> x \<notin> set xs \<Longrightarrow> \<exists>s'. enq s x = Some s' \<and> rep s' (xs @ [x])"
    and enq_free: "rep s xs \<Longrightarrow> enq s x = Some s' \<Longrightarrow> x \<notin> set xs \<Longrightarrow> free s x \<Longrightarrow> free s y \<Longrightarrow> free s' y"
    and deq_rep: "rep s (x # xs) \<Longrightarrow> \<exists>s'. deq s = Some (x, s') \<and> rep s' xs"
    and deq_free: "rep s (x # xs) \<Longrightarrow> deq s = Some (x, s') \<Longrightarrow> free s y \<Longrightarrow> free s' y"
begin

lemma enq_all_rep:
  "rep s xs \<Longrightarrow> \<forall>y \<in> set ys. free s y \<Longrightarrow> distinct (xs @ ys) \<Longrightarrow>
   \<exists>s'. enq_all enq s ys = Some s' \<and> rep s' (xs @ ys)"
proof (induction ys arbitrary: s xs)
  case (Cons y ys)
  obtain s1 where s1: "enq s y = Some s1" "rep s1 (xs @ [y])"
    using enq_rep [OF Cons.prems(1), of y] Cons.prems by auto
  have "\<forall>z \<in> set ys. free s1 z" using enq_free [OF Cons.prems(1) s1(1)] Cons.prems by auto
  from Cons.IH [OF s1(2) this] Cons.prems s1 show ?case by simp
qed simp

lemma deq_n_rep: "rep s (xs @ ys) \<Longrightarrow> \<exists>s'. deq_n deq s (length xs) = Some (xs, s') \<and> rep s' ys"
proof (induction xs arbitrary: s)
  case (Cons x xs)
  then obtain s1 where "deq s = Some (x, s1)" "rep s1 (xs @ ys)" using deq_rep [of s x "xs @ ys"] by auto
  with Cons.IH [of s1] show ?case by auto
qed simp

lemma first_in_first_out:
  assumes "rep s xs" and "\<forall>y \<in> set ys. free s y" and "distinct (xs @ ys)"
  shows "\<exists>s1 s2. enq_all enq s ys = Some s1 \<and> deq_n deq s1 (length xs + length ys) = Some (xs @ ys, s2) \<and>
                 rep s2 []"
proof -
  obtain s1 where s1: "enq_all enq s ys = Some s1" "rep s1 (xs @ ys)" using enq_all_rep [OF assms] by blast
  then show ?thesis using deq_n_rep [of s1 "xs @ ys" "[]"] by auto
qed

end

interpretation klist_fifo: fifo "\<lambda>h. dll h l"
    "\<lambda>h x. node_ok h x \<and> x \<noteq> lst_head l \<and> x \<noteq> lst_tail l"
    "\<lambda>h x. list_push_back h l x" "\<lambda>h. list_pop_front h l" for l
proof
  fix h xs x
  assume "dll h l xs" "node_ok h x \<and> x \<noteq> lst_head l \<and> x \<noteq> lst_tail l" "x \<notin> set xs"
  then show "\<exists>s'. list_push_back h l x = Some s' \<and> dll s' l (xs @ [x])"
    using list_push_back_dll [of h l xs x] by (auto simp: chain_def)
next
  fix h xs x h' y
  assume "dll h l xs" "list_push_back h l x = Some h'" "x \<notin> set xs"
    "node_ok h x \<and> x \<noteq> lst_head l \<and> x \<noteq> lst_tail l" "node_ok h y \<and> y \<noteq> lst_head l \<and> y \<noteq> lst_tail l"
  then show "node_ok h' y \<and> y \<noteq> lst_head l \<and> y \<noteq> lst_tail l"
    using list_push_back_dll [of h l xs x] frame_node_ok [of _ h h' y] by (auto simp: chain_def)
next
  fix h x xs
  assume "dll h l (x # xs)"
  then show "\<exists>s'. list_pop_front h l = Some (x, s') \<and> dll s' l xs"
    using list_pop_front_dll [of h l x xs] by auto
next
  fix h x xs h' y
  assume "dll h l (x # xs)" "list_pop_front h l = Some (x, h')" "node_ok h y \<and> y \<noteq> lst_head l \<and> y \<noteq> lst_tail l"
  then show "node_ok h' y \<and> y \<noteq> lst_head l \<and> y \<noteq> lst_tail l"
    using list_pop_front_dll [of h l x xs] frame_node_ok [of _ h h' y] by auto
qed

section \<open>Removing duplicates, maximum and minimum\<close>




context less_order
begin

lemma first_max_ge: "first_max lt m xs \<in> set (m # xs) \<and> (\<forall>x \<in> set (m # xs). \<not> lt (first_max lt m xs) x)"
proof (induction xs arbitrary: m)
  case Nil
  then show ?case using lt_asym [of m m] by auto
next
  case (Cons x xs)
  let ?m = "if lt m x then x else m" and ?r = "first_max lt m (x # xs)"
  have r: "?r \<in> set (?m # xs)" "\<forall>y \<in> set (?m # xs). \<not> lt ?r y" using Cons.IH [of ?m] by simp_all
  have "\<not> lt ?m m \<and> \<not> lt ?m x" using lt_asym [of m x] lt_asym [of m m] lt_asym [of x x] by auto
  then have "\<not> lt ?r m" "\<not> lt ?r x" using r(2) lt_ntrans [of ?r ?m m] lt_ntrans [of ?r ?m x] by auto
  with r show ?case by (auto split: if_splits)
qed

end

section \<open>Properties of the list operations\<close>

text \<open>A heap with one list of three elements, for the concrete instances below.\<close>

definition demo_list :: klist where
  "demo_list = \<lparr>lst_head = 1, lst_tail = 2\<rparr>"

definition demo_heap :: heap where
  "demo_heap =
     \<lparr>h_prev = [1 \<mapsto> 0, 20 \<mapsto> 1, 10 \<mapsto> 20, 30 \<mapsto> 10, 2 \<mapsto> 30, 40 \<mapsto> 0, 50 \<mapsto> 0],
      h_next = [1 \<mapsto> 20, 20 \<mapsto> 10, 10 \<mapsto> 30, 30 \<mapsto> 2, 2 \<mapsto> 0, 40 \<mapsto> 0, 50 \<mapsto> 0]\<rparr>"

lemma demo_dll: "dll demo_heap demo_list [20, 10, 30]"
  by (simp add: dll_def chain_def demo_heap_def demo_list_def NULL_def)

lemma demo_free: "node_ok demo_heap 40" "node_ok demo_heap 50"
  by (simp_all add: node_ok_def demo_heap_def NULL_def)

lemma demo_less: "less_order (\<lambda>a b. a < b)"
  by unfold_locales auto

text \<open>C1: For every strict weak order, \<open>list_sort\<close> returns (no assertion fires, no loop diverges) and the
  list then holds the same elements, sorted, with elements of equal rank in their old order; memory
  outside the list is untouched.\<close>

theorem list_sort_correct:
  assumes "less_order lt" and "dll h l xs"
  shows "\<exists>h' ys. list_sort h l lt = Some h' \<and> dll h' l ys \<and> mset ys = mset xs \<and> sorted_by lt ys \<and>
           (\<forall>x. filter (same_rank lt x) ys = filter (same_rank lt x) xs) \<and> frame (set (chain l xs)) h h'"
  by (rule less_order.list_sort_dll [OF assms])

theorem list_sort_correct_witness:
  "\<exists>h' ys. list_sort demo_heap demo_list (\<lambda>a b. a < b) = Some h' \<and> dll h' demo_list ys \<and>
     mset ys = mset [20, 10, 30] \<and> sorted_by (\<lambda>a b. a < b) ys"
  using list_sort_correct [OF demo_less demo_dll] by blast

text \<open>C5: \<open>list_insert_ordered\<close> on a sorted list returns, adds exactly the new element, and the list is
  sorted again.\<close>

theorem list_insert_ordered_sorted:
  assumes "less_order lt" and "dll h l xs" and "sorted_by lt xs" and "node_ok h x" and "x \<notin> set (chain l xs)"
  shows "\<exists>h' ys. list_insert_ordered h l x lt = Some h' \<and> dll h' l ys \<and> mset ys = add_mset x (mset xs) \<and>
           sorted_by lt ys \<and> frame (insert x (set (chain l xs))) h h'"
  using list_insert_ordered_dll [OF assms(2,4,5), of lt] less_order.sorted_by_insert_by [OF assms(1,3), of x]
    mset_insert_by by metis

theorem list_insert_ordered_sorted_witness:
  "\<exists>h' ys. list_insert_ordered demo_heap demo_list 40 (\<lambda>a b. a mod 10 < b mod 10) = Some h' \<and>
     dll h' demo_list ys \<and> mset ys = add_mset 40 (mset [20, 10, 30])"
proof -
  have "less_order (\<lambda>a b. a mod 10 < b mod 10)" by unfold_locales auto
  moreover have "sorted_by (\<lambda>a b. a mod 10 < b mod 10) [20, 10, 30]" by (simp add: sorted_by_def)
  moreover have "40 \<notin> set (chain demo_list [20, 10, 30])" by (simp add: chain_def demo_list_def)
  ultimately show ?thesis
    using list_insert_ordered_sorted [OF _ demo_dll _ demo_free(1)] by blast
qed

text \<open>C6: A list is a first-in first-out queue: after \<open>list_push_back\<close> of any elements that are allocated and
  not yet linked, popping from the front gives the old elements and then the new ones in the order
  they were pushed, and leaves the list empty.\<close>

theorem list_fifo:
  assumes "dll h l xs" and "\<forall>y \<in> set ys. node_ok h y \<and> y \<noteq> lst_head l \<and> y \<noteq> lst_tail l"
    and "distinct (xs @ ys)"
  shows "\<exists>h1 h2. enq_all (\<lambda>h x. list_push_back h l x) h ys = Some h1 \<and>
           deq_n (\<lambda>h. list_pop_front h l) h1 (length xs + length ys) = Some (xs @ ys, h2) \<and> dll h2 l []"
  by (rule klist_fifo.first_in_first_out [OF assms])

theorem list_fifo_witness:
  "\<exists>h1 h2. enq_all (\<lambda>h x. list_push_back h demo_list x) demo_heap [50, 40] = Some h1 \<and>
     deq_n (\<lambda>h. list_pop_front h demo_list) h1 5 = Some ([20, 10, 30, 50, 40], h2) \<and> dll h2 demo_list []"
  using list_fifo [OF demo_dll, of "[50, 40]"] demo_free by (simp add: demo_list_def eval_nat_numeral)

text \<open>C7: \<open>list_reverse\<close> returns with the elements in reverse order and touches no memory outside the list.\<close>

theorem list_reverse_correct:
  assumes "dll h l xs"
  shows "\<exists>h'. list_reverse h l = Some h' \<and> dll h' l (rev xs) \<and> frame (set (chain l xs)) h h'"
  by (rule list_reverse_dll [OF assms])

theorem list_reverse_correct_witness:
  "\<exists>h'. list_reverse demo_heap demo_list = Some h' \<and> dll h' demo_list [30, 10, 20]"
  using list_reverse_correct [OF demo_dll] by auto




end
