(* ===== verification/Bitmap.thy ===== *)
theory Bitmap
  imports Prelude
begin

text \<open>
  \<open>lib/kernel/bitmap.c\<close>: arrays of bits packed into 32-bit elements. The structure keeps
  \<open>bit_cnt\<close> and the array \<open>bits\<close>; sizes and indices are natural numbers below
  \<open>2 ^ 32\<close> and the sums the source forms are reduced by \<open>wrap32\<close>. \<open>None\<close> means that an
  \<open>ASSERT\<close> fires or that an element outside the allocated array is accessed.
  \<open>bm_abs\<close> reads a bitmap as a list of booleans, and every operation is refined to the
  corresponding operation on that list.
\<close>

unbundle bit_operations_syntax

section \<open>Representation\<close>

type_synonym elem_type = "32 word"

definition ELEM_BITS :: nat where
  "ELEM_BITS = 32"

definition BITMAP_ERROR :: nat where
  "BITMAP_ERROR = SIZE_MAX"

record bitmap =
  bit_cnt :: nat
  bits :: "elem_type list"

definition elem_idx :: "nat \<Rightarrow> nat" where
  "elem_idx bit_idx = bit_idx div ELEM_BITS"

definition bit_mask :: "nat \<Rightarrow> elem_type" where
  "bit_mask bit_idx = push_bit (bit_idx mod ELEM_BITS) 1"

definition elem_cnt :: "nat \<Rightarrow> nat" where
  "elem_cnt n = wrap32 (n + ELEM_BITS - 1) div ELEM_BITS"

definition byte_cnt :: "nat \<Rightarrow> nat" where
  "byte_cnt n = wrap32 (4 * elem_cnt n)"

definition last_mask :: "bitmap \<Rightarrow> elem_type" where
  "last_mask b =
     (let last_bits = bit_cnt b mod ELEM_BITS
      in if last_bits \<noteq> 0 then push_bit last_bits 1 - 1 else - 1)"

definition bitmap_buf_size :: "nat \<Rightarrow> nat" where
  "bitmap_buf_size n = wrap32 (8 + byte_cnt n)"

definition bitmap_size :: "bitmap \<Rightarrow> nat" where
  "bitmap_size b = bit_cnt b"

section \<open>Single bits\<close>

text \<open>An \<open>orl\<close>, \<open>andl\<close> or \<open>xorl\<close> on one element of the array.\<close>

definition upd_elem :: "bitmap \<Rightarrow> nat \<Rightarrow> (elem_type \<Rightarrow> elem_type) \<Rightarrow> bitmap option" where
  "upd_elem b idx f =
     (if idx < length (bits b) then Some (b\<lparr>bits := (bits b)[idx := f (bits b ! idx)]\<rparr>) else None)"

definition bitmap_mark :: "bitmap \<Rightarrow> nat \<Rightarrow> bitmap option" where
  "bitmap_mark b bit_idx = upd_elem b (elem_idx bit_idx) (\<lambda>w. w OR bit_mask bit_idx)"

definition bitmap_reset :: "bitmap \<Rightarrow> nat \<Rightarrow> bitmap option" where
  "bitmap_reset b bit_idx = upd_elem b (elem_idx bit_idx) (\<lambda>w. w AND NOT (bit_mask bit_idx))"

definition bitmap_flip :: "bitmap \<Rightarrow> nat \<Rightarrow> bitmap option" where
  "bitmap_flip b bit_idx = upd_elem b (elem_idx bit_idx) (\<lambda>w. w XOR bit_mask bit_idx)"

definition bitmap_set :: "bitmap \<Rightarrow> nat \<Rightarrow> bool \<Rightarrow> bitmap option" where
  "bitmap_set b idx value = do {
     c_assert (idx < bit_cnt b);
     if value then bitmap_mark b idx else bitmap_reset b idx }"

definition bitmap_test :: "bitmap \<Rightarrow> nat \<Rightarrow> bool option" where
  "bitmap_test b idx = do {
     c_assert (idx < bit_cnt b);
     if elem_idx idx < length (bits b) then Some (bits b ! elem_idx idx AND bit_mask idx \<noteq> 0) else None }"

section \<open>Groups of bits\<close>

text \<open>
  The loops over \<open>i = 0, \<dots>, cnt - 1\<close>; the last argument counts the iterations that are left.
\<close>

fun bitmap_set_loop :: "bitmap \<Rightarrow> nat \<Rightarrow> bool \<Rightarrow> nat \<Rightarrow> nat \<Rightarrow> bitmap option" where
  "bitmap_set_loop b start value i 0 = Some b"
| "bitmap_set_loop b start value i (Suc n) = do {
     b \<leftarrow> bitmap_set b (wrap32 (start + i)) value;
     bitmap_set_loop b start value (i + 1) n }"

definition bitmap_set_multiple :: "bitmap \<Rightarrow> nat \<Rightarrow> nat \<Rightarrow> bool \<Rightarrow> bitmap option" where
  "bitmap_set_multiple b start cnt value = do {
     c_assert (start \<le> bit_cnt b);
     c_assert (wrap32 (start + cnt) \<le> bit_cnt b);
     bitmap_set_loop b start value 0 cnt }"

definition bitmap_set_all :: "bitmap \<Rightarrow> bool \<Rightarrow> bitmap option" where
  "bitmap_set_all b value = bitmap_set_multiple b 0 (bitmap_size b) value"

fun bitmap_count_loop :: "bitmap \<Rightarrow> nat \<Rightarrow> bool \<Rightarrow> nat \<Rightarrow> nat \<Rightarrow> nat \<Rightarrow> nat option" where
  "bitmap_count_loop b start value value_cnt i 0 = Some value_cnt"
| "bitmap_count_loop b start value value_cnt i (Suc n) = do {
     t \<leftarrow> bitmap_test b (wrap32 (start + i));
     bitmap_count_loop b start value (if t = value then value_cnt + 1 else value_cnt) (i + 1) n }"

definition bitmap_count :: "bitmap \<Rightarrow> nat \<Rightarrow> nat \<Rightarrow> bool \<Rightarrow> nat option" where
  "bitmap_count b start cnt value = do {
     c_assert (start \<le> bit_cnt b);
     c_assert (wrap32 (start + cnt) \<le> bit_cnt b);
     bitmap_count_loop b start value 0 0 cnt }"

fun bitmap_contains_loop :: "bitmap \<Rightarrow> nat \<Rightarrow> bool \<Rightarrow> nat \<Rightarrow> nat \<Rightarrow> bool option" where
  "bitmap_contains_loop b start value i 0 = Some False"
| "bitmap_contains_loop b start value i (Suc n) = do {
     t \<leftarrow> bitmap_test b (wrap32 (start + i));
     if t = value then Some True else bitmap_contains_loop b start value (i + 1) n }"

definition bitmap_contains :: "bitmap \<Rightarrow> nat \<Rightarrow> nat \<Rightarrow> bool \<Rightarrow> bool option" where
  "bitmap_contains b start cnt value = do {
     c_assert (start \<le> bit_cnt b);
     c_assert (wrap32 (start + cnt) \<le> bit_cnt b);
     bitmap_contains_loop b start value 0 cnt }"

definition bitmap_any :: "bitmap \<Rightarrow> nat \<Rightarrow> nat \<Rightarrow> bool option" where
  "bitmap_any b start cnt = bitmap_contains b start cnt True"

definition bitmap_none :: "bitmap \<Rightarrow> nat \<Rightarrow> nat \<Rightarrow> bool option" where
  "bitmap_none b start cnt = map_option Not (bitmap_contains b start cnt True)"

definition bitmap_all :: "bitmap \<Rightarrow> nat \<Rightarrow> nat \<Rightarrow> bool option" where
  "bitmap_all b start cnt = map_option Not (bitmap_contains b start cnt False)"

text \<open>The search loop, with the number of candidate positions \<open>i \<le> last\<close> that are left.\<close>

fun bitmap_scan_loop :: "bitmap \<Rightarrow> nat \<Rightarrow> bool \<Rightarrow> nat \<Rightarrow> nat \<Rightarrow> nat option" where
  "bitmap_scan_loop b cnt value i 0 = Some BITMAP_ERROR"
| "bitmap_scan_loop b cnt value i (Suc n) = do {
     c \<leftarrow> bitmap_contains b i cnt (\<not> value);
     if \<not> c then Some i else bitmap_scan_loop b cnt value (i + 1) n }"

definition bitmap_scan :: "bitmap \<Rightarrow> nat \<Rightarrow> nat \<Rightarrow> bool \<Rightarrow> nat option" where
  "bitmap_scan b start cnt value = do {
     c_assert (start \<le> bit_cnt b);
     if cnt \<le> bit_cnt b then
       let last = bit_cnt b - cnt in bitmap_scan_loop b cnt value start (last + 1 - start)
     else Some BITMAP_ERROR }"

definition bitmap_scan_and_flip :: "bitmap \<Rightarrow> nat \<Rightarrow> nat \<Rightarrow> bool \<Rightarrow> (nat \<times> bitmap) option" where
  "bitmap_scan_and_flip b start cnt value = do {
     idx \<leftarrow> bitmap_scan b start cnt value;
     if idx \<noteq> BITMAP_ERROR then do {
       b \<leftarrow> bitmap_set_multiple b idx cnt (\<not> value);
       Some (idx, b) }
     else Some (idx, b) }"

section \<open>Creation\<close>

text \<open>
  Both calls of \<open>malloc\<close> are arguments: whether the first returned memory, and the
  uninitialised contents of the array if the second did. The inner \<open>None\<close> is a null result.
\<close>

definition bitmap_create :: "nat \<Rightarrow> bool \<Rightarrow> elem_type list option \<Rightarrow> bitmap option option" where
  "bitmap_create n alloc_b alloc_bits =
     (if alloc_b then
        if alloc_bits \<noteq> None \<or> n = 0 then
          map_option Some
            (bitmap_set_all \<lparr>bit_cnt = n, bits = (case alloc_bits of None \<Rightarrow> [] | Some ws \<Rightarrow> ws)\<rparr> False)
        else Some None
      else Some None)"

text \<open>
  The buffer's words after the header become the array: \<open>ws\<close> is what the buffer of
  \<open>block_size\<close> bytes holds there.
\<close>

definition bitmap_create_in_buf :: "nat \<Rightarrow> elem_type list \<Rightarrow> nat \<Rightarrow> bitmap option" where
  "bitmap_create_in_buf n ws block_size = do {
     c_assert (block_size \<ge> bitmap_buf_size n);
     bitmap_set_all \<lparr>bit_cnt = n, bits = ws\<rparr> False }"

section \<open>Refinement to lists of booleans\<close>

definition bm_wf :: "bitmap \<Rightarrow> bool" where
  "bm_wf b \<longleftrightarrow> bit_cnt b \<le> 32 * length (bits b) \<and> bit_cnt b < 2 ^ 32 - 1"

definition bm_bit :: "bitmap \<Rightarrow> nat \<Rightarrow> bool" where
  "bm_bit b i = bit (bits b ! (i div 32)) (i mod 32)"

definition bm_abs :: "bitmap \<Rightarrow> bool list" where
  "bm_abs b = map (bm_bit b) [0..<bit_cnt b]"

lemma length_bm_abs [simp]: "length (bm_abs b) = bit_cnt b"
  by (simp add: bm_abs_def)

lemma nth_bm_abs [simp]: "i < bit_cnt b \<Longrightarrow> bm_abs b ! i = bm_bit b i"
  by (simp add: bm_abs_def)

lemma bm_wf_idx: "bm_wf b \<Longrightarrow> i < bit_cnt b \<Longrightarrow> elem_idx i < length (bits b)"
  by (auto simp: bm_wf_def elem_idx_def ELEM_BITS_def intro!: less_mult_imp_div_less)

lemma bit_bit_mask: "n < 32 \<Longrightarrow> bit (bit_mask i) n \<longleftrightarrow> n = i mod 32"
  by (auto simp: bit_mask_def ELEM_BITS_def bit_simps)

lemma and_bit_mask: "w AND bit_mask i \<noteq> 0 \<longleftrightarrow> bit w (i mod 32)"
proof -
  have "w AND bit_mask i = of_bool (bit w (i mod 32)) * bit_mask i"
    by (rule bit_word_eqI) (auto simp: bit_and_iff bit_bit_mask)
  moreover have "bit_mask i \<noteq> 0"
    using bit_bit_mask [of "i mod 32" i] by auto
  ultimately show ?thesis by simp
qed

lemma bitmap_test_abs: "bm_wf b \<Longrightarrow> i < bit_cnt b \<Longrightarrow> bitmap_test b i = Some (bm_abs b ! i)"
  using bm_wf_idx [of b i]
  by (simp add: bitmap_test_def and_bit_mask bm_bit_def elem_idx_def ELEM_BITS_def)

text \<open>One element update that changes bit \<open>i\<close> only.\<close>

lemma upd_elem_abs:
  assumes wf: "bm_wf b" and i: "i < bit_cnt b"
    and f: "\<And>w n. n < 32 \<Longrightarrow> bit (f w) n = (if n = i mod 32 then g (bit w n) else bit w n)"
  shows "\<exists>b'. upd_elem b (elem_idx i) f = Some b' \<and> bm_wf b' \<and> bm_abs b' = (bm_abs b)[i := g (bm_abs b ! i)]"
proof -
  let ?b = "b\<lparr>bits := (bits b)[elem_idx i := f (bits b ! elem_idx i)]\<rparr>"
  have idx: "elem_idx i < length (bits b)" by (rule bm_wf_idx [OF wf i])
  have "bm_bit ?b j = (if j = i then g (bm_bit b i) else bm_bit b j)" if j: "j < bit_cnt b" for j
  proof (cases "j div 32 = i div 32")
    case True
    have "j = i \<longleftrightarrow> j mod 32 = i mod 32" by (metis True div_mult_mod_eq)
    then show ?thesis
      using True idx f [of "j mod 32"] by (auto simp: bm_bit_def elem_idx_def ELEM_BITS_def)
  next
    case False
    then show ?thesis by (auto simp: bm_bit_def elem_idx_def ELEM_BITS_def)
  qed
  then have "bm_abs ?b = (bm_abs b)[i := g (bm_abs b ! i)]"
    using i by (intro nth_equalityI) (auto simp: nth_list_update)
  moreover have "bm_wf ?b" using wf by (simp add: bm_wf_def)
  ultimately show ?thesis using idx by (simp add: upd_elem_def)
qed

lemma bitmap_mark_abs:
  assumes "bm_wf b" and "i < bit_cnt b"
  shows "\<exists>b'. bitmap_mark b i = Some b' \<and> bm_wf b' \<and> bm_abs b' = (bm_abs b)[i := True]"
  using upd_elem_abs [OF assms, of "\<lambda>w. w OR bit_mask i" "\<lambda>_. True"]
  by (simp add: bitmap_mark_def bit_or_iff bit_bit_mask)

lemma bitmap_reset_abs:
  assumes "bm_wf b" and "i < bit_cnt b"
  shows "\<exists>b'. bitmap_reset b i = Some b' \<and> bm_wf b' \<and> bm_abs b' = (bm_abs b)[i := False]"
  using upd_elem_abs [OF assms, of "\<lambda>w. w AND NOT (bit_mask i)" "\<lambda>_. False"]
  by (simp add: bitmap_reset_def bit_and_iff bit_not_iff bit_bit_mask)

lemma bitmap_flip_abs:
  assumes "bm_wf b" and "i < bit_cnt b"
  shows "\<exists>b'. bitmap_flip b i = Some b' \<and> bm_wf b' \<and> bm_abs b' = (bm_abs b)[i := \<not> (bm_abs b ! i)]"
  using upd_elem_abs [OF assms, of "\<lambda>w. w XOR bit_mask i" Not]
  by (simp add: bitmap_flip_def bit_xor_iff bit_bit_mask)

lemma bitmap_set_abs:
  assumes "bm_wf b" and "i < bit_cnt b"
  shows "\<exists>b'. bitmap_set b i v = Some b' \<and> bm_wf b' \<and> bm_abs b' = (bm_abs b)[i := v]"
  using bitmap_mark_abs [OF assms] bitmap_reset_abs [OF assms] assms(2) by (simp add: bitmap_set_def)

lemma bm_abs_cnt: "bm_abs b' = xs \<Longrightarrow> bit_cnt b' = length xs"
  by auto

lemma bitmap_set_loop_abs:
  "bm_wf b \<Longrightarrow> start + i + n \<le> bit_cnt b \<Longrightarrow>
   \<exists>b'. bitmap_set_loop b start v i n = Some b' \<and> bm_wf b' \<and>
        bm_abs b' = take (start + i) (bm_abs b) @ replicate n v @ drop (start + i + n) (bm_abs b)"
proof (induction n arbitrary: b i)
  case (Suc n)
  have lt: "start + i < bit_cnt b" "start + i < 2 ^ 32" using Suc.prems by (simp_all add: bm_wf_def)
  obtain b1 where b1: "bitmap_set b (start + i) v = Some b1" "bm_wf b1" "bm_abs b1 = (bm_abs b)[start + i := v]"
    using bitmap_set_abs [OF Suc.prems(1) lt(1)] by blast
  have "bit_cnt b1 = bit_cnt b" using bm_abs_cnt [OF b1(3)] by simp
  then obtain b2 where "bitmap_set_loop b1 start v (i + 1) n = Some b2" "bm_wf b2"
    "bm_abs b2 = take (start + (i + 1)) (bm_abs b1) @ replicate n v @ drop (start + (i + 1) + n) (bm_abs b1)"
    using Suc.IH [OF b1(2), of "i + 1"] Suc.prems(2) by auto
  moreover have "take (start + (i + 1)) (bm_abs b1) = take (start + i) (bm_abs b) @ [v]"
    using lt b1(3) by (simp add: take_Suc_conv_app_nth)
  moreover have "drop (start + (i + 1) + n) (bm_abs b1) = drop (start + i + Suc n) (bm_abs b)"
    using b1(3) by simp
  ultimately show ?case using lt(2) b1(1) by simp
qed simp

lemma bitmap_set_multiple_abs:
  assumes "bm_wf b" and "start + cnt \<le> bit_cnt b"
  shows "\<exists>b'. bitmap_set_multiple b start cnt v = Some b' \<and> bm_wf b' \<and>
           bm_abs b' = take start (bm_abs b) @ replicate cnt v @ drop (start + cnt) (bm_abs b)"
  using bitmap_set_loop_abs [OF assms(1), of start 0 cnt v] assms by (simp add: bitmap_set_multiple_def bm_wf_def)

lemma bitmap_set_all_abs:
  assumes "bm_wf b"
  shows "\<exists>b'. bitmap_set_all b v = Some b' \<and> bm_wf b' \<and> bm_abs b' = replicate (bit_cnt b) v"
  using bitmap_set_multiple_abs [OF assms, of 0 "bit_cnt b" v] by (simp add: bitmap_set_all_def bitmap_size_def)

text \<open>The bits \<open>start, \<dots>, start + cnt - 1\<close>.\<close>

definition bm_slice :: "bitmap \<Rightarrow> nat \<Rightarrow> nat \<Rightarrow> bool list" where
  "bm_slice b start cnt = take cnt (drop start (bm_abs b))"

lemma bm_slice_Suc:
  "start < bit_cnt b \<Longrightarrow> bm_slice b start (Suc n) = bm_abs b ! start # bm_slice b (Suc start) n"
  by (simp add: bm_slice_def Cons_nth_drop_Suc [symmetric])

lemma bitmap_count_loop_abs:
  "bm_wf b \<Longrightarrow> start + i + n \<le> bit_cnt b \<Longrightarrow>
   bitmap_count_loop b start v k i n = Some (k + count_list (bm_slice b (start + i) n) v)"
proof (induction n arbitrary: i k)
  case (Suc n)
  have lt: "start + i < bit_cnt b" "start + i < 2 ^ 32" using Suc.prems by (simp_all add: bm_wf_def)
  then show ?case using Suc.IH [of "i + 1"] Suc.prems by (simp add: bitmap_test_abs bm_slice_Suc)
qed (simp add: bm_slice_def)

lemma bitmap_count_abs:
  assumes "bm_wf b" and "start + cnt \<le> bit_cnt b"
  shows "bitmap_count b start cnt v = Some (count_list (bm_slice b start cnt) v)"
  using bitmap_count_loop_abs [OF assms(1), of start 0 cnt v 0] assms by (simp add: bitmap_count_def bm_wf_def)

lemma bitmap_contains_loop_abs:
  "bm_wf b \<Longrightarrow> start + i + n \<le> bit_cnt b \<Longrightarrow>
   bitmap_contains_loop b start v i n = Some (v \<in> set (bm_slice b (start + i) n))"
proof (induction n arbitrary: i)
  case (Suc n)
  have lt: "start + i < bit_cnt b" "start + i < 2 ^ 32" using Suc.prems by (simp_all add: bm_wf_def)
  then show ?case using Suc.IH [of "i + 1"] Suc.prems by (auto simp: bitmap_test_abs bm_slice_Suc)
qed (simp add: bm_slice_def)

lemma bitmap_contains_abs:
  assumes "bm_wf b" and "start + cnt \<le> bit_cnt b"
  shows "bitmap_contains b start cnt v = Some (v \<in> set (bm_slice b start cnt))"
  using bitmap_contains_loop_abs [OF assms(1), of start 0 cnt v] assms
  by (simp add: bitmap_contains_def bm_wf_def)



text \<open>A group of \<open>cnt\<close> bits from \<open>i\<close> on that are all \<open>v\<close>.\<close>

definition bm_group :: "bitmap \<Rightarrow> nat \<Rightarrow> nat \<Rightarrow> bool \<Rightarrow> bool" where
  "bm_group b i cnt v \<longleftrightarrow> i + cnt \<le> bit_cnt b \<and> (\<forall>j < cnt. bm_abs b ! (i + j) = v)"

lemma bm_group_slice:
  assumes "i + cnt \<le> bit_cnt b"
  shows "(\<not> v) \<notin> set (bm_slice b i cnt) \<longleftrightarrow> bm_group b i cnt v"
proof -
  have "bm_slice b i cnt = map (\<lambda>j. bm_abs b ! (i + j)) [0..<cnt]"
    using assms by (intro nth_equalityI) (simp_all add: bm_slice_def)
  then show ?thesis using assms by (auto simp: bm_group_def)
qed

text \<open>What \<open>bitmap_scan\<close> promises of its result: the first group at or after \<open>i\<close>.\<close>

definition scan_spec :: "bitmap \<Rightarrow> nat \<Rightarrow> nat \<Rightarrow> bool \<Rightarrow> nat \<Rightarrow> bool" where
  "scan_spec b i cnt v r \<longleftrightarrow>
     i \<le> r \<and> bm_group b r cnt v \<and> (\<forall>k. i \<le> k \<and> k < r \<longrightarrow> \<not> bm_group b k cnt v) \<or>
     r = BITMAP_ERROR \<and> (\<forall>k. i \<le> k \<longrightarrow> \<not> bm_group b k cnt v)"

lemma scan_spec_here: "bm_group b i cnt v \<Longrightarrow> scan_spec b i cnt v i"
  unfolding scan_spec_def by (meson le_refl not_le)

lemma scan_spec_next:
  assumes "\<not> bm_group b i cnt v" and "scan_spec b (Suc i) cnt v r"
  shows "scan_spec b i cnt v r"
proof -
  have "\<not> bm_group b k cnt v" if "i \<le> k" "Suc i \<le> k \<Longrightarrow> \<not> bm_group b k cnt v" for k
    using that assms(1) by (cases "k = i") auto
  with assms(2) show ?thesis unfolding scan_spec_def by (meson Suc_leD)
qed

lemma bitmap_scan_loop_abs:
  assumes "bm_wf b" and "cnt \<le> bit_cnt b" and "i + n = bit_cnt b - cnt + 1"
  shows "\<exists>r. bitmap_scan_loop b cnt v i n = Some r \<and> scan_spec b i cnt v r"
  using assms(3)
proof (induction n arbitrary: i)
  case 0
  then have "\<forall>k. i \<le> k \<longrightarrow> \<not> bm_group b k cnt v" using assms(2) by (auto simp: bm_group_def)
  then show ?case by (simp add: scan_spec_def)
next
  case (Suc n)
  have i: "i + cnt \<le> bit_cnt b" using Suc.prems assms(2) by simp
  note test = bitmap_contains_abs [OF assms(1) i, of "\<not> v"] bm_group_slice [OF i, of v]
  show ?case
  proof (cases "bm_group b i cnt v")
    case True
    then show ?thesis using test scan_spec_here [OF True] by simp
  next
    case False
    then show ?thesis using test Suc.IH [of "Suc i"] Suc.prems scan_spec_next [OF False] by auto
  qed
qed

lemma bitmap_scan_abs:
  assumes "bm_wf b" and "start \<le> bit_cnt b"
  shows "\<exists>r. bitmap_scan b start cnt v = Some r \<and> scan_spec b start cnt v r"
proof (cases "cnt \<le> bit_cnt b \<and> start \<le> bit_cnt b - cnt")
  case True
  then show ?thesis
    using bitmap_scan_loop_abs [of b cnt start "bit_cnt b - cnt + 1 - start" v] assms
    by (auto simp: bitmap_scan_def Let_def)
next
  case False
  then have "\<forall>k. start \<le> k \<longrightarrow> \<not> bm_group b k cnt v" by (auto simp: bm_group_def)
  moreover have "bitmap_scan b start cnt v = Some BITMAP_ERROR"
    using False assms by (auto simp: bitmap_scan_def Let_def)
  ultimately show ?thesis by (simp add: scan_spec_def)
qed

lemma scan_spec_no_error:
  "bm_wf b \<Longrightarrow> bm_group b r cnt v \<Longrightarrow> r \<noteq> BITMAP_ERROR"
  by (auto simp: bm_group_def bm_wf_def BITMAP_ERROR_def SIZE_MAX_def)

lemma bm_group_set:
  assumes "bm_group b r cnt v" and "bm_wf b"
  shows "\<exists>b'. bitmap_set_multiple b r cnt (\<not> v) = Some b' \<and> bm_wf b' \<and> bit_cnt b' = bit_cnt b \<and>
           (\<forall>i < bit_cnt b. bm_abs b' ! i = (if r \<le> i \<and> i < r + cnt then \<not> v else bm_abs b ! i))"
proof -
  have r: "r + cnt \<le> bit_cnt b" using assms(1) by (simp add: bm_group_def)
  obtain b' where b': "bitmap_set_multiple b r cnt (\<not> v) = Some b'" "bm_wf b'"
    "bm_abs b' = take r (bm_abs b) @ replicate cnt (\<not> v) @ drop (r + cnt) (bm_abs b)"
    using bitmap_set_multiple_abs [OF assms(2) r] by blast
  have "bit_cnt b' = bit_cnt b" using bm_abs_cnt [OF b'(3)] r by simp
  moreover have "bm_abs b' ! i = (if r \<le> i \<and> i < r + cnt then \<not> v else bm_abs b ! i)" if "i < bit_cnt b" for i
    using that r unfolding b'(3) by (auto simp: nth_append min_def simp del: nth_bm_abs)
  ultimately show ?thesis using b' by blast
qed

lemma bitmap_scan_and_flip_abs:
  assumes "bm_wf b" and "start \<le> bit_cnt b"
  shows "\<exists>r b'. bitmap_scan_and_flip b start cnt v = Some (r, b') \<and> bm_wf b' \<and> bit_cnt b' = bit_cnt b \<and>
           scan_spec b start cnt v r \<and> (r = BITMAP_ERROR \<longrightarrow> b' = b) \<and>
           (r \<noteq> BITMAP_ERROR \<longrightarrow>
             (\<forall>i < bit_cnt b. bm_abs b' ! i = (if r \<le> i \<and> i < r + cnt then \<not> v else bm_abs b ! i)))"
proof -
  obtain r where r: "bitmap_scan b start cnt v = Some r" "scan_spec b start cnt v r"
    using bitmap_scan_abs [OF assms] by blast
  show ?thesis
  proof (cases "r = BITMAP_ERROR")
    case True
    then show ?thesis using r assms by (simp add: bitmap_scan_and_flip_def)
  next
    case False
    then have "bm_group b r cnt v" using r(2) by (auto simp: scan_spec_def)
    from bm_group_set [OF this assms(1)] obtain b' where
      "bitmap_set_multiple b r cnt (\<not> v) = Some b'" "bm_wf b'" "bit_cnt b' = bit_cnt b"
      "\<forall>i < bit_cnt b. bm_abs b' ! i = (if r \<le> i \<and> i < r + cnt then \<not> v else bm_abs b ! i)" by blast
    with r False show ?thesis by (simp add: bitmap_scan_and_flip_def)
  qed
qed

section \<open>Creation\<close>

lemma elem_cnt_enough: "n < 2 ^ 32 - 31 \<Longrightarrow> n \<le> 32 * elem_cnt n"
  by (simp add: elem_cnt_def ELEM_BITS_def)

lemma elem_cnt_wrapped: "2 ^ 32 - 31 \<le> n \<Longrightarrow> n < 2 ^ 32 \<Longrightarrow> elem_cnt n = 0"
  by (simp add: elem_cnt_def ELEM_BITS_def wrap32_def mod_if)

text \<open>
  \<open>malloc\<close> returns null for a size of zero, so \<open>bitmap_create\<close> never builds a map whose
  element count wrapped around.
\<close>

lemma bitmap_create_abs:
  assumes n: "n < 2 ^ 32" and malloc: "\<And>ws. alloc_bits = Some ws \<Longrightarrow> ws \<noteq> [] \<and> length ws = elem_cnt n"
  shows "\<exists>r. bitmap_create n alloc_b alloc_bits = Some r \<and>
           (case r of None \<Rightarrow> \<not> alloc_b \<or> alloc_bits = None \<and> n \<noteq> 0
            | Some b \<Rightarrow> bm_wf b \<and> bm_abs b = replicate n False)"
proof (cases "alloc_b \<and> (alloc_bits \<noteq> None \<or> n = 0)")
  case True
  let ?b = "\<lparr>bit_cnt = n, bits = (case alloc_bits of None \<Rightarrow> [] | Some ws \<Rightarrow> ws)\<rparr>"
  have "bm_wf ?b"
  proof (cases alloc_bits)
    case (Some ws)
    then have "n < 2 ^ 32 - 31" using malloc [OF Some] elem_cnt_wrapped [of n] n by force
    then show ?thesis using elem_cnt_enough [of n] malloc [OF Some] Some by (simp add: bm_wf_def)
  qed (use True in \<open>auto simp: bm_wf_def\<close>)
  from bitmap_set_all_abs [OF this, of False] True show ?thesis by (auto simp: bitmap_create_def)
qed (auto simp: bitmap_create_def)

lemma bitmap_create_in_buf_abs:
  assumes "n < 2 ^ 32 - 31" and "block_size \<ge> bitmap_buf_size n" and "length ws = elem_cnt n"
  shows "\<exists>b. bitmap_create_in_buf n ws block_size = Some b \<and> bm_wf b \<and> bm_abs b = replicate n False"
  using bitmap_set_all_abs [of "\<lparr>bit_cnt = n, bits = ws\<rparr>" False] assms elem_cnt_enough [of n]
  by (simp add: bitmap_create_in_buf_def bm_wf_def)

section \<open>Properties of the bitmap operations\<close>

definition demo_bitmap :: bitmap where
  "demo_bitmap = \<lparr>bit_cnt = 40, bits = [0xfffffff5, 0x3]\<rparr>"

lemma demo_bitmap_wf: "bm_wf demo_bitmap"
  by (simp add: bm_wf_def demo_bitmap_def)

text \<open>C9: Setting bit \<open>i\<close> of a well-formed map changes that bit only: the operation on packed words refines
  the update of one entry of a list of booleans, and \<open>bitmap_test\<close> reads the list back.\<close>

theorem bitmap_set_test:
  assumes "bm_wf b" and "i < bit_cnt b" and "j < bit_cnt b"
  shows "\<exists>b'. bitmap_set b i v = Some b' \<and> bm_wf b' \<and> bm_abs b' = (bm_abs b)[i := v] \<and>
           bitmap_test b' j = Some (if j = i then v else bm_abs b ! j)"
proof -
  obtain b' where b': "bitmap_set b i v = Some b'" "bm_wf b'" "bm_abs b' = (bm_abs b)[i := v]"
    using bitmap_set_abs [OF assms(1,2)] by blast
  then have "j < bit_cnt b'" using bm_abs_cnt [OF b'(3)] assms(3) by simp
  then have "bitmap_test b' j = Some (bm_abs b' ! j)" by (rule bitmap_test_abs [OF b'(2)])
  then show ?thesis using b' assms by (simp add: nth_list_update del: nth_bm_abs)
qed

theorem bitmap_set_test_witness:
  "\<exists>b'. bitmap_set demo_bitmap 33 False = Some b' \<and> bitmap_test b' 33 = Some False"
  using bitmap_set_test [OF demo_bitmap_wf, of 33 33 False] by (auto simp: demo_bitmap_def)

text \<open>C4: \<open>bitmap_scan_and_flip\<close> returns the first index at or after \<open>start\<close> of a group of \<open>cnt\<close> bits equal to
  \<open>v\<close>, flips exactly those bits, and returns \<open>BITMAP_ERROR\<close> with the map unchanged only if there is no
  such group.\<close>

theorem bitmap_scan_and_flip_first:
  assumes "bm_wf b" and "start \<le> bit_cnt b"
  shows "\<exists>r b'. bitmap_scan_and_flip b start cnt v = Some (r, b') \<and> bm_wf b' \<and> bit_cnt b' = bit_cnt b \<and>
           (r = BITMAP_ERROR \<and> b' = b \<and> (\<forall>k. start \<le> k \<longrightarrow> \<not> bm_group b k cnt v) \<or>
            start \<le> r \<and> bm_group b r cnt v \<and> (\<forall>k. start \<le> k \<and> k < r \<longrightarrow> \<not> bm_group b k cnt v) \<and>
            (\<forall>i < bit_cnt b. bm_abs b' ! i = (if r \<le> i \<and> i < r + cnt then \<not> v else bm_abs b ! i)))"
proof -
  obtain r b' where *: "bitmap_scan_and_flip b start cnt v = Some (r, b')" "bm_wf b'" "bit_cnt b' = bit_cnt b"
    "scan_spec b start cnt v r" "r = BITMAP_ERROR \<longrightarrow> b' = b"
    "r \<noteq> BITMAP_ERROR \<longrightarrow>
       (\<forall>i < bit_cnt b. bm_abs b' ! i = (if r \<le> i \<and> i < r + cnt then \<not> v else bm_abs b ! i))"
    using bitmap_scan_and_flip_abs [OF assms] by blast
  then show ?thesis using scan_spec_no_error [OF assms(1), of r cnt v] unfolding scan_spec_def by blast
qed

theorem bitmap_scan_and_flip_first_witness:
  "\<exists>r b'. bitmap_scan_and_flip demo_bitmap 0 2 False = Some (r, b') \<and> bm_wf b' \<and> bit_cnt b' = 40"
  using bitmap_scan_and_flip_first [OF demo_bitmap_wf, of 0 2 False] by (auto simp: demo_bitmap_def)



end
