(* ===== verification/Slots.thy ===== *)
theory Slots
  imports Bitmap
begin

text \<open>
  The contract of an allocator of numbered slots. Three parts of the kernel keep such an
  allocator on top of a bitmap: the page allocator (\<open>threads/palloc.c\<close>), the swap area
  (\<open>vm/swap.c\<close>) and the free map of the file system (\<open>filesys/free-map.c\<close>). The locale
  states what taking and releasing a group of slots promises; from it follows, once for all of
  them, that groups held by different clients never overlap, whatever the sequence of requests.
\<close>

section \<open>Sequences of requests\<close>

text \<open>
  A request takes \<open>n\<close> slots, or gives back the \<open>k\<close>-th of the groups that are held. A request
  to give back a group that is not held is skipped, as is one that takes no slots. The groups
  held are pairs of first slot and size.
\<close>

datatype slot_req = Take nat | Give nat

fun slot_run ::
  "('s \<Rightarrow> nat \<Rightarrow> (nat option \<times> 's) option) \<Rightarrow> ('s \<Rightarrow> nat \<Rightarrow> nat \<Rightarrow> 's option) \<Rightarrow>
   's \<Rightarrow> (nat \<times> nat) list \<Rightarrow> slot_req list \<Rightarrow> ('s \<times> (nat \<times> nat) list) option" where
  "slot_run get put s held [] = Some (s, held)"
| "slot_run get put s held (Take n # rs) =
     (if n = 0 then slot_run get put s held rs
      else do {
        (r, s) \<leftarrow> get s n;
        slot_run get put s (case r of None \<Rightarrow> held | Some i \<Rightarrow> (i, n) # held) rs })"
| "slot_run get put s held (Give k # rs) =
     (if k < length held then do {
        s \<leftarrow> put s (fst (held ! k)) (snd (held ! k));
        slot_run get put s (take k held @ drop (Suc k) held) rs }
      else slot_run get put s held rs)"

definition slots_of :: "nat \<times> nat \<Rightarrow> nat set" where
  "slots_of g = {fst g..<fst g + snd g}"

text \<open>The groups held are pairwise disjoint and all marked as used.\<close>

definition held_ok :: "nat set \<Rightarrow> (nat \<times> nat) list \<Rightarrow> bool" where
  "held_ok U held \<longleftrightarrow>
     (\<forall>g \<in> set held. slots_of g \<subseteq> U \<and> snd g > 0) \<and>
     (\<forall>i j. i < j \<and> j < length held \<longrightarrow> slots_of (held ! i) \<inter> slots_of (held ! j) = {})"

lemma held_ok_Nil [simp]: "held_ok U []"
  by (simp add: held_ok_def)

lemma held_ok_Cons:
  "held_ok U (g # held) \<longleftrightarrow>
     slots_of g \<subseteq> U \<and> snd g > 0 \<and> (\<forall>g' \<in> set held. slots_of g \<inter> slots_of g' = {}) \<and> held_ok U held"
proof -
  have "(\<forall>i j. i < j \<and> j < length (g # held) \<longrightarrow> slots_of ((g # held) ! i) \<inter> slots_of ((g # held) ! j) = {}) \<longleftrightarrow>
        (\<forall>j < length held. slots_of g \<inter> slots_of (held ! j) = {}) \<and>
        (\<forall>i j. i < j \<and> j < length held \<longrightarrow> slots_of (held ! i) \<inter> slots_of (held ! j) = {})" (is "?L \<longleftrightarrow> ?R")
  proof
    assume L: ?L
    show ?R using L [rule_format, of 0 "Suc _"] L [rule_format, of "Suc _" "Suc _"] by auto
  next
    assume R: ?R
    show ?L
    proof (intro allI impI)
      fix i j assume "i < j \<and> j < length (g # held)"
      then show "slots_of ((g # held) ! i) \<inter> slots_of ((g # held) ! j) = {}"
        using R by (cases i; cases j) auto
    qed
  qed
  then show ?thesis by (auto simp: held_ok_def all_set_conv_all_nth)
qed

lemma held_ok_mono: "held_ok U held \<Longrightarrow> U \<subseteq> V \<Longrightarrow> held_ok V held"
  by (auto simp: held_ok_def)

lemma held_ok_remove:
  assumes "held_ok U held" and "k < length held"
  shows "held_ok (U - slots_of (held ! k)) (take k held @ drop (Suc k) held)"
  using assms
proof (induction held arbitrary: k)
  case (Cons g held)
  show ?case
  proof (cases k)
    case 0
    have "\<forall>g' \<in> set held. slots_of g' \<subseteq> U - slots_of g"
      using Cons.prems(1) unfolding held_ok_Cons by (auto simp: held_ok_def)
    then show ?thesis using Cons.prems(1) 0 unfolding held_ok_Cons by (simp add: held_ok_def)
  next
    case (Suc m)
    then have m: "m < length held" using Cons.prems(2) by simp
    have "set (take m held @ drop (Suc m) held) \<subseteq> set held"
      by (auto dest: in_set_takeD in_set_dropD)
    moreover have "slots_of g \<inter> slots_of (held ! m) = {}" using Cons.prems(1) m unfolding held_ok_Cons by simp
    ultimately show ?thesis
      using Cons.IH [OF _ m] Cons.prems(1) Suc unfolding held_ok_Cons by (auto simp: held_ok_Cons)
  qed
qed simp

section \<open>The contract\<close>

locale slot_alloc =
  fixes inv :: "'s \<Rightarrow> bool"
    and slots :: "'s \<Rightarrow> nat set"
    and used :: "'s \<Rightarrow> nat set"
    and get :: "'s \<Rightarrow> nat \<Rightarrow> (nat option \<times> 's) option"
    and put :: "'s \<Rightarrow> nat \<Rightarrow> nat \<Rightarrow> 's option"
  assumes get_total: "inv s \<Longrightarrow> 0 < n \<Longrightarrow> \<exists>r s'. get s n = Some (r, s') \<and> inv s' \<and> slots s' = slots s"
    and get_some: "inv s \<Longrightarrow> 0 < n \<Longrightarrow> get s n = Some (Some i, s') \<Longrightarrow>
          {i..<i + n} \<subseteq> slots s \<and> {i..<i + n} \<inter> used s = {} \<and> used s' = used s \<union> {i..<i + n}"
    and get_none: "inv s \<Longrightarrow> 0 < n \<Longrightarrow> get s n = Some (None, s') \<Longrightarrow>
          used s' = used s \<and> (\<forall>i. {i..<i + n} \<subseteq> slots s \<longrightarrow> {i..<i + n} \<inter> used s \<noteq> {})"
    and used_slots: "inv s \<Longrightarrow> used s \<subseteq> slots s"
    and put_ok: "inv s \<Longrightarrow> 0 < n \<Longrightarrow> {i..<i + n} \<subseteq> used s \<Longrightarrow>
          \<exists>s'. put s i n = Some s' \<and> inv s' \<and> slots s' = slots s \<and> used s' = used s - {i..<i + n}"
begin

lemma run_disjoint:
  "inv s \<Longrightarrow> held_ok (used s) held \<Longrightarrow>
   \<exists>s' held'. slot_run get put s held rs = Some (s', held') \<and> inv s' \<and> slots s' = slots s \<and>
              held_ok (used s') held'"
proof (induction rs arbitrary: s held)
  case (Cons q rs)
  show ?case
  proof (cases q)
    case (Take n)
    show ?thesis
    proof (cases "n = 0")
      case True
      then show ?thesis using Take Cons by simp
    next
      case False
      then have n: "0 < n" by simp
      obtain r s1 where s1: "get s n = Some (r, s1)" "inv s1" "slots s1 = slots s"
        using get_total [OF Cons.prems(1) n] by blast
      let ?held = "case r of None \<Rightarrow> held | Some i \<Rightarrow> (i, n) # held"
      have "held_ok (used s1) ?held"
      proof (cases r)
        case None
        then show ?thesis using get_none [OF Cons.prems(1) n] s1(1) Cons.prems(2) by simp
      next
        case (Some i)
        then have new: "slots_of (i, n) \<inter> used s = {}" "used s1 = used s \<union> slots_of (i, n)"
          using get_some [OF Cons.prems(1) n] s1(1) by (auto simp: slots_of_def)
        have "\<forall>g \<in> set held. slots_of g \<subseteq> used s" using Cons.prems(2) by (simp add: held_ok_def)
        then have "\<forall>g \<in> set held. slots_of (i, n) \<inter> slots_of g = {}" using new(1) by blast
        moreover have "held_ok (used s1) held" using held_ok_mono [OF Cons.prems(2)] new(2) by simp
        ultimately show ?thesis using Some n new(2) by (simp add: held_ok_Cons)
      qed
      from Cons.IH [OF s1(2) this] show ?thesis using Take False s1(1,3) by simp
    qed
  next
    case (Give k)
    show ?thesis
    proof (cases "k < length held")
      case False
      then show ?thesis using Give Cons by simp
    next
      case True
      then have "slots_of (held ! k) \<subseteq> used s" "0 < snd (held ! k)"
        using Cons.prems(2) by (auto simp: held_ok_def)
      then obtain s1 where s1: "put s (fst (held ! k)) (snd (held ! k)) = Some s1" "inv s1" "slots s1 = slots s"
        "used s1 = used s - slots_of (held ! k)"
        using put_ok [OF Cons.prems(1)] unfolding slots_of_def by blast
      have "held_ok (used s1) (take k held @ drop (Suc k) held)"
        using held_ok_remove [OF Cons.prems(2) True] s1(4) by simp
      from Cons.IH [OF s1(2) this] show ?thesis using Give True s1(1,3) by simp
    qed
  qed
qed simp

text \<open>Taking a group and giving it back at once leaves the set of used slots as it was.\<close>

lemma get_put:
  assumes "inv s" and "0 < n" and "get s n = Some (Some i, s1)"
  shows "\<exists>s2. put s1 i n = Some s2 \<and> inv s2 \<and> used s2 = used s"
proof -
  have "inv s1" using get_total [OF assms(1,2)] assms(3) by auto
  moreover have "{i..<i + n} \<inter> used s = {}" "used s1 = used s \<union> {i..<i + n}"
    using get_some [OF assms] by auto
  ultimately show ?thesis using put_ok [of s1 n i] assms(2) by auto
qed

end

section \<open>Bitmaps as allocators\<close>

definition bm_used :: "bitmap \<Rightarrow> nat set" where
  "bm_used b = {i. i < bit_cnt b \<and> bm_abs b ! i}"

definition bm_get :: "bitmap \<Rightarrow> nat \<Rightarrow> (nat option \<times> bitmap) option" where
  "bm_get b n = do {
     (r, b) \<leftarrow> bitmap_scan_and_flip b 0 n False;
     Some (if r = BITMAP_ERROR then None else Some r, b) }"

text \<open>Releasing with the assertion that both \<open>palloc.c\<close> and \<open>free-map.c\<close> make first.\<close>

definition bm_put :: "bitmap \<Rightarrow> nat \<Rightarrow> nat \<Rightarrow> bitmap option" where
  "bm_put b i n = do {
     all \<leftarrow> bitmap_all b i n;
     c_assert all;
     bitmap_set_multiple b i n False }"

lemma bm_group_used: "bm_group b i n False \<longleftrightarrow> i + n \<le> bit_cnt b \<and> {i..<i + n} \<inter> bm_used b = {}"
  unfolding bm_group_def bm_used_def all_shift [where P = "\<lambda>k. bm_abs b ! k = False"] by auto

lemma bm_group_in_use: "bm_group b i n True \<longleftrightarrow> i + n \<le> bit_cnt b \<and> {i..<i + n} \<subseteq> bm_used b"
  unfolding bm_group_def bm_used_def all_shift [where P = "\<lambda>k. bm_abs b ! k = True"] by auto

lemma bm_get_cases:
  assumes "bm_wf b"
  shows "\<exists>r b'. bm_get b n = Some (r, b') \<and> bm_wf b' \<and> bit_cnt b' = bit_cnt b \<and>
           (case r of
              None \<Rightarrow> b' = b \<and> (\<forall>i. i + n \<le> bit_cnt b \<longrightarrow> {i..<i + n} \<inter> bm_used b \<noteq> {})
            | Some i \<Rightarrow> i + n \<le> bit_cnt b \<and> {i..<i + n} \<inter> bm_used b = {} \<and> bm_used b' = bm_used b \<union> {i..<i + n})"
proof -
  obtain r b' where r: "bitmap_scan_and_flip b 0 n False = Some (r, b')" "bm_wf b'" "bit_cnt b' = bit_cnt b"
    "scan_spec b 0 n False r" "r = BITMAP_ERROR \<longrightarrow> b' = b"
    "r \<noteq> BITMAP_ERROR \<longrightarrow> (\<forall>i < bit_cnt b. bm_abs b' ! i = (if r \<le> i \<and> i < r + n then \<not> False else bm_abs b ! i))"
    using bitmap_scan_and_flip_abs [OF assms, of 0 n False] by blast
  show ?thesis
  proof (cases "r = BITMAP_ERROR")
    case True
    then have "\<not> bm_group b k n False" for k
      using r(4) scan_spec_no_error [OF assms, of r n False] by (auto simp: scan_spec_def)
    then show ?thesis using r True by (auto simp: bm_get_def bm_group_used)
  next
    case False
    then have g: "bm_group b r n False" using r(4) by (auto simp: scan_spec_def)
    then have le: "r + n \<le> bit_cnt b" by (simp add: bm_group_def)
    have "bm_used b' = bm_used b \<union> {r..<r + n}"
      using r(3,6) False le unfolding bm_used_def
      by (intro set_eqI) (auto simp del: nth_bm_abs)
    then show ?thesis using r False g by (simp add: bm_get_def bm_group_used)
  qed
qed

lemma bm_put_used:
  assumes "bm_wf b" and "{i..<i + n} \<subseteq> bm_used b" and "i + n \<le> bit_cnt b"
  shows "\<exists>b'. bm_put b i n = Some b' \<and> bm_wf b' \<and> bit_cnt b' = bit_cnt b \<and> bm_used b' = bm_used b - {i..<i + n}"
proof -
  have g: "bm_group b i n True" using assms(2,3) by (simp add: bm_group_in_use)
  then have "bitmap_all b i n = Some True"
    using bitmap_contains_abs [OF assms(1,3), of False] bm_group_slice [OF assms(3), of True]
    by (simp add: bitmap_all_def)
  moreover obtain b' where b': "bitmap_set_multiple b i n False = Some b'" "bm_wf b'" "bit_cnt b' = bit_cnt b"
    "\<forall>k < bit_cnt b. bm_abs b' ! k = (if i \<le> k \<and> k < i + n then \<not> True else bm_abs b ! k)"
    using bm_group_set [OF g assms(1)] by auto
  moreover have "bm_used b' = bm_used b - {i..<i + n}"
    using b'(3,4) assms(3) unfolding bm_used_def by (intro set_eqI) (auto simp del: nth_bm_abs split: if_splits)
  ultimately show ?thesis by (simp add: bm_put_def)
qed

text \<open>Releasing a group that is not entirely in use fails the assertion.\<close>

lemma bm_put_free:
  assumes "bm_wf b" and "i + n \<le> bit_cnt b" and "\<not> {i..<i + n} \<subseteq> bm_used b"
  shows "bm_put b i n = None"
proof -
  have "\<not> bm_group b i n True"
    using assms(2,3) by (simp add: bm_group_in_use)
  then have "bitmap_all b i n = Some False"
    using bitmap_contains_abs [OF assms(1,2), of False] bm_group_slice [OF assms(2), of True]
    by (simp add: bitmap_all_def)
  then show ?thesis by (simp add: bm_put_def)
qed

lemma slot_range_le:
  assumes "0 < n" and "{i..<i + n} \<subseteq> {..<m}"
  shows "i + n \<le> (m :: nat)"
proof -
  have "i + n - 1 \<in> {i..<i + n}" using assms(1) by auto
  then have "i + n - 1 < m" using assms(2) by blast
  then show ?thesis using assms(1) by simp
qed

interpretation bm_slots: slot_alloc bm_wf "\<lambda>b. {..<bit_cnt b}" bm_used bm_get bm_put
proof
  fix b and n :: nat
  assume "bm_wf b" "0 < n"
  then show "\<exists>r s'. bm_get b n = Some (r, s') \<and> bm_wf s' \<and> {..<bit_cnt s'} = {..<bit_cnt b}"
    using bm_get_cases [of b n] by auto
next
  fix b n i b'
  assume "bm_wf b" "0 < n" "bm_get b n = Some (Some i, b')"
  then show "{i..<i + n} \<subseteq> {..<bit_cnt b} \<and> {i..<i + n} \<inter> bm_used b = {} \<and> bm_used b' = bm_used b \<union> {i..<i + n}"
    using bm_get_cases [of b n] by auto
next
  fix b n b'
  assume a: "bm_wf b" "0 < n" "bm_get b n = Some (None, b')"
  then have "b' = b" "\<forall>i. i + n \<le> bit_cnt b \<longrightarrow> {i..<i + n} \<inter> bm_used b \<noteq> {}"
    using bm_get_cases [of b n] by auto
  then show "bm_used b' = bm_used b \<and> (\<forall>i. {i..<i + n} \<subseteq> {..<bit_cnt b} \<longrightarrow> {i..<i + n} \<inter> bm_used b \<noteq> {})"
    using slot_range_le [OF a(2)] by blast
next
  fix b
  assume "bm_wf b"
  show "bm_used b \<subseteq> {..<bit_cnt b}" by (auto simp: bm_used_def)
next
  fix b n i
  assume a: "bm_wf b" "0 < n" "{i..<i + n} \<subseteq> bm_used b"
  then have "i + n \<le> bit_cnt b" by (intro slot_range_le) (auto simp: bm_used_def)
  with bm_put_used [OF a(1,3)]
  show "\<exists>s'. bm_put b i n = Some s' \<and> bm_wf s' \<and> {..<bit_cnt s'} = {..<bit_cnt b} \<and> bm_used s' = bm_used b - {i..<i + n}"
    by auto
qed

end
