(* ===== verification/Vaddr.thy ===== *)
theory Vaddr
  imports Prelude
begin

text \<open>
  Addresses and memory: \<open>threads/vaddr.h\<close>, \<open>threads/pte.h\<close>, and the byte-addressed memory
  the page allocator and the page tables live in. A virtual address is a 32-bit word, memory is
  a function from addresses to bytes, and a 32-bit cell is read and written little-endian, as
  the target does.
\<close>

unbundle bit_operations_syntax

section \<open>Virtual addresses\<close>

type_synonym vaddr = "32 word"
type_synonym byte = "8 word"
type_synonym memory = "vaddr \<Rightarrow> byte"

definition PGBITS :: nat where
  "PGBITS = 12"

definition PGSIZE :: nat where
  "PGSIZE = 4096"

definition PGMASK :: vaddr where
  "PGMASK = 0xfff"

definition PHYS_BASE :: vaddr where
  "PHYS_BASE = 0xc0000000"

definition pg_ofs :: "vaddr \<Rightarrow> vaddr" where
  "pg_ofs va = va AND PGMASK"

definition pg_no :: "vaddr \<Rightarrow> vaddr" where
  "pg_no va = drop_bit PGBITS va"

definition pg_round_up :: "vaddr \<Rightarrow> vaddr" where
  "pg_round_up va = (va + 4096 - 1) AND NOT PGMASK"

definition pg_round_down :: "vaddr \<Rightarrow> vaddr" where
  "pg_round_down va = va AND NOT PGMASK"

definition is_user_vaddr :: "vaddr \<Rightarrow> bool" where
  "is_user_vaddr va \<longleftrightarrow> va < PHYS_BASE"

definition is_kernel_vaddr :: "vaddr \<Rightarrow> bool" where
  "is_kernel_vaddr va \<longleftrightarrow> va \<ge> PHYS_BASE"

definition ptov :: "vaddr \<Rightarrow> vaddr option" where
  "ptov paddr = do { c_assert (paddr < PHYS_BASE); Some (paddr + PHYS_BASE) }"

definition vtop :: "vaddr \<Rightarrow> vaddr option" where
  "vtop va = do { c_assert (is_kernel_vaddr va); Some (va - PHYS_BASE) }"

section \<open>Page directory and page table entries\<close>

type_synonym pte = "32 word"

definition PTE_ADDR :: pte where "PTE_ADDR = 0xfffff000"
definition PTE_P :: pte where "PTE_P = 0x1"
definition PTE_W :: pte where "PTE_W = 0x2"
definition PTE_U :: pte where "PTE_U = 0x4"
definition PTE_A :: pte where "PTE_A = 0x20"
definition PTE_D :: pte where "PTE_D = 0x40"

lemmas pte_bits = PTE_ADDR_def PTE_P_def PTE_W_def PTE_U_def PTE_A_def PTE_D_def

definition PTMASK :: vaddr where
  "PTMASK = 0x3ff000"

definition pt_no :: "vaddr \<Rightarrow> vaddr" where
  "pt_no va = drop_bit 12 (va AND PTMASK)"

definition pd_no :: "vaddr \<Rightarrow> vaddr" where
  "pd_no va = drop_bit 22 va"

definition pde_create :: "vaddr \<Rightarrow> pte option" where
  "pde_create pt = do {
     c_assert (pg_ofs pt = 0);
     p \<leftarrow> vtop pt;
     Some (p OR PTE_U OR PTE_P OR PTE_W) }"

definition pde_get_pt :: "pte \<Rightarrow> vaddr option" where
  "pde_get_pt pde = do { c_assert (pde AND PTE_P \<noteq> 0); ptov (pde AND PTE_ADDR) }"

definition pte_create_kernel :: "vaddr \<Rightarrow> bool \<Rightarrow> pte option" where
  "pte_create_kernel page writable = do {
     c_assert (pg_ofs page = 0);
     p \<leftarrow> vtop page;
     Some (p OR PTE_P OR (if writable then PTE_W else 0)) }"

definition pte_create_user :: "vaddr \<Rightarrow> bool \<Rightarrow> pte option" where
  "pte_create_user page writable = map_option (\<lambda>e. e OR PTE_U) (pte_create_kernel page writable)"

definition pte_get_page :: "pte \<Rightarrow> vaddr option" where
  "pte_get_page e = ptov (e AND PTE_ADDR)"

section \<open>Memory\<close>

definition load32 :: "memory \<Rightarrow> vaddr \<Rightarrow> 32 word" where
  "load32 m a =
     ucast (m a) OR push_bit 8 (ucast (m (a + 1))) OR push_bit 16 (ucast (m (a + 2))) OR
     push_bit 24 (ucast (m (a + 3)))"

definition store32 :: "memory \<Rightarrow> vaddr \<Rightarrow> 32 word \<Rightarrow> memory" where
  "store32 m a v =
     m(a := ucast v, a + 1 := ucast (drop_bit 8 v), a + 2 := ucast (drop_bit 16 v),
       a + 3 := ucast (drop_bit 24 v))"

text \<open>\<open>memset\<close> and \<open>memcpy\<close> on \<open>n\<close> bytes of memory; addresses wrap around.\<close>

definition mem_set :: "memory \<Rightarrow> vaddr \<Rightarrow> byte \<Rightarrow> nat \<Rightarrow> memory" where
  "mem_set m dst v n = (\<lambda>a. if unat (a - dst) < n then v else m a)"

definition mem_copy :: "memory \<Rightarrow> vaddr \<Rightarrow> vaddr \<Rightarrow> nat \<Rightarrow> memory" where
  "mem_copy m dst src n = (\<lambda>a. if unat (a - dst) < n then m (src + (a - dst)) else m a)"

section \<open>Facts about addresses\<close>

lemma bit_PGMASK: "bit PGMASK n \<longleftrightarrow> n < 12"
proof -
  have "PGMASK = mask 12" by (simp add: PGMASK_def mask_eq_exp_minus_1)
  then have "bit PGMASK n \<longleftrightarrow> bit (mask 12 :: 32 word) n" by (rule arg_cong)
  also have "\<dots> \<longleftrightarrow> n < 12" unfolding bit_mask_iff by auto
  finally show ?thesis .
qed

lemma pg_ofs_take_bit: "pg_ofs va = take_bit 12 va"
  by (rule bit_word_eqI) (auto simp: pg_ofs_def bit_and_iff bit_PGMASK bit_take_bit_iff)

lemma unat_pg_ofs: "unat (pg_ofs va) = unat va mod 4096"
  by (simp add: pg_ofs_take_bit take_bit_eq_mod unat_mod)

lemma unat_pg_no: "unat (pg_no va) = unat va div 4096"
  by (simp add: pg_no_def PGBITS_def drop_bit_eq_div unat_div)

lemma unat_pg_round_down: "unat (pg_round_down va) = 4096 * (unat va div 4096)"
proof -
  have "unat (pg_round_down va) = push_bit 12 (drop_bit 12 (unat va))"
    by (rule bit_eqI)
      (auto simp: pg_round_down_def bit_unsigned_iff bit_and_iff bit_not_iff bit_PGMASK
        bit_push_bit_iff bit_drop_bit_eq dest: bit_imp_le_length)
  then show ?thesis by (simp add: push_bit_eq_mult drop_bit_eq_div)
qed

text \<open>An address is page aligned when its offset is zero.\<close>

lemma pg_ofs_zero_iff: "pg_ofs va = 0 \<longleftrightarrow> 4096 dvd unat va"
  by (metis unat_pg_ofs unat_eq_zero dvd_eq_mod_eq_0)

lemma pg_ofs_bit: "pg_ofs va = 0 \<Longrightarrow> n < 12 \<Longrightarrow> \<not> bit va n"
  by (metis bit_0_eq bit_take_bit_iff bot_apply bot_bool_def pg_ofs_take_bit)

lemma pg_ofs_round_down [simp]: "pg_ofs (pg_round_down va) = 0"
  by (simp add: pg_ofs_zero_iff unat_pg_round_down)

lemma pg_no_round_down [simp]: "pg_no (pg_round_down va) = pg_no va"
  by (simp add: word_unat_eq_iff unat_pg_no unat_pg_round_down)

lemma pg_split: "unat va = 4096 * unat (pg_no va) + unat (pg_ofs va)"
  by (simp add: unat_pg_no unat_pg_ofs)

lemma pg_eqI: "pg_no a = pg_no b \<Longrightarrow> pg_ofs a = pg_ofs b \<Longrightarrow> a = b"
  by (metis pg_split word_unat_eq_iff)

text \<open>The page directory index and the page table index determine the page.\<close>

lemma unat_pd_no: "unat (pd_no va) = unat va div 2 ^ 22"
  by (simp add: pd_no_def drop_bit_eq_div unat_div)

lemma bit_PTMASK: "bit PTMASK n \<longleftrightarrow> 12 \<le> n \<and> n < 22"
proof -
  have "PTMASK = push_bit 12 (mask 10)" by (simp add: PTMASK_def mask_eq_exp_minus_1 push_bit_eq_mult)
  then have "bit PTMASK n \<longleftrightarrow> bit (push_bit 12 (mask 10) :: 32 word) n" by (rule arg_cong)
  also have "\<dots> \<longleftrightarrow> 12 \<le> n \<and> n < 22" unfolding bit_push_bit_iff bit_mask_iff by auto
  finally show ?thesis .
qed

lemma unat_pt_no: "unat (pt_no va) = unat va div 4096 mod 1024"
proof -
  have "unat (pt_no va) = take_bit 10 (drop_bit 12 (unat va))"
    by (intro bit_eqI)
      (auto simp: pt_no_def bit_unsigned_iff bit_and_iff bit_drop_bit_eq bit_PTMASK bit_take_bit_iff
        dest: bit_imp_le_length)
  then show ?thesis by (simp add: take_bit_eq_mod drop_bit_eq_div)
qed

lemma pd_pt_no_iff: "pd_no a = pd_no b \<and> pt_no a = pt_no b \<longleftrightarrow> pg_no a = pg_no b"
proof -
  have pd: "unat va div 2 ^ 22 = unat (pg_no va) div 1024" for va
    by (simp add: unat_pg_no div_mult2_eq [symmetric])
  have "unat (pg_no a) div 1024 = unat (pg_no b) div 1024 \<and> unat (pg_no a) mod 1024 = unat (pg_no b) mod 1024
        \<longleftrightarrow> unat (pg_no a) = unat (pg_no b)"
    by (metis div_mult_mod_eq)
  then show ?thesis
    unfolding word_unat_eq_iff [of "pd_no a"] word_unat_eq_iff [of "pt_no a"] word_unat_eq_iff [of "pg_no a"]
    by (simp add: unat_pd_no unat_pt_no pd [simplified] unat_pg_no [symmetric])
qed

text \<open>The kernel maps physical memory one to one above \<open>PHYS_BASE\<close>.\<close>

lemma vtop_ptov: "vtop v = Some p \<Longrightarrow> ptov p = Some v"
proof -
  assume a: "vtop v = Some p"
  then have v: "v \<ge> PHYS_BASE" "p = v - PHYS_BASE" by (auto simp: vtop_def is_kernel_vaddr_def)
  have "unat p = unat v - unat PHYS_BASE" using v by (simp add: unat_sub)
  moreover have "unat v < 2 ^ 32" using unsigned_less [of v] by simp
  ultimately have "p < PHYS_BASE" by (simp add: word_less_nat_alt PHYS_BASE_def)
  with v show ?thesis by (simp add: ptov_def)
qed

section \<open>Facts about entries\<close>

lemma pte_test:
  "e AND PTE_P \<noteq> 0 \<longleftrightarrow> bit e 0"
  "e AND PTE_W \<noteq> 0 \<longleftrightarrow> bit e 1"
  "e AND PTE_U \<noteq> 0 \<longleftrightarrow> bit e 2"
  "e AND PTE_A \<noteq> 0 \<longleftrightarrow> bit e 5"
  "e AND PTE_D \<noteq> 0 \<longleftrightarrow> bit e 6"
  using and_exp_eq_0_iff_not_bit [of e 0] and_exp_eq_0_iff_not_bit [of e 1] and_exp_eq_0_iff_not_bit [of e 2]
    and_exp_eq_0_iff_not_bit [of e 5] and_exp_eq_0_iff_not_bit [of e 6]
  by (simp_all add: pte_bits)

lemma bit_pte:
  "bit PTE_P n \<longleftrightarrow> n = 0"
  "bit PTE_W n \<longleftrightarrow> n = 1"
  "bit PTE_U n \<longleftrightarrow> n = 2"
  "bit PTE_A n \<longleftrightarrow> n = 5"
  "bit PTE_D n \<longleftrightarrow> n = 6"
proof -
  have p: "PTE_P = 2 ^ 0" "PTE_W = 2 ^ 1" "PTE_U = 2 ^ 2" "PTE_A = 2 ^ 5" "PTE_D = 2 ^ 6"
    by (simp_all add: pte_bits)
  show "bit PTE_P n \<longleftrightarrow> n = 0" "bit PTE_W n \<longleftrightarrow> n = 1" "bit PTE_U n \<longleftrightarrow> n = 2" "bit PTE_A n \<longleftrightarrow> n = 5"
    "bit PTE_D n \<longleftrightarrow> n = 6"
    unfolding p bit_exp_iff by auto
qed

lemma bit_PTE_ADDR: "bit PTE_ADDR n \<longleftrightarrow> 12 \<le> n \<and> n < 32"
proof -
  have "PTE_ADDR = NOT PGMASK" by (simp add: PTE_ADDR_def PGMASK_def)
  then have "bit PTE_ADDR n \<longleftrightarrow> bit (NOT PGMASK) n" by (rule arg_cong)
  then show ?thesis unfolding bit_not_iff bit_PGMASK by auto
qed

lemma vtop_aligned: "vtop v = Some p \<Longrightarrow> pg_ofs v = 0 \<Longrightarrow> pg_ofs p = 0"
proof -
  assume a: "vtop v = Some p" "pg_ofs v = 0"
  then have "p = v - PHYS_BASE" "PHYS_BASE \<le> v" by (auto simp: vtop_def is_kernel_vaddr_def)
  then have "unat p = unat v - unat PHYS_BASE" by (simp add: unat_sub)
  moreover have "4096 dvd unat v" "4096 dvd unat PHYS_BASE"
    using a(2) by (simp_all add: pg_ofs_zero_iff PHYS_BASE_def)
  ultimately show ?thesis by (simp add: pg_ofs_zero_iff dvd_diff_nat)
qed

text \<open>An address with flags in its low bits, and what the mask reads back.\<close>

lemma pte_addr_flags:
  assumes "pg_ofs p = 0" and "\<And>n. bit f n \<Longrightarrow> n < 12"
  shows "(p OR f) AND PTE_ADDR = p"
proof (rule bit_word_eqI)
  fix n assume "n < LENGTH(32)"
  then show "bit ((p OR f) AND PTE_ADDR) n = bit p n"
    using assms(2) [of n] pg_ofs_bit [OF assms(1), of n]
    by (cases "n < 12") (auto simp: bit_and_iff bit_or_iff bit_PTE_ADDR)
qed

lemma pde_create_get:
  assumes "pde_create pt = Some e"
  shows "pde_get_pt e = Some pt \<and> e \<noteq> 0"
proof -
  from assms obtain p where p: "pg_ofs pt = 0" "vtop pt = Some p" "e = p OR (PTE_U OR PTE_P OR PTE_W)"
    by (auto simp: pde_create_def or.assoc split: Option.bind_splits)
  have "e AND PTE_ADDR = p"
    unfolding p(3) by (rule pte_addr_flags [OF vtop_aligned [OF p(2,1)]]) (auto simp: bit_or_iff bit_pte)
  moreover have "bit e 0" by (simp add: p(3) bit_or_iff bit_pte)
  ultimately show ?thesis using vtop_ptov [OF p(2)] pte_test(1) by (auto simp: pde_get_pt_def)
qed

lemma pte_create_user_get:
  assumes "pte_create_user page w = Some e"
  shows "pte_get_page e = Some page \<and> bit e 0 \<and> bit e 1 = w \<and> bit e 2 \<and> \<not> bit e 5 \<and> \<not> bit e 6"
proof -
  from assms obtain p where p: "pg_ofs page = 0" "vtop page = Some p"
      "e = p OR (PTE_P OR (if w then PTE_W else 0) OR PTE_U)"
    by (auto simp: pte_create_user_def pte_create_kernel_def or.assoc split: Option.bind_splits)
  have low: "n < 12 \<Longrightarrow> \<not> bit p n" for n using pg_ofs_bit [OF vtop_aligned [OF p(2,1)]] .
  have "e AND PTE_ADDR = p"
    unfolding p(3)
    by (rule pte_addr_flags [OF vtop_aligned [OF p(2,1)]]) (auto simp: bit_or_iff bit_pte split: if_splits)
  then show ?thesis using vtop_ptov [OF p(2)] low by (simp add: pte_get_page_def p(3) bit_or_iff bit_pte)
qed

lemma pte_create_user_defined:
  "pg_ofs page = 0 \<Longrightarrow> is_kernel_vaddr page \<Longrightarrow> \<exists>e. pte_create_user page w = Some e"
  by (simp add: pte_create_user_def pte_create_kernel_def vtop_def)

section \<open>Facts about memory\<close>

definition aligned4 :: "vaddr \<Rightarrow> bool" where
  "aligned4 a \<longleftrightarrow> 4 dvd unat a"

lemma aligned4_cell: "aligned4 a \<Longrightarrow> i < 4 \<Longrightarrow> unat (a + of_nat i) = unat a + i"
proof -
  assume a: "aligned4 a" "i < 4"
  obtain k where k: "unat a = 4 * k" using a(1) by (auto simp: aligned4_def)
  have "unat a < 2 ^ 32" using unsigned_less [of a] by simp
  then have "unat a + i < 2 ^ 32" using k a(2) by auto
  then show ?thesis using a(2) by (simp add: unat_word_ariths unat_of_nat)
qed

lemma aligned4_cells:
  assumes "aligned4 a"
  shows "unat (a + 1) = unat a + 1" "unat (a + 2) = unat a + 2" "unat (a + 3) = unat a + 3"
  using aligned4_cell [OF assms, of 1] aligned4_cell [OF assms, of 2] aligned4_cell [OF assms, of 3] by simp_all

lemma load32_cong:
  "m a = m' a \<Longrightarrow> m (a + 1) = m' (a + 1) \<Longrightarrow> m (a + 2) = m' (a + 2) \<Longrightarrow> m (a + 3) = m' (a + 3) \<Longrightarrow>
   load32 m a = load32 m' a"
  by (simp add: load32_def)

lemma store32_cells:
  assumes "aligned4 a"
  shows "store32 m a v a = ucast v" "store32 m a v (a + 1) = ucast (drop_bit 8 v)"
    "store32 m a v (a + 2) = ucast (drop_bit 16 v)" "store32 m a v (a + 3) = ucast (drop_bit 24 v)"
  using aligned4_cells [OF assms] by (auto simp: store32_def word_unat_eq_iff)

lemma load_store32: "aligned4 a \<Longrightarrow> load32 (store32 m a v) a = v"
proof (rule bit_word_eqI)
  fix n assume a: "aligned4 a" "n < LENGTH(32)"
  then consider "n < 8" | "8 \<le> n" "n < 16" | "16 \<le> n" "n < 24" | "24 \<le> n" "n < 32" by force
  then show "bit (load32 (store32 m a v) a) n = bit v n"
    unfolding load32_def store32_cells [OF a(1)]
    by cases (auto simp: bit_or_iff bit_push_bit_iff bit_ucast_iff bit_drop_bit_eq)
qed

lemma store32_other: "aligned4 a \<Longrightarrow> unat b < unat a \<or> unat a + 3 < unat b \<Longrightarrow> store32 m a v b = m b"
  using aligned4_cells [of a] by (auto simp: store32_def word_unat_eq_iff)

lemma load_store32_other:
  assumes "aligned4 a" and "aligned4 b" and "a \<noteq> b"
  shows "load32 (store32 m a v) b = load32 m b"
proof -
  obtain i j where ij: "unat a = 4 * i" "unat b = 4 * j" using assms(1,2) unfolding aligned4_def by (elim dvdE)
  with assms(3) have "i \<noteq> j" by (auto simp: word_unat_eq_iff)
  with ij have "unat b + 3 < unat a \<or> unat a + 3 < unat b" by linarith
  then show ?thesis
    using aligned4_cells [OF assms(2)] by (intro load32_cong store32_other [OF assms(1)]) auto
qed

text \<open>Which page a byte belongs to.\<close>

lemma pages_offset:
  assumes "pg_ofs p = 0" and "unat p + 4096 * n \<le> 2 ^ 32"
  shows "unat (a - p) < 4096 * n \<longleftrightarrow> unat (pg_no p) \<le> unat (pg_no a) \<and> unat (pg_no a) < unat (pg_no p) + n"
proof -
  obtain k where k: "unat p = 4096 * k" using assms(1) unfolding pg_ofs_zero_iff by (elim dvdE)
  define x where "x = unat a"
  have "unat (a - p) = (if unat p \<le> unat a then unat a - unat p else unat a + 2 ^ 32 - unat p)"
    by (simp add: unat_sub_if_size word_size)
  then have "unat (a - p) = (if 4096 * k \<le> x then x - 4096 * k else x + 2 ^ 32 - 4096 * k)"
    unfolding k x_def .
  moreover have x: "x = 4096 * (x div 4096) + x mod 4096" "x mod 4096 < 4096" by simp_all
  then have "k \<le> x div 4096 \<and> x div 4096 < k + n \<longleftrightarrow> 4096 * k \<le> x \<and> x < 4096 * k + 4096 * n" by linarith
  ultimately have "unat (a - p) < 4096 * n \<longleftrightarrow> k \<le> x div 4096 \<and> x div 4096 < k + n"
    using assms(2) unfolding k by auto
  then show ?thesis unfolding unat_pg_no k x_def by simp
qed

lemma page_offset:
  assumes "pg_ofs p = 0"
  shows "unat (a - p) < 4096 \<longleftrightarrow> pg_no a = pg_no p"
proof -
  obtain k where k: "unat p = 4096 * k" using assms unfolding pg_ofs_zero_iff by (elim dvdE)
  have "unat p < 2 ^ 32" using unsigned_less [of p] by simp
  then have "unat p + 4096 * 1 \<le> 2 ^ 32" using k by simp
  from pages_offset [OF assms this, of a] show ?thesis by (auto simp: word_unat_eq_iff)
qed

section \<open>Properties of entries\<close>

text \<open>C14: A page table entry built for a page gives the same page back, is present, is usable by user code,
  is writable exactly as asked, and starts neither accessed nor dirty.\<close>

theorem pte_roundtrip:
  assumes "pte_create_user page writable = Some e"
  shows "pte_get_page e = Some page \<and> e AND PTE_P \<noteq> 0 \<and> e AND PTE_U \<noteq> 0 \<and>
         (e AND PTE_W \<noteq> 0) = writable \<and> e AND PTE_A = 0 \<and> e AND PTE_D = 0"
  using pte_create_user_get [OF assms] pte_test [of e] by auto

theorem pte_roundtrip_witness:
  "\<exists>e. pte_create_user 0xc0123000 True = Some e \<and> pte_get_page e = Some 0xc0123000"
proof -
  have "pg_ofs 0xc0123000 = 0" "is_kernel_vaddr 0xc0123000"
    by (simp_all add: pg_ofs_def PGMASK_def is_kernel_vaddr_def PHYS_BASE_def)
  from pte_create_user_defined [OF this, of True] pte_roundtrip show ?thesis by blast
qed

end
