(* ===== verification/Palloc.thy ===== *)
theory Palloc
  imports Slots Vaddr "HOL-Library.Signed_Division"
begin

text \<open>
  \<open>threads/palloc.c\<close>: the page allocator with its kernel and user pools. The state holds the
  two pools and the byte memory. A pool's bitmap is kept as a value; its storage in the first
  pages of the pool is outside the range the pool hands out. The pool lock makes the search and
  update of the bitmap one atomic step. \<open>None\<close> is a kernel panic; a null pointer is address 0.
\<close>

section \<open>State and operations\<close>

record pool =
  used_map :: bitmap
  base :: vaddr

record pmem =
  kernel_pool :: pool
  user_pool :: pool
  mem :: memory

type_synonym palloc_flags = "32 word"

definition PAL_ASSERT :: palloc_flags where "PAL_ASSERT = 1"
definition PAL_ZERO :: palloc_flags where "PAL_ZERO = 2"
definition PAL_USER :: palloc_flags where "PAL_USER = 4"

definition init_pool :: "memory \<Rightarrow> vaddr \<Rightarrow> nat \<Rightarrow> pool option" where
  "init_pool m start page_cnt =
     (let bm_pages = wrap32 (bitmap_buf_size page_cnt + PGSIZE - 1) div PGSIZE
      in if bm_pages > page_cnt then None
         else do {
           let page_cnt = page_cnt - bm_pages;
           b \<leftarrow> bitmap_create_in_buf page_cnt
                 (map (\<lambda>i. load32 m (start + 8 + 4 * of_nat i)) [0..<elem_cnt page_cnt]) (wrap32 (bm_pages * PGSIZE));
           Some \<lparr>used_map = b, base = start + of_nat (bm_pages * PGSIZE)\<rparr> })"

text \<open>\<open>free_end - free_start\<close> is a signed pointer difference, divided as C divides.\<close>

definition palloc_init :: "memory \<Rightarrow> nat \<Rightarrow> nat \<Rightarrow> pmem option" where
  "palloc_init m init_ram_pages user_page_limit = do {
     free_start \<leftarrow> ptov (1024 * 1024);
     free_end \<leftarrow> ptov (of_nat (init_ram_pages * PGSIZE));
     let free_pages = unat (word_of_int (sint (free_end - free_start) sdiv 4096) :: 32 word);
     let user_pages = (if free_pages div 2 > user_page_limit then user_page_limit else free_pages div 2);
     let kernel_pages = free_pages - user_pages;
     k \<leftarrow> init_pool m free_start kernel_pages;
     u \<leftarrow> init_pool m (free_start + of_nat (kernel_pages * PGSIZE)) user_pages;
     Some \<lparr>kernel_pool = k, user_pool = u, mem = m\<rparr> }"

definition page_from_pool :: "pool \<Rightarrow> vaddr \<Rightarrow> bool" where
  "page_from_pool p page =
     (let page_no = unat (pg_no page);
          start_page = unat (pg_no (base p));
          end_page = wrap32 (start_page + bitmap_size (used_map p))
      in page_no \<ge> start_page \<and> page_no < end_page)"

definition get_pool :: "bool \<Rightarrow> pmem \<Rightarrow> pool" where
  "get_pool user s = (if user then user_pool s else kernel_pool s)"

definition put_map :: "bool \<Rightarrow> bitmap \<Rightarrow> pmem \<Rightarrow> pmem" where
  "put_map user b s =
     (if user then s\<lparr>user_pool := (user_pool s)\<lparr>used_map := b\<rparr>\<rparr>
      else s\<lparr>kernel_pool := (kernel_pool s)\<lparr>used_map := b\<rparr>\<rparr>)"

definition palloc_get_multiple :: "pmem \<Rightarrow> palloc_flags \<Rightarrow> nat \<Rightarrow> (vaddr \<times> pmem) option" where
  "palloc_get_multiple s flags page_cnt =
     (let user = (flags AND PAL_USER \<noteq> 0); p = get_pool user s
      in if page_cnt = 0 then Some (0, s)
         else do {
           (page_idx, b) \<leftarrow> bitmap_scan_and_flip (used_map p) 0 page_cnt False;
           let s = put_map user b s;
           let pages = (if page_idx \<noteq> BITMAP_ERROR then base p + of_nat (PGSIZE * page_idx) else 0);
           if pages \<noteq> 0 then
             Some (pages,
               if flags AND PAL_ZERO \<noteq> 0 then s\<lparr>mem := mem_set (mem s) pages 0 (wrap32 (PGSIZE * page_cnt))\<rparr> else s)
           else if flags AND PAL_ASSERT \<noteq> 0 then None
           else Some (pages, s) })"

definition palloc_get_page :: "pmem \<Rightarrow> palloc_flags \<Rightarrow> (vaddr \<times> pmem) option" where
  "palloc_get_page s flags = palloc_get_multiple s flags 1"

definition palloc_free_multiple :: "pmem \<Rightarrow> vaddr \<Rightarrow> nat \<Rightarrow> pmem option" where
  "palloc_free_multiple s pages page_cnt = do {
     c_assert (pg_ofs pages = 0);
     if pages = 0 \<or> page_cnt = 0 then Some s
     else do {
       user \<leftarrow> (if page_from_pool (kernel_pool s) pages then Some False
               else if page_from_pool (user_pool s) pages then Some True else None);
       let page_idx = unat (pg_no pages - pg_no (base (get_pool user s)));
       let s = s\<lparr>mem := mem_set (mem s) pages 0xcc (wrap32 (PGSIZE * page_cnt))\<rparr>;
       all \<leftarrow> bitmap_all (used_map (get_pool user s)) page_idx page_cnt;
       c_assert all;
       b \<leftarrow> bitmap_set_multiple (used_map (get_pool user s)) page_idx page_cnt False;
       Some (put_map user b s) } }"

definition palloc_free_page :: "pmem \<Rightarrow> vaddr \<Rightarrow> pmem option" where
  "palloc_free_page s page = palloc_free_multiple s page 1"

section \<open>Invariant\<close>

definition pool_ok :: "pool \<Rightarrow> bool" where
  "pool_ok p \<longleftrightarrow>
     bm_wf (used_map p) \<and> pg_ofs (base p) = 0 \<and> base p \<ge> PHYS_BASE \<and>
     unat (base p) + 4096 * bit_cnt (used_map p) \<le> 2 ^ 32"

definition pool_first :: "pool \<Rightarrow> nat" where
  "pool_first p = unat (pg_no (base p))"

definition pool_pages :: "pool \<Rightarrow> nat set" where
  "pool_pages p = {pool_first p..<pool_first p + bit_cnt (used_map p)}"

definition pool_used :: "pool \<Rightarrow> nat set" where
  "pool_used p = (\<lambda>i. pool_first p + i) ` bm_used (used_map p)"

definition palloc_ok :: "pmem \<Rightarrow> bool" where
  "palloc_ok s \<longleftrightarrow>
     pool_ok (kernel_pool s) \<and> pool_ok (user_pool s) \<and>
     pool_pages (kernel_pool s) \<inter> pool_pages (user_pool s) = {}"

lemma put_map_simps [simp]:
  "used_map (get_pool u (put_map u b s)) = b"
  "base (get_pool v (put_map u b s)) = base (get_pool v s)"
  "v \<noteq> u \<Longrightarrow> get_pool v (put_map u b s) = get_pool v s"
  "mem (put_map u b s) = mem s"
  by (auto simp: get_pool_def put_map_def)

lemma get_pool_mem [simp]: "get_pool u (s\<lparr>mem := m\<rparr>) = get_pool u s"
  by (simp add: get_pool_def)

lemma palloc_ok_get: "palloc_ok s \<Longrightarrow> pool_ok (get_pool u s)"
  by (simp add: palloc_ok_def get_pool_def)

lemma palloc_ok_mem [simp]: "palloc_ok (s\<lparr>mem := m\<rparr>) = palloc_ok s"
  by (simp add: palloc_ok_def)

lemma palloc_ok_put:
  assumes "palloc_ok s" and "bm_wf b" and "bit_cnt b = bit_cnt (used_map (get_pool u s))"
  shows "palloc_ok (put_map u b s)"
  using assms by (auto simp: palloc_ok_def put_map_def get_pool_def pool_ok_def pool_pages_def pool_first_def)

text \<open>Page numbers and addresses inside a pool.\<close>

lemma pool_addr:
  assumes "pool_ok p" and "i < bit_cnt (used_map p)"
  shows "unat (base p + of_nat (PGSIZE * i)) = unat (base p) + 4096 * i"
    and "pg_ofs (base p + of_nat (PGSIZE * i)) = 0"
    and "unat (pg_no (base p + of_nat (PGSIZE * i))) = pool_first p + i"
    and "base p + of_nat (PGSIZE * i) \<ge> PHYS_BASE"
proof -
  have lt: "unat (base p) + 4096 * i < 2 ^ 32" using assms by (simp add: pool_ok_def)
  then have "unat (of_nat (PGSIZE * i) :: vaddr) = 4096 * i"
    unfolding PGSIZE_def unat_of_nat by simp
  then show a: "unat (base p + of_nat (PGSIZE * i)) = unat (base p) + 4096 * i"
    using lt by (subst unat_add_lem [THEN iffD1]) simp_all
  have al: "4096 dvd unat (base p)" using assms(1) by (simp add: pool_ok_def pg_ofs_zero_iff)
  then show "pg_ofs (base p + of_nat (PGSIZE * i)) = 0" unfolding pg_ofs_zero_iff a by simp
  show "unat (pg_no (base p + of_nat (PGSIZE * i))) = pool_first p + i"
    unfolding unat_pg_no a pool_first_def using al by (simp add: div_plus_div_distrib_dvd_left)
  show "base p + of_nat (PGSIZE * i) \<ge> PHYS_BASE"
    using assms(1) unfolding word_le_nat_alt a pool_ok_def by simp
qed

lemma page_from_pool_iff: "pool_ok p \<Longrightarrow> page_from_pool p a \<longleftrightarrow> unat (pg_no a) \<in> pool_pages p"
proof -
  assume p: "pool_ok p"
  then have "4096 * pool_first p = unat (base p)"
    by (simp add: pool_ok_def pool_first_def unat_pg_no pg_ofs_zero_iff)
  then have "4096 * (pool_first p + bit_cnt (used_map p)) \<le> 2 ^ 32" using p by (simp add: pool_ok_def)
  then have "pool_first p + bit_cnt (used_map p) < 2 ^ 32" by simp
  then show ?thesis
    by (auto simp: page_from_pool_def Let_def bitmap_size_def pool_pages_def pool_first_def)
qed

lemma pool_of_page:
  assumes "palloc_ok s" and "unat (pg_no a) \<in> pool_pages (get_pool u s)"
  shows "(if page_from_pool (kernel_pool s) a then Some False
          else if page_from_pool (user_pool s) a then Some True else None) = Some u"
  using assms by (auto simp: palloc_ok_def get_pool_def page_from_pool_iff split: if_splits)

lemma pool_used_pages: "pool_used p \<subseteq> pool_pages p"
  by (auto simp: pool_used_def pool_pages_def bm_used_def)

text \<open>Ranges of pages, seen as ranges of bits and as ranges of addresses.\<close>

lemma pool_range:
  "{pool_first p + i..<pool_first p + i + n} = (\<lambda>k. pool_first p + k) ` {i..<i + n}"
  by (simp add: image_add_atLeastLessThan ac_simps)

lemma pool_range_used:
  "{pool_first p + i..<pool_first p + i + n} \<inter> pool_used p = {} \<longleftrightarrow> {i..<i + n} \<inter> bm_used (used_map p) = {}"
  using image_Int [of "(+) (pool_first p)" "{i..<i + n}" "bm_used (used_map p)", symmetric]
  unfolding pool_range pool_used_def by simp

lemma pool_range_subset:
  "{pool_first p + i..<pool_first p + i + n} \<subseteq> pool_used p \<longleftrightarrow> {i..<i + n} \<subseteq> bm_used (used_map p)"
  using inj_image_subset_iff [of "(+) (pool_first p)" "{i..<i + n}" "bm_used (used_map p)"]
  unfolding pool_range pool_used_def by simp

lemma range_in_pool:
  assumes "0 < n" and "{j..<j + n} \<subseteq> pool_pages p"
  obtains i where "j = pool_first p + i" and "i + n \<le> bit_cnt (used_map p)"
proof -
  have "j \<in> {j..<j + n}" "j + n - 1 \<in> {j..<j + n}" using assms(1) by auto
  then have "j \<in> pool_pages p" "j + n - 1 \<in> pool_pages p" using assms(2) by blast+
  then have "j = pool_first p + (j - pool_first p)" "(j - pool_first p) + n \<le> bit_cnt (used_map p)"
    using assms(1) by (auto simp: pool_pages_def)
  then show ?thesis by (rule that)
qed

text \<open>
  The outcome of an allocation: null with nothing changed and no room for the group, or a page
  aligned address of pages that were free, are now used, and are zero if \<open>PAL_ZERO\<close> is set.
\<close>

definition page_range :: "vaddr \<Rightarrow> nat \<Rightarrow> nat set" where
  "page_range a n = {unat (pg_no a)..<unat (pg_no a) + n}"

lemma mem_set_pages:
  assumes "pg_ofs p = 0" and "unat p + 4096 * n \<le> 2 ^ 32" and "0 < unat p"
  shows "mem_set m p v (wrap32 (PGSIZE * n)) a = (if unat (pg_no a) \<in> page_range p n then v else m a)"
proof -
  have "4096 * n < 2 ^ 32" using assms(2,3) by linarith
  then show ?thesis
    using pages_offset [OF assms(1,2), of a] by (simp add: mem_set_def page_range_def PGSIZE_def)
qed

text \<open>What \<open>palloc_get_multiple\<close> returns, in terms of the chosen pool.\<close>

lemma palloc_get_cases:
  assumes ok: "palloc_ok s" and n: "0 < n" and pl: "u = (flags AND PAL_USER \<noteq> 0)"
  defines "p \<equiv> get_pool u s"
  shows "(\<exists>i b. i + n \<le> bit_cnt (used_map p) \<and> {i..<i + n} \<inter> bm_used (used_map p) = {} \<and> bm_wf b \<and>
            bit_cnt b = bit_cnt (used_map p) \<and> bm_used b = bm_used (used_map p) \<union> {i..<i + n} \<and>
            palloc_get_multiple s flags n =
              Some (base p + of_nat (PGSIZE * i),
                (if flags AND PAL_ZERO \<noteq> 0
                 then (put_map u b s)\<lparr>mem := mem_set (mem s) (base p + of_nat (PGSIZE * i)) 0 (wrap32 (PGSIZE * n))\<rparr>
                 else put_map u b s))) \<or>
         (\<forall>i. i + n \<le> bit_cnt (used_map p) \<longrightarrow> {i..<i + n} \<inter> bm_used (used_map p) \<noteq> {}) \<and>
         palloc_get_multiple s flags n = (if flags AND PAL_ASSERT \<noteq> 0 then None else Some (0, s))"
proof -
  have p: "pool_ok p" using palloc_ok_get [OF ok] by (simp add: p_def)
  then have wf: "bm_wf (used_map p)" by (simp add: pool_ok_def)
  obtain r b where r: "bitmap_scan_and_flip (used_map p) 0 n False = Some (r, b)" "bm_wf b"
    "bit_cnt b = bit_cnt (used_map p)"
    "case (if r = BITMAP_ERROR then None else Some r) of
       None \<Rightarrow> b = used_map p \<and>
         (\<forall>i. i + n \<le> bit_cnt (used_map p) \<longrightarrow> {i..<i + n} \<inter> bm_used (used_map p) \<noteq> {})
     | Some i \<Rightarrow> i + n \<le> bit_cnt (used_map p) \<and> {i..<i + n} \<inter> bm_used (used_map p) = {} \<and>
         bm_used b = bm_used (used_map p) \<union> {i..<i + n}"
    using bm_get_cases [OF wf, of n] by (auto simp: bm_get_def split: Option.bind_splits)
  show ?thesis
  proof (cases "r = BITMAP_ERROR")
    case True
    have "put_map u (used_map (get_pool u s)) s = s" by (simp add: put_map_def get_pool_def)
    then show ?thesis
      using r True n pl unfolding p_def by (simp add: palloc_get_multiple_def Let_def)
  next
    case False
    then have "r < bit_cnt (used_map p)" using r(4) n by simp
    then have "base p + of_nat (PGSIZE * r) \<ge> PHYS_BASE" by (rule pool_addr(4) [OF p])
    then have "base p + of_nat (PGSIZE * r) \<noteq> 0" by (auto simp: PHYS_BASE_def)
    then have "palloc_get_multiple s flags n =
        Some (base p + of_nat (PGSIZE * r),
          (if flags AND PAL_ZERO \<noteq> 0
           then (put_map u b s)\<lparr>mem := mem_set (mem s) (base p + of_nat (PGSIZE * r)) 0 (wrap32 (PGSIZE * n))\<rparr>
           else put_map u b s))"
      using r(1) False n pl unfolding p_def by (simp add: palloc_get_multiple_def Let_def del: of_nat_mult)
    with r False show ?thesis by (intro disjI1 exI [of _ r] exI [of _ b]) simp
  qed
qed

lemma pool_first_put [simp]: "pool_first (get_pool v (put_map u b s)) = pool_first (get_pool v s)"
  by (simp add: pool_first_def)

lemma palloc_get_ok:
  assumes ok: "palloc_ok s" and n: "0 < n" and pl: "u = (flags AND PAL_USER \<noteq> 0)"
    and na: "flags AND PAL_ASSERT = 0"
  shows "\<exists>a s'. palloc_get_multiple s flags n = Some (a, s') \<and> palloc_ok s' \<and>
           get_pool (\<not> u) s' = get_pool (\<not> u) s \<and> pool_pages (get_pool u s') = pool_pages (get_pool u s) \<and>
           (if a = 0 then s' = s \<and>
              (\<forall>i. {i..<i + n} \<subseteq> pool_pages (get_pool u s) \<longrightarrow> {i..<i + n} \<inter> pool_used (get_pool u s) \<noteq> {})
            else pg_ofs a = 0 \<and> page_range a n \<subseteq> pool_pages (get_pool u s) \<and>
              page_range a n \<inter> pool_used (get_pool u s) = {} \<and>
              pool_used (get_pool u s') = pool_used (get_pool u s) \<union> page_range a n \<and>
              (\<forall>x. mem s' x = (if flags AND PAL_ZERO \<noteq> 0 \<and> unat (pg_no x) \<in> page_range a n then 0 else mem s x)))"
proof -
  let ?p = "get_pool u s"
  have p: "pool_ok ?p" using palloc_ok_get [OF ok] .
  from palloc_get_cases [OF ok n pl] show ?thesis
  proof (elim disjE exE conjE)
    fix i b
    assume i: "i + n \<le> bit_cnt (used_map ?p)" and free: "{i..<i + n} \<inter> bm_used (used_map ?p) = {}"
      and b: "bm_wf b" "bit_cnt b = bit_cnt (used_map ?p)" "bm_used b = bm_used (used_map ?p) \<union> {i..<i + n}"
      and r: "palloc_get_multiple s flags n =
        Some (base ?p + of_nat (PGSIZE * i),
          (if flags AND PAL_ZERO \<noteq> 0
           then (put_map u b s)\<lparr>mem := mem_set (mem s) (base ?p + of_nat (PGSIZE * i)) 0 (wrap32 (PGSIZE * n))\<rparr>
           else put_map u b s))"
    define a where "a = base ?p + of_nat (PGSIZE * i)"
    have "i < bit_cnt (used_map ?p)" using i n by simp
    note addr = pool_addr [OF p this, folded a_def]
    have range: "page_range a n = {pool_first ?p + i..<pool_first ?p + i + n}"
      by (simp add: page_range_def addr(3))
    have "PHYS_BASE \<le> a" by (rule addr(4))
    then have nz: "a \<noteq> 0" by (auto simp: PHYS_BASE_def)
    have "unat a + 4096 * n \<le> 2 ^ 32" using p i unfolding pool_ok_def addr(1) by simp
    moreover have "0 < unat a" using nz unat_gt_0 by blast
    ultimately have ms: "mem_set (mem s) a 0 (wrap32 (PGSIZE * n)) x =
        (if unat (pg_no x) \<in> page_range a n then 0 else mem s x)" for x
      by (intro mem_set_pages [OF addr(2)])
    have used: "pool_used (get_pool u (put_map u b s)) = pool_used ?p \<union> page_range a n"
      unfolding range pool_range by (simp add: pool_used_def b(3) image_Un)
    have pages: "pool_pages (get_pool u (put_map u b s)) = pool_pages ?p" by (simp add: pool_pages_def b(2))
    have "page_range a n \<subseteq> pool_pages ?p" using i unfolding range pool_pages_def by auto
    moreover have "page_range a n \<inter> pool_used ?p = {}" using free unfolding range pool_range_used .
    ultimately show ?thesis
      using r nz used pages addr(2) palloc_ok_put [OF ok b(1,2)] ms unfolding a_def [symmetric] by simp
  next
    assume none: "\<forall>i. i + n \<le> bit_cnt (used_map ?p) \<longrightarrow> {i..<i + n} \<inter> bm_used (used_map ?p) \<noteq> {}"
      and r: "palloc_get_multiple s flags n = (if flags AND PAL_ASSERT \<noteq> 0 then None else Some (0, s))"
    have "{i..<i + n} \<inter> pool_used ?p \<noteq> {}" if i: "{i..<i + n} \<subseteq> pool_pages ?p" for i
    proof -
      obtain j where "i = pool_first ?p + j" "j + n \<le> bit_cnt (used_map ?p)" using range_in_pool [OF n i] .
      with none pool_range_used [of ?p j n] show ?thesis by auto
    qed
    then show ?thesis using r na ok by simp
  qed
qed

lemma palloc_free_ok:
  assumes ok: "palloc_ok s" and n: "0 < n" and al: "pg_ofs a = 0"
    and used: "page_range a n \<subseteq> pool_used (get_pool u s)"
  shows "\<exists>s'. palloc_free_multiple s a n = Some s' \<and> palloc_ok s' \<and>
           get_pool (\<not> u) s' = get_pool (\<not> u) s \<and> pool_pages (get_pool u s') = pool_pages (get_pool u s) \<and>
           pool_used (get_pool u s') = pool_used (get_pool u s) - page_range a n \<and>
           (\<forall>x. unat (pg_no x) \<notin> page_range a n \<longrightarrow> mem s' x = mem s x)"
proof -
  let ?p = "get_pool u s"
  have p: "pool_ok ?p" using palloc_ok_get [OF ok] .
  obtain i where i: "unat (pg_no a) = pool_first ?p + i" "i + n \<le> bit_cnt (used_map ?p)"
    using range_in_pool [OF n] used pool_used_pages [of ?p] unfolding page_range_def by (metis subset_trans)
  then have mem: "unat (pg_no a) \<in> pool_pages ?p" using n by (simp add: pool_pages_def)
  have idx: "unat (pg_no a - pg_no (base ?p)) = i"
    using i(1) by (simp add: pool_first_def unat_sub word_le_nat_alt)
  have "base ?p \<ge> PHYS_BASE" "4096 * pool_first ?p = unat (base ?p)"
    using p by (auto simp: pool_ok_def pool_first_def unat_pg_no pg_ofs_zero_iff)
  then have "unat (pg_no a) \<ge> 786432" using i(1) by (simp add: PHYS_BASE_def word_le_nat_alt)
  then have nz: "a \<noteq> 0" by (auto simp: unat_pg_no)
  have range: "page_range a n = {pool_first ?p + i..<pool_first ?p + i + n}" by (simp add: page_range_def i(1))
  have "{i..<i + n} \<subseteq> bm_used (used_map ?p)"
    using used unfolding range pool_range_subset .
  then obtain b where b: "bm_put (used_map ?p) i n = Some b" "bm_wf b" "bit_cnt b = bit_cnt (used_map ?p)"
    "bm_used b = bm_used (used_map ?p) - {i..<i + n}"
    using bm_put_used [of "used_map ?p" i n] p i(2) by (auto simp: pool_ok_def)
  then have steps: "bitmap_all (used_map ?p) i n = Some True" "bitmap_set_multiple (used_map ?p) i n False = Some b"
    by (auto simp: bm_put_def split: Option.bind_splits)
  let ?m = "mem_set (mem s) a 0xcc (wrap32 (PGSIZE * n))"
  have "palloc_free_multiple s a n = Some (put_map u b (s\<lparr>mem := ?m\<rparr>))"
    using al nz n pool_of_page [OF ok mem] idx steps by (simp add: palloc_free_multiple_def Let_def)
  moreover have "pool_used (get_pool u (put_map u b (s\<lparr>mem := ?m\<rparr>))) = pool_used ?p - page_range a n"
    unfolding range pool_range by (simp add: pool_used_def b(4) image_set_diff)
  moreover have "unat a + 4096 * n \<le> 2 ^ 32"
  proof -
    have "unat a = 4096 * (pool_first ?p + i)" using i(1) al pg_split [of a] by simp
    then show ?thesis using p i(2) \<open>4096 * pool_first ?p = unat (base ?p)\<close> by (simp add: pool_ok_def)
  qed
  then have "?m x = (if unat (pg_no x) \<in> page_range a n then 0xcc else mem s x)" for x
    using nz by (intro mem_set_pages [OF al]) (simp_all add: unat_gt_0)
  moreover have "palloc_ok (put_map u b (s\<lparr>mem := ?m\<rparr>))"
    using palloc_ok_put [of "s\<lparr>mem := ?m\<rparr>" b u] ok b(2,3) by simp
  ultimately show ?thesis using b(3) by (simp add: pool_pages_def)
qed

text \<open>Freeing pages that are not all in use is caught: the assertion on the bitmap fails.\<close>

lemma palloc_free_not_used:
  assumes ok: "palloc_ok s" and n: "0 < n" and nz: "a \<noteq> 0"
    and pages: "page_range a n \<subseteq> pool_pages (get_pool u s)"
    and not_used: "\<not> page_range a n \<subseteq> pool_used (get_pool u s)"
  shows "palloc_free_multiple s a n = None"
proof (cases "pg_ofs a = 0")
  case True
  let ?p = "get_pool u s"
  have p: "pool_ok ?p" using palloc_ok_get [OF ok] .
  obtain i where i: "unat (pg_no a) = pool_first ?p + i" "i + n \<le> bit_cnt (used_map ?p)"
    using range_in_pool [OF n] pages unfolding page_range_def by metis
  then have mem: "unat (pg_no a) \<in> pool_pages ?p" using n by (simp add: pool_pages_def)
  have idx: "unat (pg_no a - pg_no (base ?p)) = i"
    using i(1) by (simp add: pool_first_def unat_sub word_le_nat_alt)
  have "\<not> {i..<i + n} \<subseteq> bm_used (used_map ?p)"
    using not_used unfolding page_range_def i(1) pool_range_subset .
  then have "bm_put (used_map ?p) i n = None" using bm_put_free [OF _ i(2)] p by (simp add: pool_ok_def)
  moreover have "bitmap_set_multiple (used_map ?p) i n False \<noteq> None"
    using bitmap_set_multiple_abs [OF _ i(2)] p by (fastforce simp: pool_ok_def)
  ultimately have "bitmap_all (used_map ?p) i n \<noteq> Some True"
    by (auto simp: bm_put_def)
  then show ?thesis
    using nz n pool_of_page [OF ok mem] idx
    by (auto simp: palloc_free_multiple_def Let_def split: Option.bind_splits)
qed (simp add: palloc_free_multiple_def)

section \<open>The page allocator as an allocator of page numbers\<close>

definition page_get :: "palloc_flags \<Rightarrow> pmem \<Rightarrow> nat \<Rightarrow> (nat option \<times> pmem) option" where
  "page_get flags s n =
     map_option (\<lambda>(a, s'). (if a = 0 then None else Some (unat (pg_no a)), s'))
       (palloc_get_multiple s (flags AND NOT PAL_ASSERT) n)"

definition page_put :: "pmem \<Rightarrow> nat \<Rightarrow> nat \<Rightarrow> pmem option" where
  "page_put s i n = palloc_free_multiple s (of_nat (4096 * i)) n"

lemma pal_flags:
  "(flags AND NOT PAL_ASSERT) AND PAL_ASSERT = 0"
  "(flags AND NOT PAL_ASSERT) AND PAL_USER = flags AND PAL_USER"
proof -
  show "(flags AND NOT PAL_ASSERT) AND PAL_ASSERT = 0"
    by (rule bit_word_eqI) (auto simp: bit_simps)
  show "(flags AND NOT PAL_ASSERT) AND PAL_USER = flags AND PAL_USER"
  proof (rule bit_word_eqI)
    fix n
    show "bit ((flags AND NOT PAL_ASSERT) AND PAL_USER) n = bit (flags AND PAL_USER) n"
      by (cases n) (auto simp: PAL_ASSERT_def PAL_USER_def bit_simps dest: bit_imp_le_length)
  qed
qed

lemma page_number_addr:
  assumes "pool_ok p" and "i \<in> pool_pages p"
  shows "unat (of_nat (4096 * i) :: vaddr) = 4096 * i" and "unat (pg_no (of_nat (4096 * i))) = i"
    and "pg_ofs (of_nat (4096 * i)) = 0"
proof -
  have "4096 * pool_first p = unat (base p)"
    using assms(1) by (simp add: pool_ok_def pool_first_def unat_pg_no pg_ofs_zero_iff)
  then have "4096 * i < 2 ^ 32" using assms by (simp add: pool_ok_def pool_pages_def)
  then show u: "unat (of_nat (4096 * i) :: vaddr) = 4096 * i" unfolding unat_of_nat by simp
  show "unat (pg_no (of_nat (4096 * i))) = i" unfolding unat_pg_no u by simp
  show "pg_ofs (of_nat (4096 * i)) = 0" unfolding pg_ofs_zero_iff u by simp
qed

lemma page_get_ok:
  assumes "palloc_ok s" and "0 < n" and u: "u = (flags AND PAL_USER \<noteq> 0)"
  shows "\<exists>r s'. page_get flags s n = Some (r, s') \<and> palloc_ok s' \<and>
           pool_pages (get_pool u s') = pool_pages (get_pool u s) \<and>
           (case r of
              None \<Rightarrow> s' = s \<and> (\<forall>i. {i..<i + n} \<subseteq> pool_pages (get_pool u s) \<longrightarrow> {i..<i + n} \<inter> pool_used (get_pool u s) \<noteq> {})
            | Some i \<Rightarrow> {i..<i + n} \<subseteq> pool_pages (get_pool u s) \<and> {i..<i + n} \<inter> pool_used (get_pool u s) = {} \<and>
                pool_used (get_pool u s') = pool_used (get_pool u s) \<union> {i..<i + n})"
proof -
  have u': "u = ((flags AND NOT PAL_ASSERT) AND PAL_USER \<noteq> 0)" using u pal_flags(2) by simp
  obtain a s' where r: "palloc_get_multiple s (flags AND NOT PAL_ASSERT) n = Some (a, s')" "palloc_ok s'"
    "pool_pages (get_pool u s') = pool_pages (get_pool u s)"
    "if a = 0 then s' = s \<and>
       (\<forall>i. {i..<i + n} \<subseteq> pool_pages (get_pool u s) \<longrightarrow> {i..<i + n} \<inter> pool_used (get_pool u s) \<noteq> {})
     else page_range a n \<subseteq> pool_pages (get_pool u s) \<and> page_range a n \<inter> pool_used (get_pool u s) = {} \<and>
       pool_used (get_pool u s') = pool_used (get_pool u s) \<union> page_range a n"
    using palloc_get_ok [OF assms(1,2) u' pal_flags(1)] by (metis (no_types, lifting))
  then show ?thesis by (cases "a = 0") (simp_all add: page_get_def page_range_def)
qed

interpretation palloc_slots: slot_alloc palloc_ok
    "\<lambda>s. pool_pages (get_pool (flags AND PAL_USER \<noteq> 0) s)" "\<lambda>s. pool_used (get_pool (flags AND PAL_USER \<noteq> 0) s)"
    "page_get flags" page_put for flags
proof
  fix s and n :: nat
  assume "palloc_ok s" "0 < n"
  then show "\<exists>r s'. page_get flags s n = Some (r, s') \<and> palloc_ok s' \<and>
      pool_pages (get_pool (flags AND PAL_USER \<noteq> 0) s') = pool_pages (get_pool (flags AND PAL_USER \<noteq> 0) s)"
    using page_get_ok [OF _ _ refl, of s n flags] by blast
next
  fix s n i s'
  assume "palloc_ok s" "0 < n" "page_get flags s n = Some (Some i, s')"
  then show "{i..<i + n} \<subseteq> pool_pages (get_pool (flags AND PAL_USER \<noteq> 0) s) \<and>
      {i..<i + n} \<inter> pool_used (get_pool (flags AND PAL_USER \<noteq> 0) s) = {} \<and>
      pool_used (get_pool (flags AND PAL_USER \<noteq> 0) s') = pool_used (get_pool (flags AND PAL_USER \<noteq> 0) s) \<union> {i..<i + n}"
    using page_get_ok [OF _ _ refl, of s n flags] by auto
next
  fix s n s'
  assume "palloc_ok s" "0 < n" "page_get flags s n = Some (None, s')"
  then show "pool_used (get_pool (flags AND PAL_USER \<noteq> 0) s') = pool_used (get_pool (flags AND PAL_USER \<noteq> 0) s) \<and>
      (\<forall>i. {i..<i + n} \<subseteq> pool_pages (get_pool (flags AND PAL_USER \<noteq> 0) s) \<longrightarrow>
           {i..<i + n} \<inter> pool_used (get_pool (flags AND PAL_USER \<noteq> 0) s) \<noteq> {})"
    using page_get_ok [OF _ _ refl, of s n flags] by auto
next
  fix s
  show "pool_used (get_pool (flags AND PAL_USER \<noteq> 0) s) \<subseteq> pool_pages (get_pool (flags AND PAL_USER \<noteq> 0) s)"
    by (rule pool_used_pages)
next
  fix s n i
  assume a: "palloc_ok s" "0 < n" "{i..<i + n} \<subseteq> pool_used (get_pool (flags AND PAL_USER \<noteq> 0) s)"
  let ?u = "flags AND PAL_USER \<noteq> 0"
  have "i \<in> {i..<i + n}" using a(2) by simp
  then have "i \<in> pool_pages (get_pool ?u s)" using a(3) pool_used_pages [of "get_pool ?u s"] by blast
  note addr = page_number_addr [OF palloc_ok_get [OF a(1)] this]
  then have "page_range (of_nat (4096 * i)) n = {i..<i + n}" by (simp only: page_range_def)
  with palloc_free_ok [OF a(1,2) addr(3), of ?u] a(3)
  show "\<exists>s'. page_put s i n = Some s' \<and> palloc_ok s' \<and> pool_pages (get_pool ?u s') = pool_pages (get_pool ?u s) \<and>
      pool_used (get_pool ?u s') = pool_used (get_pool ?u s) - {i..<i + n}"
    unfolding page_put_def by auto
qed

section \<open>Initialisation\<close>

lemma bitmap_buf_size_small: "n \<le> 2 ^ 20 \<Longrightarrow> bitmap_buf_size n = 8 + 4 * ((n + 31) div 32)"
proof -
  assume n: "n \<le> 2 ^ 20"
  then have "(n + 31) div 32 \<le> 2 ^ 16" by simp
  with n show ?thesis by (simp add: bitmap_buf_size_def byte_cnt_def elem_cnt_def ELEM_BITS_def wrap32_def)
qed

text \<open>
  A pool of \<open>n\<close> pages at \<open>start\<close> keeps the bitmap in its first pages and hands out the rest, all free.
\<close>

lemma init_pool_ok:
  assumes al: "pg_ofs start = 0" and kern: "PHYS_BASE \<le> start" and fits: "unat start + 4096 * n < 2 ^ 32"
    and n: "0 < n"
  shows "\<exists>p. init_pool m start n = Some p \<and> pool_ok p \<and> pool_used p = {} \<and>
           pool_pages p \<subseteq> {unat (pg_no start)..<unat (pg_no start) + n}"
proof -
  have n20: "n \<le> 2 ^ 18" using fits kern by (simp add: PHYS_BASE_def word_le_nat_alt)
  define bm where "bm = (8 + 4 * ((n + 31) div 32) + 4095) div 4096"
  have buf: "bitmap_buf_size n = 8 + 4 * ((n + 31) div 32)" using n20 by (intro bitmap_buf_size_small) simp
  have e: "(n + 31) div 32 \<le> 2 ^ 14" using n20 by simp
  have bmeq: "wrap32 (bitmap_buf_size n + PGSIZE - 1) div PGSIZE = bm"
    using buf e by (simp add: bm_def PGSIZE_def)
  have le: "bm \<le> n" using n unfolding bm_def by linarith
  have bm_small: "bm \<le> 17" using e unfolding bm_def by simp
  have enough: "bm * 4096 \<ge> bitmap_buf_size (n - bm)"
  proof -
    have "bitmap_buf_size (n - bm) = 8 + 4 * ((n - bm + 31) div 32)"
      using n20 by (intro bitmap_buf_size_small) simp
    also have "\<dots> \<le> 8 + 4 * ((n + 31) div 32)" by (simp add: div_le_mono)
    also have "\<dots> \<le> bm * 4096" unfolding bm_def by simp
    finally show ?thesis .
  qed
  let ?ws = "map (\<lambda>i. load32 m (start + 8 + 4 * of_nat i)) [0..<elem_cnt (n - bm)]"
  obtain b where b: "bitmap_create_in_buf (n - bm) ?ws (bm * 4096) = Some b" "bm_wf b" "bm_abs b = replicate (n - bm) False"
    using bitmap_create_in_buf_abs [OF _ enough, of ?ws] n20 by force
  have cnt: "bit_cnt b = n - bm" using bm_abs_cnt [OF b(3)] by simp
  have empty: "bm_used b = {}" unfolding bm_used_def b(3) cnt by auto
  let ?p = "\<lparr>used_map = b, base = start + of_nat (bm * PGSIZE)\<rparr>"
  have "init_pool m start n = Some ?p"
    using le b(1) bm_small unfolding init_pool_def Let_def bmeq by (simp add: PGSIZE_def)
  moreover have un: "unat (start + of_nat (bm * PGSIZE)) = unat start + 4096 * bm"
  proof -
    have "unat (of_nat (bm * PGSIZE) :: vaddr) = 4096 * bm"
      using bm_small unfolding PGSIZE_def unat_of_nat by simp
    moreover have "unat start + 4096 * bm < 2 ^ 32" using fits le by linarith
    ultimately show ?thesis by (subst unat_add_lem [THEN iffD1]) simp_all
  qed
  have "pool_ok ?p"
    using b(2) al kern fits le unfolding pool_ok_def pg_ofs_zero_iff word_le_nat_alt
    by (simp add: un cnt del: of_nat_mult)
  moreover have "pool_used ?p = {}" by (simp add: pool_used_def empty)
  moreover have "pool_pages ?p \<subseteq> {unat (pg_no start)..<unat (pg_no start) + n}"
    using le by (auto simp: pool_pages_def pool_first_def unat_pg_no un cnt simp del: of_nat_mult)
  ultimately show ?thesis by blast
qed

lemma ptr_diff_pages:
  assumes "n < 2 ^ 18"
  shows "unat (word_of_int (sint (of_nat (n * 4096) :: vaddr) sdiv 4096) :: vaddr) = n"
proof -
  have u: "uint (of_nat (n * 4096) :: vaddr) = int (n * 4096)"
    unfolding uint_nat unat_of_nat using assms by simp
  have "sint (of_nat (n * 4096) :: vaddr) = int (n * 4096)"
    unfolding sint_uint u using assms by (intro signed_take_bit_int_eq_self) simp_all
  then have "sint (of_nat (n * 4096) :: vaddr) sdiv 4096 = int n"
    by (cases "n = 0") (simp_all add: signed_divide_int_def sgn_mult)
  then show ?thesis using assms by (simp add: unat_of_nat)
qed

text \<open>
  With more than 257 and less than \<open>2 ^ 18\<close> pages of memory (1 GB, what the one to one mapping above
  \<open>PHYS_BASE\<close> can hold) and a positive limit, initialisation succeeds: both pools are well formed,
  empty and disjoint, and lie between 1 MB and the end of memory.
\<close>

lemma palloc_init_ok:
  assumes ram: "258 \<le> init_ram_pages" "init_ram_pages < 2 ^ 18" and limit: "0 < user_page_limit"
  shows "\<exists>s. palloc_init m init_ram_pages user_page_limit = Some s \<and> palloc_ok s \<and>
           (\<forall>u. pool_used (get_pool u s) = {} \<and>
                pool_pages (get_pool u s) \<subseteq> {786688..<786432 + init_ram_pages})"
proof -
  define start where "start = (0xc0100000 :: vaddr)"
  define n where "n = init_ram_pages - 256"
  define up where "up = (if n div 2 > user_page_limit then user_page_limit else n div 2)"
  have n: "init_ram_pages = n + 256" "2 \<le> n" "n + 256 < 2 ^ 18" using ram by (auto simp: n_def)
  have up: "0 < up" "up \<le> n div 2" using limit n by (auto simp: up_def)
  have kp: "0 < n - up" "n - up + up = n" using up n by auto
  have st: "unat start = 3222274048" "pg_ofs start = 0" "PHYS_BASE \<le> start" "unat (pg_no start) = 786688"
    by (simp_all add: start_def pg_ofs_def PGMASK_def PHYS_BASE_def unat_pg_no)
  have pt: "ptov (1024 * 1024) = Some start" by (simp add: ptov_def PHYS_BASE_def start_def)
  have ru: "unat (of_nat (init_ram_pages * PGSIZE) :: vaddr) = init_ram_pages * 4096"
    using ram(2) unfolding PGSIZE_def unat_of_nat by simp
  have pe: "ptov (of_nat (init_ram_pages * PGSIZE)) = Some (of_nat (init_ram_pages * PGSIZE) + PHYS_BASE)"
    using ram(2) ru by (simp add: ptov_def word_less_nat_alt PHYS_BASE_def del: of_nat_mult)
  have diff: "of_nat (init_ram_pages * PGSIZE) + PHYS_BASE - start = of_nat (n * 4096)"
    by (simp add: n(1) PGSIZE_def PHYS_BASE_def start_def algebra_simps)
  define mid where "mid = start + of_nat ((n - up) * PGSIZE)"
  have "unat (of_nat ((n - up) * PGSIZE) :: vaddr) = 4096 * (n - up)"
    using n(3) unfolding PGSIZE_def unat_of_nat by simp
  then have mid: "unat mid = unat start + 4096 * (n - up)"
    unfolding mid_def using n(3) st(1) by (subst unat_add_lem [THEN iffD1]) simp_all
  have f1: "unat start + 4096 * (n - up) < 2 ^ 32" using n(3) st(1) by (simp add: less_imp_diff_less)
  obtain k where k: "init_pool m start (n - up) = Some k" "pool_ok k" "pool_used k = {}"
    "pool_pages k \<subseteq> {786688..<786688 + (n - up)}"
    using init_pool_ok [OF st(2,3) f1 kp(1), of m] unfolding st(4) by blast
  have "pg_ofs mid = 0" "PHYS_BASE \<le> mid" "unat mid + 4096 * up < 2 ^ 32"
    unfolding pg_ofs_zero_iff word_le_nat_alt mid st(1) using n(3) kp by (simp_all add: PHYS_BASE_def)
  then obtain us where us: "init_pool m mid up = Some us" "pool_ok us" "pool_used us = {}"
    "pool_pages us \<subseteq> {unat (pg_no mid)..<unat (pg_no mid) + up}"
    using init_pool_ok [of mid up m] up(1) by blast
  have pm: "unat (pg_no mid) = 786688 + (n - up)" unfolding unat_pg_no mid st(1) by simp
  have "palloc_init m init_ram_pages user_page_limit = Some \<lparr>kernel_pool = k, user_pool = us, mem = m\<rparr>"
    using pt pe k(1) us(1) ptr_diff_pages [of n] n(3)
    unfolding palloc_init_def Let_def mid_def up_def
    by (cases "user_page_limit < n div 2") (simp_all add: diff del: of_nat_mult)
  moreover have "pool_pages k \<inter> pool_pages us = {}" using k(4) us(4) unfolding pm by fastforce
  then have "palloc_ok \<lparr>kernel_pool = k, user_pool = us, mem = m\<rparr>" using k(2) us(2) by (simp add: palloc_ok_def)
  moreover have "pool_pages k \<subseteq> {786688..<786432 + init_ram_pages}"
    by (rule order_trans [OF k(4)]) (use n(1) kp(2) in auto)
  moreover have "pool_pages us \<subseteq> {786688..<786432 + init_ram_pages}"
    by (rule order_trans [OF us(4)]) (use n(1) kp(2) in \<open>auto simp: pm\<close>)
  ultimately show ?thesis using k(3) us(3) by (simp add: get_pool_def)
qed

section \<open>Properties of the page allocator\<close>

text \<open>A state in which the kernel pool has one used page.\<close>

definition demo_pool :: "vaddr \<Rightarrow> elem_type \<Rightarrow> pool" where
  "demo_pool a w = \<lparr>used_map = \<lparr>bit_cnt = 8, bits = [w]\<rparr>, base = a\<rparr>"

definition demo_pmem :: pmem where
  "demo_pmem = \<lparr>kernel_pool = demo_pool 0xc0101000 1, user_pool = demo_pool 0xc0201000 0, mem = \<lambda>_. 0\<rparr>"

lemma demo_pool_ok: "a \<in> {0xc0101000, 0xc0201000} \<Longrightarrow> pool_ok (demo_pool a w)"
  by (auto simp: pool_ok_def demo_pool_def bm_wf_def pg_ofs_def PGMASK_def PHYS_BASE_def)

lemma demo_pool_first: "pool_first (demo_pool 0xc0101000 w) = 786689" "pool_first (demo_pool 0xc0201000 w) = 786945"
  by (simp_all add: pool_first_def demo_pool_def unat_pg_no)

lemma demo_pool_cnt [simp]: "bit_cnt (used_map (demo_pool a w)) = 8"
  by (simp add: demo_pool_def)

lemma demo_pmem_ok: "palloc_ok demo_pmem"
  using demo_pool_ok by (auto simp: palloc_ok_def demo_pmem_def pool_pages_def demo_pool_first)

lemma demo_page: "pg_ofs 0xc0101000 = 0" "page_range 0xc0101000 1 = {786689}"
  by (auto simp: pg_ofs_def PGMASK_def page_range_def unat_pg_no)

lemma demo_page_used: "786689 \<in> pool_used (get_pool False demo_pmem)"
proof -
  have "0 \<in> bm_used (used_map (demo_pool 0xc0101000 1))"
    by (simp add: bm_used_def demo_pool_def bm_bit_def)
  then show ?thesis by (force simp: pool_used_def get_pool_def demo_pmem_def demo_pool_first)
qed

text \<open>C11: With between 258 and \<open>2 ^ 18 - 1\<close> pages of memory and a positive user limit, \<open>palloc_init\<close> does not
  panic: the two pools are well formed, empty and disjoint, and lie between 1 MB and the end of
  physical memory.\<close>

theorem palloc_init_correct:
  assumes "258 \<le> init_ram_pages" and "init_ram_pages < 2 ^ 18" and "0 < user_page_limit"
  shows "\<exists>s. palloc_init m init_ram_pages user_page_limit = Some s \<and> palloc_ok s \<and>
           (\<forall>u. pool_used (get_pool u s) = {} \<and>
                pool_pages (get_pool u s) \<subseteq> {786688..<786432 + init_ram_pages})"
  by (rule palloc_init_ok [OF assms])

theorem palloc_init_correct_witness:
  "\<exists>s. palloc_init (\<lambda>_. 0) 1024 (2 ^ 32 - 1) = Some s \<and> palloc_ok s"
  using palloc_init_correct [of 1024 "2 ^ 32 - 1" "\<lambda>_. 0"] by auto

text \<open>C2: \<open>palloc_get_multiple\<close> without \<open>PAL_ASSERT\<close> never panics. It returns null, changing nothing, only
  if no group of that many free pages exists in the chosen pool. Otherwise the result is page
  aligned, the pages lie in the pool, were all free and are now used, the other pool is unchanged,
  and memory is unchanged except that the pages are zero if \<open>PAL_ZERO\<close> is set.\<close>

theorem palloc_get_multiple_correct:
  assumes "palloc_ok s" and "0 < n" and "flags AND PAL_ASSERT = 0" and "u = (flags AND PAL_USER \<noteq> 0)"
  shows "\<exists>a s'. palloc_get_multiple s flags n = Some (a, s') \<and> palloc_ok s' \<and>
           get_pool (\<not> u) s' = get_pool (\<not> u) s \<and>
           (if a = 0 then s' = s \<and>
              (\<forall>i. {i..<i + n} \<subseteq> pool_pages (get_pool u s) \<longrightarrow> {i..<i + n} \<inter> pool_used (get_pool u s) \<noteq> {})
            else pg_ofs a = 0 \<and> page_range a n \<subseteq> pool_pages (get_pool u s) \<and>
              page_range a n \<inter> pool_used (get_pool u s) = {} \<and>
              pool_used (get_pool u s') = pool_used (get_pool u s) \<union> page_range a n \<and>
              (\<forall>x. mem s' x = (if flags AND PAL_ZERO \<noteq> 0 \<and> unat (pg_no x) \<in> page_range a n then 0 else mem s x)))"
  using palloc_get_ok [OF assms(1,2,4,3)] by blast

theorem palloc_get_multiple_correct_witness:
  "\<exists>a s'. palloc_get_multiple demo_pmem (PAL_USER OR PAL_ZERO) 3 = Some (a, s') \<and> palloc_ok s'"
proof -
  have "(PAL_USER OR PAL_ZERO) AND PAL_ASSERT = 0" by (simp add: PAL_ASSERT_def PAL_USER_def PAL_ZERO_def)
  from palloc_get_multiple_correct [OF demo_pmem_ok _ this refl, of 3] show ?thesis by auto
qed

text \<open>C12: Freeing pages that are in use returns them to their pool and to no other, leaves all other memory
  unchanged, and restores the set of used pages to what it was before they were allocated.\<close>

theorem palloc_free_multiple_correct:
  assumes "palloc_ok s" and "0 < n" and "pg_ofs a = 0" and "page_range a n \<subseteq> pool_used (get_pool u s)"
  shows "\<exists>s'. palloc_free_multiple s a n = Some s' \<and> palloc_ok s' \<and>
           get_pool (\<not> u) s' = get_pool (\<not> u) s \<and>
           pool_used (get_pool u s') = pool_used (get_pool u s) - page_range a n \<and>
           (\<forall>x. unat (pg_no x) \<notin> page_range a n \<longrightarrow> mem s' x = mem s x)"
  using palloc_free_ok [OF assms] by blast

theorem palloc_free_multiple_correct_witness:
  "\<exists>s'. palloc_free_multiple demo_pmem 0xc0101000 1 = Some s' \<and> palloc_ok s' \<and>
        786689 \<notin> pool_used (get_pool False s')"
  using palloc_free_multiple_correct [OF demo_pmem_ok _ demo_page(1), of 1 False] demo_page(2) demo_page_used
  by fastforce

text \<open>C13: A double free is caught: freeing pages of a pool that are not all in use fails the assertion on the
  bitmap.\<close>

theorem palloc_double_free:
  assumes "palloc_ok s" and "0 < n" and "a \<noteq> 0" and "page_range a n \<subseteq> pool_pages (get_pool u s)"
    and "\<not> page_range a n \<subseteq> pool_used (get_pool u s)"
  shows "palloc_free_multiple s a n = None"
  by (rule palloc_free_not_used [OF assms])

theorem palloc_double_free_witness: "palloc_free_multiple demo_pmem 0xc0201000 1 = None"
proof (rule palloc_double_free [OF demo_pmem_ok, of _ _ True])
  have r: "page_range 0xc0201000 1 = {786945}" by (auto simp: page_range_def unat_pg_no)
  show "page_range 0xc0201000 1 \<subseteq> pool_pages (get_pool True demo_pmem)"
    unfolding r by (simp add: get_pool_def demo_pmem_def pool_pages_def demo_pool_first)
  have "\<not> bm_abs (used_map (demo_pool 0xc0201000 0)) ! i" if "i < 8" for i
    using that by (simp add: demo_pool_def bm_bit_def)
  then have "bm_used (used_map (demo_pool 0xc0201000 0)) = {}"
    by (auto simp: bm_used_def)
  then show "\<not> page_range 0xc0201000 1 \<subseteq> pool_used (get_pool True demo_pmem)"
    unfolding r by (simp add: get_pool_def demo_pmem_def pool_used_def)
qed simp_all

text \<open>C3: Whatever sequence of allocations and frees is made from a pool, no request panics and the groups of
  pages held at the end are pairwise disjoint and all marked as used.\<close>

theorem palloc_run_disjoint:
  assumes "palloc_ok s" and "held_ok (pool_used (get_pool (flags AND PAL_USER \<noteq> 0) s)) held"
  shows "\<exists>s' held'. slot_run (page_get flags) page_put s held rs = Some (s', held') \<and> palloc_ok s' \<and>
           held_ok (pool_used (get_pool (flags AND PAL_USER \<noteq> 0) s')) held'"
  using palloc_slots.run_disjoint [OF assms] by blast

theorem palloc_run_disjoint_witness:
  "\<exists>s' held'. slot_run (page_get PAL_USER) page_put demo_pmem [] [Take 2, Take 3, Give 0, Take 1] = Some (s', held') \<and>
     palloc_ok s'"
  using palloc_run_disjoint [OF demo_pmem_ok held_ok_Nil] by blast

end
