(* ===== verification/PageDir.thy ===== *)
theory PageDir
  imports Palloc
begin

text \<open>
  \<open>userprog/pagedir.c\<close>: two-level page tables kept in pages of the kernel pool. The tables are
  read and written as 32-bit cells of the byte memory that the page allocator owns, so that
  separation of tables is proved and not assumed. \<open>pte_of\<close> abstracts a page directory to the
  entry it holds for each user page; every operation is refined to an update of that function.
  \<open>None\<close> is a panic, address 0 a null pointer.
\<close>

section \<open>State and operations\<close>

record mmu =
  pm :: pmem
  init_page_dir :: vaddr
  init_ram_pages :: nat
  cr3 :: vaddr

definition cell :: "vaddr \<Rightarrow> vaddr \<Rightarrow> vaddr" where
  "cell p i = p + 4 * i"

definition load_word :: "mmu \<Rightarrow> vaddr \<Rightarrow> 32 word" where
  "load_word st a = load32 (mem (pm st)) a"

definition store_word :: "mmu \<Rightarrow> vaddr \<Rightarrow> 32 word \<Rightarrow> mmu" where
  "store_word st a v = st\<lparr>pm := (pm st)\<lparr>mem := store32 (mem (pm st)) a v\<rparr>\<rparr>"

definition pagedir_create :: "mmu \<Rightarrow> (vaddr \<times> mmu) option" where
  "pagedir_create st = do {
     (pd, p) \<leftarrow> palloc_get_page (pm st) 0;
     Some (pd, if pd \<noteq> 0 then st\<lparr>pm := p\<lparr>mem := mem_copy (mem p) pd (init_page_dir st) PGSIZE\<rparr>\<rparr> else st\<lparr>pm := p\<rparr>) }"





definition lookup_page :: "mmu \<Rightarrow> vaddr \<Rightarrow> vaddr \<Rightarrow> bool \<Rightarrow> (vaddr \<times> mmu) option" where
  "lookup_page st pd va create = do {
     c_assert (pd \<noteq> 0);
     c_assert (\<not> create \<or> is_user_vaddr va);
     let pde = cell pd (pd_no va);
     if load_word st pde = 0 then
       if create then do {
         (pt, p) \<leftarrow> palloc_get_page (pm st) PAL_ZERO;
         let st = st\<lparr>pm := p\<rparr>;
         if pt = 0 then Some (0, st)
         else do {
           e \<leftarrow> pde_create pt;
           let st = store_word st pde e;
           pt \<leftarrow> pde_get_pt (load_word st pde);
           Some (cell pt (pt_no va), st) } }
       else Some (0, st)
     else do {
       pt \<leftarrow> pde_get_pt (load_word st pde);
       Some (cell pt (pt_no va), st) } }"

definition pagedir_set_page :: "mmu \<Rightarrow> vaddr \<Rightarrow> vaddr \<Rightarrow> vaddr \<Rightarrow> bool \<Rightarrow> (bool \<times> mmu) option" where
  "pagedir_set_page st pd upage kpage writable = do {
     c_assert (pg_ofs upage = 0);
     c_assert (pg_ofs kpage = 0);
     c_assert (is_user_vaddr upage);
     p \<leftarrow> vtop kpage;
     c_assert (unat (drop_bit 12 p) < init_ram_pages st);
     c_assert (pd \<noteq> init_page_dir st);
     (pte, st) \<leftarrow> lookup_page st pd upage True;
     if pte \<noteq> 0 then do {
       c_assert (load_word st pte AND PTE_P = 0);
       e \<leftarrow> pte_create_user kpage writable;
       Some (True, store_word st pte e) }
     else Some (False, st) }"

definition pagedir_get_page :: "mmu \<Rightarrow> vaddr \<Rightarrow> vaddr \<Rightarrow> vaddr option" where
  "pagedir_get_page st pd uaddr = do {
     c_assert (is_user_vaddr uaddr);
     (pte, st) \<leftarrow> lookup_page st pd uaddr False;
     if pte \<noteq> 0 \<and> load_word st pte AND PTE_P \<noteq> 0 then do {
       page \<leftarrow> pte_get_page (load_word st pte);
       Some (page + pg_ofs uaddr) }
     else Some 0 }"

definition pagedir_activate :: "mmu \<Rightarrow> vaddr \<Rightarrow> mmu option" where
  "pagedir_activate st pd = do {
     let pd = (if pd = 0 then init_page_dir st else pd);
     p \<leftarrow> vtop pd;
     Some (st\<lparr>cr3 := p\<rparr>) }"

definition active_pd :: "mmu \<Rightarrow> vaddr option" where
  "active_pd st = ptov (cr3 st)"

definition invalidate_pagedir :: "mmu \<Rightarrow> vaddr \<Rightarrow> mmu option" where
  "invalidate_pagedir st pd = do {
     a \<leftarrow> active_pd st;
     if a = pd then pagedir_activate st pd else Some st }"

definition pagedir_clear_page :: "mmu \<Rightarrow> vaddr \<Rightarrow> vaddr \<Rightarrow> mmu option" where
  "pagedir_clear_page st pd upage = do {
     c_assert (pg_ofs upage = 0);
     c_assert (is_user_vaddr upage);
     (pte, st) \<leftarrow> lookup_page st pd upage False;
     if pte \<noteq> 0 \<and> load_word st pte AND PTE_P \<noteq> 0 then
       invalidate_pagedir (store_word st pte (load_word st pte AND NOT PTE_P)) pd
     else Some st }"





text \<open>The conjunction of \<open>pagedir_install_page\<close> does not map a page that is mapped already.\<close>

definition pagedir_install_page :: "mmu \<Rightarrow> vaddr \<Rightarrow> vaddr \<Rightarrow> vaddr \<Rightarrow> bool \<Rightarrow> (bool \<times> mmu) option" where
  "pagedir_install_page st pd upage kpage writable = do {
     page \<leftarrow> pagedir_get_page st pd upage;
     if page = 0 then pagedir_set_page st pd upage kpage writable else Some (False, st) }"

section \<open>Cells\<close>

lemma pd_no_less: "unat (pd_no va) < 1024"
proof -
  have "unat va < 1024 * 2 ^ 22" using unsigned_less [of va] by simp
  then show ?thesis unfolding unat_pd_no by (simp add: less_mult_imp_div_less)
qed

lemma pt_no_less: "unat (pt_no va) < 1024"
  by (simp add: unat_pt_no)

lemma user_pd_no: "is_user_vaddr va \<Longrightarrow> unat (pd_no va) < 768"
  unfolding unat_pd_no is_user_vaddr_def PHYS_BASE_def word_less_nat_alt
  by (rule less_mult_imp_div_less) simp

lemma page_end: "pg_ofs p = 0 \<Longrightarrow> unat p + 4096 \<le> 2 ^ 32"
proof -
  assume "pg_ofs p = 0"
  then obtain k where k: "unat p = 4096 * k" unfolding pg_ofs_zero_iff by (elim dvdE)
  moreover have "unat p < 2 ^ 32" using unsigned_less [of p] by simp
  ultimately show ?thesis by simp
qed

lemma cell_addr:
  assumes "pg_ofs p = 0" and "unat i < 1024"
  shows "unat (cell p i) = unat p + 4 * unat i" and "pg_no (cell p i) = pg_no p" and "aligned4 (cell p i)"
proof -
  have "unat (4 * i) = 4 * unat i" using assms(2) by (subst unat_mult_lem [THEN iffD1]) simp_all
  then show a: "unat (cell p i) = unat p + 4 * unat i"
    unfolding cell_def using assms(2) page_end [OF assms(1)] by (subst unat_add_lem [THEN iffD1]) simp_all
  obtain k where k: "unat p = 4096 * k" using assms(1) unfolding pg_ofs_zero_iff by (elim dvdE)
  show "pg_no (cell p i) = pg_no p"
    unfolding word_unat_eq_iff [of "pg_no _"] unat_pg_no a k using assms(2) by simp
  show "aligned4 (cell p i)" unfolding aligned4_def a k by simp
qed

lemma cell_inj:
  assumes "pg_ofs p = 0" and "unat i < 1024" and "unat j < 1024"
  shows "cell p i = cell p j \<longleftrightarrow> i = j"
  using cell_addr(1) [OF assms(1,2)] cell_addr(1) [OF assms(1,3)] by (auto simp: word_unat_eq_iff)

lemma cell_page_neq:
  assumes "pg_ofs p = 0" and "unat i < 1024" and "pg_ofs q = 0" and "unat j < 1024" and "pg_no p \<noteq> pg_no q"
  shows "cell p i \<noteq> cell q j"
  using cell_addr(2) [OF assms(1,2)] cell_addr(2) [OF assms(3,4)] assms(5) by metis

text \<open>A cell depends only on the bytes of its page.\<close>

lemma load32_page:
  assumes "aligned4 a" and "\<And>x. pg_no x = pg_no a \<Longrightarrow> m x = m' x"
  shows "load32 m a = load32 m' a"
proof -
  obtain k where k: "unat a = 4 * k" using assms(1) unfolding aligned4_def by (elim dvdE)
  have "(4 * k + j) div 4096 = k div 1024" if "j < 4" for j
    using that div_mult2_eq [of "4 * k + j" 4 1024] by simp
  from this [of 0] this [of 1] this [of 2] this [of 3] have "pg_no (a + 1) = pg_no a" "pg_no (a + 2) = pg_no a" "pg_no (a + 3) = pg_no a"
    unfolding word_unat_eq_iff [of "pg_no _"] unat_pg_no using aligned4_cells [OF assms(1)] k by simp_all
  then show ?thesis using assms(2) by (intro load32_cong) simp_all
qed

section \<open>Abstraction and invariant\<close>

definition kpage_used :: "mmu \<Rightarrow> vaddr \<Rightarrow> bool" where
  "kpage_used st p \<longleftrightarrow> unat (pg_no p) \<in> pool_used (get_pool False (pm st))"

text \<open>The page table for directory index \<open>i\<close>, the address of the entry for an address, and the entry itself.\<close>

definition table_of :: "mmu \<Rightarrow> vaddr \<Rightarrow> vaddr \<Rightarrow> vaddr option" where
  "table_of st pd i = (if load_word st (cell pd i) = 0 then None else pde_get_pt (load_word st (cell pd i)))"

definition pte_addr :: "mmu \<Rightarrow> vaddr \<Rightarrow> vaddr \<Rightarrow> vaddr option" where
  "pte_addr st pd va = map_option (\<lambda>pt. cell pt (pt_no va)) (table_of st pd (pd_no va))"

definition pte_of :: "mmu \<Rightarrow> vaddr \<Rightarrow> vaddr \<Rightarrow> pte" where
  "pte_of st pd va = (case pte_addr st pd va of None \<Rightarrow> 0 | Some a \<Rightarrow> load_word st a)"

text \<open>From \<open>st\<close> to \<open>st'\<close> only the entry of the page of \<open>va\<close> changed, to \<open>v\<close>.\<close>

definition only_entry :: "mmu \<Rightarrow> mmu \<Rightarrow> vaddr \<Rightarrow> vaddr \<Rightarrow> pte \<Rightarrow> bool" where
  "only_entry st st' pd va v \<longleftrightarrow>
     (\<forall>va'. is_user_vaddr va' \<longrightarrow> pte_of st' pd va' = (if pg_no va' = pg_no va then v else pte_of st pd va'))"

text \<open>
  The directory and its tables are distinct pages that the kernel pool has handed out, and no two
  user entries of the directory share a table.
\<close>

definition pd_ok :: "mmu \<Rightarrow> vaddr \<Rightarrow> bool" where
  "pd_ok st pd \<longleftrightarrow>
     palloc_ok (pm st) \<and> pg_ofs pd = 0 \<and> kpage_used st pd \<and>
     (\<forall>i. unat i < 768 \<longrightarrow> load_word st (cell pd i) \<noteq> 0 \<longrightarrow>
        (\<exists>pt. pde_get_pt (load_word st (cell pd i)) = Some pt \<and> pg_ofs pt = 0 \<and> kpage_used st pt \<and>
              pg_no pt \<noteq> pg_no pd)) \<and>
     (\<forall>i j pt pt'. unat i < 768 \<longrightarrow> unat j < 768 \<longrightarrow> table_of st pd i = Some pt \<longrightarrow>
        table_of st pd j = Some pt' \<longrightarrow> pg_no pt = pg_no pt' \<longrightarrow> i = j)"

lemma pool_page_kernel: "pool_ok p \<Longrightarrow> unat (pg_no a) \<in> pool_pages p \<Longrightarrow> is_kernel_vaddr a"
proof -
  assume p: "pool_ok p" "unat (pg_no a) \<in> pool_pages p"
  have "unat (base p) div 4096 \<le> unat a div 4096"
    using p(2) by (simp add: pool_pages_def pool_first_def unat_pg_no)
  moreover have "4096 * (unat (base p) div 4096) = unat (base p)"
    using p(1) by (simp add: pool_ok_def pg_ofs_zero_iff)
  ultimately have "unat (base p) \<le> unat a" by linarith
  then show ?thesis using p(1) by (simp add: pool_ok_def is_kernel_vaddr_def word_le_nat_alt)
qed

lemma kpage_kernel: "palloc_ok (pm st) \<Longrightarrow> kpage_used st p \<Longrightarrow> is_kernel_vaddr p"
  using pool_page_kernel [OF palloc_ok_get] pool_used_pages unfolding kpage_used_def by blast

lemma kernel_nonzero: "is_kernel_vaddr a \<Longrightarrow> a \<noteq> 0"
  by (auto simp: is_kernel_vaddr_def PHYS_BASE_def)

lemma pd_okD:
  assumes "pd_ok st pd"
  shows "palloc_ok (pm st)" "pg_ofs pd = 0" "kpage_used st pd" "pd \<noteq> 0"
    and "unat i < 768 \<Longrightarrow> table_of st pd i = Some pt \<Longrightarrow> pg_ofs pt = 0 \<and> kpage_used st pt \<and> pg_no pt \<noteq> pg_no pd"
    and "unat i < 768 \<Longrightarrow> load_word st (cell pd i) \<noteq> 0 \<Longrightarrow> \<exists>pt. table_of st pd i = Some pt"
    and "unat i < 768 \<Longrightarrow> unat j < 768 \<Longrightarrow> table_of st pd i = Some pt \<Longrightarrow> table_of st pd j = Some pt' \<Longrightarrow>
         pg_no pt = pg_no pt' \<Longrightarrow> i = j"
proof -
  show "palloc_ok (pm st)" "pg_ofs pd = 0" "kpage_used st pd" using assms by (simp_all add: pd_ok_def)
  then show "pd \<noteq> 0" using kpage_kernel kernel_nonzero by blast
  have t: "\<exists>pt. pde_get_pt (load_word st (cell pd i)) = Some pt \<and> pg_ofs pt = 0 \<and> kpage_used st pt \<and> pg_no pt \<noteq> pg_no pd"
    if "unat i < 768" "load_word st (cell pd i) \<noteq> 0" for i using assms that by (simp add: pd_ok_def)
  show "pg_ofs pt = 0 \<and> kpage_used st pt \<and> pg_no pt \<noteq> pg_no pd" if a: "unat i < 768" "table_of st pd i = Some pt"
  proof -
    have "load_word st (cell pd i) \<noteq> 0" "pde_get_pt (load_word st (cell pd i)) = Some pt"
      using a(2) by (auto simp: table_of_def split: if_splits)
    with t [OF a(1)] show ?thesis by auto
  qed
  show "\<exists>pt. table_of st pd i = Some pt" if "unat i < 768" "load_word st (cell pd i) \<noteq> 0"
    using that t [of i] by (auto simp: table_of_def)
  show "i = j" if "unat i < 768" "unat j < 768" "table_of st pd i = Some pt" "table_of st pd j = Some pt'"
    "pg_no pt = pg_no pt'" using assms that unfolding pd_ok_def by blast
qed

lemma pd_okI:
  assumes "palloc_ok (pm st)" "pg_ofs pd = 0" "kpage_used st pd"
    and "\<And>i. unat i < 768 \<Longrightarrow> load_word st (cell pd i) \<noteq> 0 \<Longrightarrow>
          \<exists>pt. table_of st pd i = Some pt \<and> pg_ofs pt = 0 \<and> kpage_used st pt \<and> pg_no pt \<noteq> pg_no pd"
    and "\<And>i j pt pt'. unat i < 768 \<Longrightarrow> unat j < 768 \<Longrightarrow> table_of st pd i = Some pt \<Longrightarrow>
          table_of st pd j = Some pt' \<Longrightarrow> pg_no pt = pg_no pt' \<Longrightarrow> i = j"
  shows "pd_ok st pd"
proof -
  have "\<exists>pt. pde_get_pt (load_word st (cell pd i)) = Some pt \<and> pg_ofs pt = 0 \<and> kpage_used st pt \<and> pg_no pt \<noteq> pg_no pd"
    if "unat i < 768" "load_word st (cell pd i) \<noteq> 0" for i
    using assms(4) [OF that] that(2) by (auto simp: table_of_def)
  with assms show ?thesis unfolding pd_ok_def by blast
qed

lemma pte_addr_page:
  assumes "pd_ok st pd" and "is_user_vaddr va" and "pte_addr st pd va = Some a"
  shows "\<exists>pt. table_of st pd (pd_no va) = Some pt \<and> a = cell pt (pt_no va) \<and> pg_ofs pt = 0 \<and>
              pg_no a = pg_no pt \<and> pg_no pt \<noteq> pg_no pd \<and> aligned4 a \<and> a \<noteq> 0"
proof -
  obtain pt where pt: "table_of st pd (pd_no va) = Some pt" "a = cell pt (pt_no va)"
    using assms(3) by (auto simp: pte_addr_def)
  note ok = pd_okD(5) [OF assms(1) user_pd_no [OF assms(2)] pt(1)]
  then have c: "pg_no a = pg_no pt" "aligned4 a" using cell_addr [of pt "pt_no va"] pt_no_less pt(2) by auto
  then have "kpage_used st a" using ok by (simp add: kpage_used_def)
  then have "a \<noteq> 0" using kpage_kernel [OF pd_okD(1) [OF assms(1)]] kernel_nonzero by blast
  with pt ok c show ?thesis by blast
qed

lemma pte_addr_inj:
  assumes "pd_ok st pd" and "is_user_vaddr va" "is_user_vaddr va'"
    and "pte_addr st pd va = Some a" "pte_addr st pd va' = Some a'"
  shows "a = a' \<longleftrightarrow> pg_no va = pg_no va'"
proof -
  obtain pt pt' where pt: "table_of st pd (pd_no va) = Some pt" "a = cell pt (pt_no va)" "pg_ofs pt = 0" "pg_no a = pg_no pt"
    and pt': "table_of st pd (pd_no va') = Some pt'" "a' = cell pt' (pt_no va')" "pg_ofs pt' = 0" "pg_no a' = pg_no pt'"
    using pte_addr_page [OF assms(1,2,4)] pte_addr_page [OF assms(1,3,5)] by blast
  have "a = a' \<longleftrightarrow> pd_no va = pd_no va' \<and> pt_no va = pt_no va'"
  proof
    assume "a = a'"
    then have "pd_no va = pd_no va'"
      using pd_okD(7) [OF assms(1) user_pd_no [OF assms(2)] user_pd_no [OF assms(3)] pt(1) pt'(1)] pt(4) pt'(4) by simp
    moreover from this have "pt = pt'" using pt(1) pt'(1) by simp
    ultimately show "pd_no va = pd_no va' \<and> pt_no va = pt_no va'"
      using \<open>a = a'\<close> pt(2) pt'(2) cell_inj [OF pt(3) pt_no_less pt_no_less] by simp
  qed (use pt pt' in auto)
  then show ?thesis by (simp add: pd_pt_no_iff)
qed

lemma lookup_page_no_create:
  assumes "pd_ok st pd" and "is_user_vaddr va"
  shows "lookup_page st pd va False = Some (case pte_addr st pd va of None \<Rightarrow> 0 | Some a \<Rightarrow> a, st)"
proof (cases "load_word st (cell pd (pd_no va)) = 0")
  case True
  then show ?thesis using pd_okD(4) [OF assms(1)] by (simp add: lookup_page_def pte_addr_def table_of_def Let_def)
next
  case False
  then show ?thesis using pd_okD(4) [OF assms(1)] pd_okD(6) [OF assms(1) user_pd_no [OF assms(2)]]
    by (auto simp: lookup_page_def pte_addr_def table_of_def Let_def)
qed

section \<open>Writing an entry\<close>

lemma store_word_simps [simp]:
  "palloc_ok (pm (store_word st a v)) = palloc_ok (pm st)"
  "kpage_used (store_word st a v) p = kpage_used st p"
  "init_page_dir (store_word st a v) = init_page_dir st"
  "init_ram_pages (store_word st a v) = init_ram_pages st"
  "cr3 (store_word st a v) = cr3 st"
  by (simp_all add: store_word_def kpage_used_def)

lemma load_store_word: "aligned4 a \<Longrightarrow> load_word (store_word st a v) a = v"
  by (simp add: load_word_def store_word_def load_store32)

lemma load_store_word_other:
  "aligned4 a \<Longrightarrow> aligned4 b \<Longrightarrow> a \<noteq> b \<Longrightarrow> load_word (store_word st a v) b = load_word st b"
  by (simp add: load_word_def store_word_def load_store32_other)

text \<open>If the user part of the directory reads the same, so does every table.\<close>

lemma table_of_cong:
  "load_word st' (cell pd i) = load_word st (cell pd i) \<Longrightarrow> table_of st' pd i = table_of st pd i"
  by (simp add: table_of_def)

lemma pd_ok_same_directory:
  assumes "pd_ok st pd" and "palloc_ok (pm st')" and "\<And>p. kpage_used st p \<Longrightarrow> kpage_used st' p"
    and same: "\<And>i. unat i < 768 \<Longrightarrow> load_word st' (cell pd i) = load_word st (cell pd i)"
  shows "pd_ok st' pd"
proof (rule pd_okI)
  have t: "table_of st' pd i = table_of st pd i" if "unat i < 768" for i
    using same [OF that] by (rule table_of_cong)
  show "\<exists>pt. table_of st' pd i = Some pt \<and> pg_ofs pt = 0 \<and> kpage_used st' pt \<and> pg_no pt \<noteq> pg_no pd"
    if i: "unat i < 768" and nz: "load_word st' (cell pd i) \<noteq> 0" for i
  proof -
    obtain pt where "table_of st pd i = Some pt" using pd_okD(6) [OF assms(1) i] nz same [OF i] by auto
    with pd_okD(5) [OF assms(1) i this] t [OF i] assms(3) show ?thesis by auto
  qed
  show "i = j" if "unat i < 768" "unat j < 768" "table_of st' pd i = Some pt" "table_of st' pd j = Some pt'"
    "pg_no pt = pg_no pt'" for i j pt pt'
    using pd_okD(7) [OF assms(1) that(1,2)] that t by simp
qed (use assms pd_okD in auto)

lemma pte_addr_same_directory:
  assumes "\<And>i. unat i < 768 \<Longrightarrow> load_word st' (cell pd i) = load_word st (cell pd i)" and "is_user_vaddr va"
  shows "pte_addr st' pd va = pte_addr st pd va"
  using assms(1) [OF user_pd_no [OF assms(2)]] by (simp add: pte_addr_def table_of_def)

lemma store_pte:
  assumes ok: "pd_ok st pd" and va: "is_user_vaddr va" and a: "pte_addr st pd va = Some a"
  shows "pd_ok (store_word st a v) pd"
    and "is_user_vaddr va' \<Longrightarrow>
         pte_of (store_word st a v) pd va' = (if pg_no va' = pg_no va then v else pte_of st pd va')"
    and "pte_addr (store_word st a v) pd va = Some a"
proof -
  obtain pt where pt: "a = cell pt (pt_no va)" "pg_ofs pt = 0" "pg_no a = pg_no pt" "pg_no pt \<noteq> pg_no pd" "aligned4 a"
    using pte_addr_page [OF ok va a] by blast
  have same: "load_word (store_word st a v) (cell pd i) = load_word st (cell pd i)" if "unat i < 768" for i
  proof (rule load_store_word_other [OF pt(5)])
    have i: "unat i < 1024" using that by simp
    show "aligned4 (cell pd i)" by (rule cell_addr(3) [OF pd_okD(2) [OF ok] i])
    show "a \<noteq> cell pd i" unfolding pt(1) by (rule cell_page_neq [OF pt(2) pt_no_less pd_okD(2) [OF ok] i pt(4)])
  qed
  show "pd_ok (store_word st a v) pd"
    by (rule pd_ok_same_directory [OF ok]) (use pd_okD(1) [OF ok] same in auto)
  show "pte_addr (store_word st a v) pd va = Some a"
    using pte_addr_same_directory [of "store_word st a v" pd st va, OF same va] a by simp
  assume va': "is_user_vaddr va'"
  note addr = pte_addr_same_directory [of "store_word st a v" pd st va', OF same va']
  show "pte_of (store_word st a v) pd va' = (if pg_no va' = pg_no va then v else pte_of st pd va')"
  proof (cases "pte_addr st pd va'")
    case None
    have "pg_no va' \<noteq> pg_no va"
    proof
      assume "pg_no va' = pg_no va"
      then have "pd_no va' = pd_no va" using pd_pt_no_iff by blast
      with None a show False by (auto simp: pte_addr_def)
    qed
    then show ?thesis using None addr by (simp add: pte_of_def)
  next
    case (Some a')
    have al: "aligned4 a'" using pte_addr_page [OF ok va' Some] by blast
    have "a' = a \<longleftrightarrow> pg_no va' = pg_no va" by (rule pte_addr_inj [OF ok va' va Some a])
    then show ?thesis
      using Some addr load_store_word [OF pt(5)] load_store_word_other [OF pt(5) al]
      by (cases "a' = a") (auto simp: pte_of_def)
  qed
qed

section \<open>Creating a table\<close>

lemma palloc_page:
  assumes "palloc_ok p" and "flags AND PAL_ASSERT = 0" and "flags AND PAL_USER = 0"
  shows "\<exists>a p'. palloc_get_page p flags = Some (a, p') \<and> palloc_ok p' \<and>
           (a = 0 \<longrightarrow> p' = p) \<and>
           (a \<noteq> 0 \<longrightarrow> pg_ofs a = 0 \<and> is_kernel_vaddr a \<and> unat (pg_no a) \<notin> pool_used (get_pool False p) \<and>
              pool_used (get_pool False p') = insert (unat (pg_no a)) (pool_used (get_pool False p)) \<and>
              get_pool True p' = get_pool True p \<and>
              (\<forall>x. mem p' x = (if flags AND PAL_ZERO \<noteq> 0 \<and> pg_no x = pg_no a then 0 else mem p x)))"
proof -
  have r: "page_range a 1 = {unat (pg_no a)}" for a by (auto simp: page_range_def)
  obtain a p' where "palloc_get_multiple p flags 1 = Some (a, p')" "palloc_ok p'"
    "get_pool (\<not> False) p' = get_pool (\<not> False) p"
    "if a = 0 then p' = p \<and>
              (\<forall>i. {i..<i + 1} \<subseteq> pool_pages (get_pool False p) \<longrightarrow> {i..<i + 1} \<inter> pool_used (get_pool False p) \<noteq> {})
     else pg_ofs a = 0 \<and> page_range a 1 \<subseteq> pool_pages (get_pool False p) \<and>
       page_range a 1 \<inter> pool_used (get_pool False p) = {} \<and>
       pool_used (get_pool False p') = pool_used (get_pool False p) \<union> page_range a 1 \<and>
       (\<forall>x. mem p' x = (if flags AND PAL_ZERO \<noteq> 0 \<and> unat (pg_no x) \<in> page_range a 1 then 0 else mem p x))"
    using palloc_get_ok [of p 1 False flags] assms by auto
  then show ?thesis
    using pool_page_kernel [OF palloc_ok_get [OF assms(1)], of a False]
    unfolding r palloc_get_page_def by (cases "a = 0") (auto simp: word_unat_eq_iff)
qed

text \<open>A fresh zeroed page \<open>a\<close>: pages in use read as before, \<open>a\<close> reads as zero.\<close>

lemma fresh_loads:
  assumes a: "pg_ofs a = 0" "unat (pg_no a) \<notin> pool_used (get_pool False (pm st))"
    and p: "\<And>x. mem p x = (if pg_no x = pg_no a then 0 else mem (pm st) x)"
  shows "kpage_used st q \<Longrightarrow> pg_no q \<noteq> pg_no a"
    and "kpage_used st q \<Longrightarrow> pg_ofs q = 0 \<Longrightarrow> unat i < 1024 \<Longrightarrow>
         load_word (st\<lparr>pm := p\<rparr>) (cell q i) = load_word st (cell q i)"
    and "unat i < 1024 \<Longrightarrow> load_word (st\<lparr>pm := p\<rparr>) (cell a i) = 0"
proof -
  show fresh: "pg_no q \<noteq> pg_no a" if "kpage_used st q" for q
    using that a(2) by (auto simp: kpage_used_def)
  show "load_word (st\<lparr>pm := p\<rparr>) (cell q i) = load_word st (cell q i)"
    if q: "kpage_used st q" "pg_ofs q = 0" "unat i < 1024"
    unfolding load_word_def
    by (rule load32_page [OF cell_addr(3) [OF q(2,3)]])
      (use fresh [OF q(1)] cell_addr(2) [OF q(2,3)] in \<open>simp add: p\<close>)
  assume i: "unat i < 1024"
  have "load_word (st\<lparr>pm := p\<rparr>) (cell a i) = load32 (\<lambda>_. 0) (cell a i)"
    unfolding load_word_def
    by (rule load32_page [OF cell_addr(3) [OF a(1) i]]) (simp add: p cell_addr(2) [OF a(1) i])
  then show "load_word (st\<lparr>pm := p\<rparr>) (cell a i) = 0" by (simp add: load32_def)
qed

text \<open>A fresh zeroed page \<open>a\<close> becomes the table for the directory index of \<open>va\<close>.\<close>

lemma install_table:
  assumes ok: "pd_ok st pd" and va: "is_user_vaddr va" and z: "load_word st (cell pd (pd_no va)) = 0"
    and a: "pg_ofs a = 0" "unat (pg_no a) \<notin> pool_used (get_pool False (pm st))"
    and p: "palloc_ok p" "pool_used (get_pool False p) = insert (unat (pg_no a)) (pool_used (get_pool False (pm st)))"
      "\<And>x. mem p x = (if pg_no x = pg_no a then 0 else mem (pm st) x)"
    and e: "pde_create a = Some e"
    and st': "st' = store_word (st\<lparr>pm := p\<rparr>) (cell pd (pd_no va)) e"
  shows "pd_ok st' pd" and "load_word st' (cell pd (pd_no va)) = e" and "table_of st' pd (pd_no va) = Some a"
    and "is_user_vaddr va' \<Longrightarrow> pte_of st' pd va' = pte_of st pd va'"
proof -
  define st1 where "st1 = st\<lparr>pm := p\<rparr>"
  let ?c = "cell pd (pd_no va)"
  note pd = pd_okD(2,3) [OF ok]
  have c: "aligned4 ?c" "pg_no ?c = pg_no pd" using cell_addr [OF pd(1) pd_no_less] by auto
  note fresh = fresh_loads(1) [where st = st, OF a p(3)]
  note l1 = fresh_loads(2) [where st = st, OF a p(3), folded st1_def]
  note l1a = fresh_loads(3) [where st = st, OF a p(3), folded st1_def]
  have st'1: "st' = store_word st1 ?c e" by (simp add: st' st1_def)
  show lc: "load_word st' ?c = e" unfolding st'1 by (rule load_store_word [OF c(1)])
  have l2: "load_word st' (cell q i) = load_word st1 (cell q i)"
    if "pg_ofs q = 0" "unat i < 1024" "cell q i \<noteq> ?c" for q i
    unfolding st'1 by (rule load_store_word_other [OF c(1) cell_addr(3) [OF that(1,2)]]) (use that(3) in auto)
  show tva: "table_of st' pd (pd_no va) = Some a"
    using lc pde_create_get [OF e] by (simp add: table_of_def)
  have other: "load_word st' (cell pd i) = load_word st (cell pd i)" if "unat i < 768" "i \<noteq> pd_no va" for i
    using l2 [OF pd(1), of i] l1 [OF pd(2,1), of i] that cell_inj [OF pd(1) _ pd_no_less, of i va] by simp
  then have tother: "table_of st' pd i = table_of st pd i" if "unat i < 768" "i \<noteq> pd_no va" for i
    using that by (intro table_of_cong) simp
  have used: "kpage_used st' q \<longleftrightarrow> pg_no q = pg_no a \<or> kpage_used st q" for q
    unfolding st'1 store_word_simps(2) by (auto simp: kpage_used_def st1_def p(2) word_unat_eq_iff)
  show "pd_ok st' pd"
  proof (rule pd_okI)
    show "palloc_ok (pm st')" using p(1) by (simp add: st')
    show "\<exists>pt. table_of st' pd i = Some pt \<and> pg_ofs pt = 0 \<and> kpage_used st' pt \<and> pg_no pt \<noteq> pg_no pd"
      if i: "unat i < 768" "load_word st' (cell pd i) \<noteq> 0" for i
    proof (cases "i = pd_no va")
      case True
      then show ?thesis using tva a(1) used fresh [OF pd(2)] by auto
    next
      case False
      then obtain pt where "table_of st pd i = Some pt" using pd_okD(6) [OF ok i(1)] other i by auto
      with pd_okD(5) [OF ok i(1) this] tother [OF i(1) False] used show ?thesis by auto
    qed
    show "i = j" if ij: "unat i < 768" "unat j < 768" "table_of st' pd i = Some pt" "table_of st' pd j = Some pt'"
      "pg_no pt = pg_no pt'" for i j pt pt'
    proof -
      have new: False if "k \<noteq> pd_no va" "unat k < 768" "table_of st' pd k = Some q" "pg_no q = pg_no a" for k q
        using pd_okD(5) [OF ok that(2), of q] tother [OF that(2,1)] that(3,4) fresh by auto
      show ?thesis
        using ij new [of i] new [of j] tva tother pd_okD(7) [OF ok ij(1,2)]
        by (cases "i = pd_no va"; cases "j = pd_no va") auto
    qed
  qed (use pd used in auto)
  assume va': "is_user_vaddr va'"
  show "pte_of st' pd va' = pte_of st pd va'"
  proof (cases "pd_no va' = pd_no va")
    case True
    have "cell a (pt_no va') \<noteq> ?c"
      using cell_page_neq [OF a(1) pt_no_less pd(1) pd_no_less] fresh [OF pd(2)] by auto
    then have "load_word st' (cell a (pt_no va')) = 0" using l2 [OF a(1) pt_no_less] l1a [OF pt_no_less] by simp
    moreover have "table_of st pd (pd_no va') = None" using z True by (simp add: table_of_def)
    ultimately show ?thesis using tva True by (simp add: pte_of_def pte_addr_def)
  next
    case False
    note t = tother [OF user_pd_no [OF va'] False]
    show ?thesis
    proof (cases "table_of st pd (pd_no va')")
      case None
      then show ?thesis using t by (simp add: pte_of_def pte_addr_def)
    next
      case (Some pt)
      note ptok = pd_okD(5) [OF ok user_pd_no [OF va'] Some]
      have "cell pt (pt_no va') \<noteq> ?c"
        using cell_page_neq [OF _ pt_no_less pd(1) pd_no_less] ptok by auto
      then have "load_word st' (cell pt (pt_no va')) = load_word st (cell pt (pt_no va'))"
        using l2 [OF _ pt_no_less] l1 [OF _ _ pt_no_less] ptok by simp
      then show ?thesis using Some t by (simp add: pte_of_def pte_addr_def)
    qed
  qed
qed

text \<open>
  Looking up with \<open>create\<close>: null if there is no table and no page for one, with nothing changed; else
  the address of the entry, after which the directory is well formed and holds the same entries.
\<close>

lemma lookup_page_create:
  assumes ok: "pd_ok st pd" and va: "is_user_vaddr va"
  shows "\<exists>a st'. lookup_page st pd va True = Some (a, st') \<and> pd_ok st' pd \<and>
           (a = 0 \<longrightarrow> st' = st) \<and> (a \<noteq> 0 \<longrightarrow> pte_addr st' pd va = Some a) \<and>
           (\<forall>va'. is_user_vaddr va' \<longrightarrow> pte_of st' pd va' = pte_of st pd va') \<and>
           init_page_dir st' = init_page_dir st \<and> init_ram_pages st' = init_ram_pages st \<and> cr3 st' = cr3 st"
proof (cases "table_of st pd (pd_no va)")
  case (Some pt)
  then have "load_word st (cell pd (pd_no va)) \<noteq> 0" "pde_get_pt (load_word st (cell pd (pd_no va))) = Some pt"
    by (auto simp: table_of_def split: if_splits)
  then show ?thesis
    using Some ok va pd_okD(4) [OF ok] by (simp add: lookup_page_def Let_def pte_addr_def)
next
  case None
  then have z: "load_word st (cell pd (pd_no va)) = 0"
    using pd_okD(6) [OF ok user_pd_no [OF va]] by auto
  obtain a p where a: "palloc_get_page (pm st) PAL_ZERO = Some (a, p)" "palloc_ok p" "a = 0 \<longrightarrow> p = pm st"
    "a \<noteq> 0 \<longrightarrow> pg_ofs a = 0 \<and> is_kernel_vaddr a \<and> unat (pg_no a) \<notin> pool_used (get_pool False (pm st)) \<and>
       pool_used (get_pool False p) = insert (unat (pg_no a)) (pool_used (get_pool False (pm st))) \<and>
       (\<forall>x. mem p x = (if pg_no x = pg_no a then 0 else mem (pm st) x))"
    using palloc_page [OF pd_okD(1) [OF ok], of PAL_ZERO] by (auto simp: PAL_ZERO_def PAL_ASSERT_def PAL_USER_def)
  show ?thesis
  proof (cases "a = 0")
    case True
    then show ?thesis using a(1,3) z ok va pd_okD(4) [OF ok] by (simp add: lookup_page_def Let_def)
  next
    case False
    then have af: "pg_ofs a = 0" "is_kernel_vaddr a" "unat (pg_no a) \<notin> pool_used (get_pool False (pm st))"
      "pool_used (get_pool False p) = insert (unat (pg_no a)) (pool_used (get_pool False (pm st)))"
      "\<And>x. mem p x = (if pg_no x = pg_no a then 0 else mem (pm st) x)" using a(4) by auto
    obtain e where e: "pde_create a = Some e" using af(1,2) by (auto simp: pde_create_def vtop_def)
    note inst = install_table [OF ok va z af(1,3) a(2) af(4,5) e refl]
    have "lookup_page st pd va True =
        Some (cell a (pt_no va), store_word (st\<lparr>pm := p\<rparr>) (cell pd (pd_no va)) e)"
      using a(1) z e False pd_okD(4) [OF ok] va inst(2) pde_create_get [OF e] by (simp add: lookup_page_def Let_def)
    moreover have "pte_addr (store_word (st\<lparr>pm := p\<rparr>) (cell pd (pd_no va)) e) pd va = Some (cell a (pt_no va))"
      using inst(3) by (simp add: pte_addr_def)
    moreover from pte_addr_page [OF inst(1) va this] have "cell a (pt_no va) \<noteq> 0" by blast
    ultimately show ?thesis using inst(1,4) by auto
  qed
qed

section \<open>The operations on entries\<close>

lemma pte_of_None: "pte_addr st pd va = None \<Longrightarrow> pte_of st pd va = 0"
  by (simp add: pte_of_def)

lemma pagedir_get_page_ok:
  assumes "pd_ok st pd" and "is_user_vaddr ua"
  shows "pagedir_get_page st pd ua =
           (if bit (pte_of st pd ua) 0 then map_option (\<lambda>p. p + pg_ofs ua) (pte_get_page (pte_of st pd ua)) else Some 0)"
proof (cases "pte_addr st pd ua")
  case None
  then show ?thesis
    using assms lookup_page_no_create [OF assms] by (simp add: pagedir_get_page_def pte_of_None)
next
  case (Some a)
  have "a \<noteq> 0" using pte_addr_page [OF assms Some] by blast
  then show ?thesis
    using assms(2) Some lookup_page_no_create [OF assms] pte_test(1) [of "load_word st a"]
    by (cases "pte_get_page (load_word st a)") (auto simp: pagedir_get_page_def pte_of_def)
qed

lemma pagedir_set_page_ok:
  assumes ok: "pd_ok st pd" and up: "pg_ofs upage = 0" "is_user_vaddr upage" "\<not> bit (pte_of st pd upage) 0"
    and kp: "pg_ofs kpage = 0" "vtop kpage = Some p" "unat (drop_bit 12 p) < init_ram_pages st"
    and pd: "pd \<noteq> init_page_dir st"
  shows "\<exists>r st'. pagedir_set_page st pd upage kpage w = Some (r, st') \<and> pd_ok st' pd \<and> (\<not> r \<longrightarrow> st' = st) \<and>
           (r \<longrightarrow> (\<exists>e. pte_create_user kpage w = Some e \<and> only_entry st st' pd upage e))"
proof -
  obtain a st1 where l: "lookup_page st pd upage True = Some (a, st1)" "pd_ok st1 pd" "a = 0 \<longrightarrow> st1 = st"
    "a \<noteq> 0 \<longrightarrow> pte_addr st1 pd upage = Some a"
    "\<forall>va. is_user_vaddr va \<longrightarrow> pte_of st1 pd va = pte_of st pd va"
    using lookup_page_create [OF ok up(2)] by auto
  obtain e where e: "pte_create_user kpage w = Some e"
    using pte_create_user_defined kp(1,2) by (auto simp: vtop_def)
  show ?thesis
  proof (cases "a = 0")
    case True
    then show ?thesis using l up kp pd ok by (intro exI [of _ False] exI [of _ st]) (simp add: pagedir_set_page_def)
  next
    case False
    then have a: "pte_addr st1 pd upage = Some a" using l(4) by simp
    then have "load_word st1 a = pte_of st pd upage" using l(5) [rule_format, OF up(2)] by (simp add: pte_of_def [of st1])
    then have "load_word st1 a AND PTE_P = 0" using up(3) pte_test(1) [of "load_word st1 a"] by simp
    then have "pagedir_set_page st pd upage kpage w = Some (True, store_word st1 a e)"
      using l(1) up kp pd e False by (simp add: pagedir_set_page_def)
    moreover have "only_entry st (store_word st1 a e) pd upage e"
      unfolding only_entry_def using store_pte(2) [OF l(2) up(2) a, of _ e] l(5) by simp
    ultimately show ?thesis using store_pte(1) [OF l(2) up(2) a, of e] e by blast
  qed
qed

text \<open>Changing bits of an existing entry.\<close>

definition cr3_ok :: "mmu \<Rightarrow> bool" where
  "cr3_ok st \<longleftrightarrow> cr3 st < PHYS_BASE"

lemma pd_ok_cr3 [simp]: "pd_ok (st\<lparr>cr3 := c\<rparr>) pd = pd_ok st pd"
  by (simp add: pd_ok_def kpage_used_def load_word_def table_of_def)

lemma pte_of_cr3 [simp]: "pte_of (st\<lparr>cr3 := c\<rparr>) pd va = pte_of st pd va"
proof -
  have "load_word (st\<lparr>cr3 := c\<rparr>) = load_word st" by (rule ext) (simp add: load_word_def)
  then show ?thesis by (simp add: pte_of_def pte_addr_def table_of_def cong: option.case_cong)
qed

lemma pte_addr_cr3 [simp]: "pte_addr (st\<lparr>cr3 := c\<rparr>) pd va = pte_addr st pd va"
  by (simp add: pte_addr_def table_of_def load_word_def)

lemma invalidate_pagedir_ok:
  assumes "pd_ok st pd" and "cr3_ok st"
  shows "\<exists>c. invalidate_pagedir st pd = Some (st\<lparr>cr3 := c\<rparr>) \<and> c < PHYS_BASE"
proof -
  obtain v where v: "vtop pd = Some v"
    using kpage_kernel [OF pd_okD(1,3) [OF assms(1)]] by (simp add: vtop_def)
  then have "v < PHYS_BASE" using vtop_ptov [OF v] by (simp add: ptov_def)
  then show ?thesis
    using v assms(2) pd_okD(4) [OF assms(1)]
    by (cases "cr3 st + PHYS_BASE = pd")
      (auto simp: invalidate_pagedir_def active_pd_def ptov_def cr3_ok_def pagedir_activate_def Let_def
        intro: exI [of _ "cr3 st"])
qed

lemma update_entry:
  assumes "pd_ok st pd" and "is_user_vaddr va" and "pte_addr st pd va = Some a" and "cr3_ok st"
  shows "\<exists>st'. invalidate_pagedir (store_word st a v) pd = Some st' \<and> pd_ok st' pd \<and> cr3_ok st' \<and>
           only_entry st st' pd va v \<and> pte_addr st' pd va = Some a"
proof -
  note s = store_pte [OF assms(1-3), where v = v]
  have "cr3_ok (store_word st a v)" using assms(4) by (simp add: cr3_ok_def)
  from invalidate_pagedir_ok [OF s(1) this] s show ?thesis by (auto simp: cr3_ok_def only_entry_def)
qed

lemma pte_of_page: "pg_no va = pg_no va' \<Longrightarrow> pte_of st pd va = pte_of st pd va'"
  using pd_pt_no_iff [of va va'] by (simp add: pte_of_def pte_addr_def)

lemma only_entry_refl: "pte_of st pd va = v \<Longrightarrow> only_entry st st pd va v"
  using pte_of_page unfolding only_entry_def by metis

lemma clear_absent: "\<not> bit e 0 \<Longrightarrow> e AND NOT PTE_P = (e :: pte)"
proof (rule bit_word_eqI)
  fix n assume "\<not> bit e 0" "n < LENGTH(32)"
  then show "bit (e AND NOT PTE_P) n = bit e n"
    by (cases "n = 0") (simp_all add: bit_and_iff bit_not_iff bit_pte)
qed

lemma pagedir_clear_page_ok:
  assumes ok: "pd_ok st pd" and up: "pg_ofs upage = 0" "is_user_vaddr upage" and cr3: "cr3_ok st"
  shows "\<exists>st'. pagedir_clear_page st pd upage = Some st' \<and> pd_ok st' pd \<and> cr3_ok st' \<and>
           only_entry st st' pd upage (pte_of st pd upage AND NOT PTE_P)"
proof (cases "bit (pte_of st pd upage) 0")
  case True
  then obtain a where a: "pte_addr st pd upage = Some a" by (cases "pte_addr st pd upage") (auto simp: pte_of_None)
  then have p: "a \<noteq> 0" "pte_of st pd upage = load_word st a"
    using pte_addr_page [OF ok up(2) a] by (auto simp: pte_of_def)
  then have "pagedir_clear_page st pd upage = invalidate_pagedir (store_word st a (load_word st a AND NOT PTE_P)) pd"
    using True a up lookup_page_no_create [OF ok up(2)] pte_test(1) [of "load_word st a"]
    by (simp add: pagedir_clear_page_def)
  then show ?thesis using update_entry [OF ok up(2) a cr3, of "load_word st a AND NOT PTE_P"] p(2) by auto
next
  case False
  have "pagedir_clear_page st pd upage = Some st"
    using False lookup_page_no_create [OF ok up(2)] up pte_test(1) [of "pte_of st pd upage"]
    by (cases "pte_addr st pd upage") (auto simp: pagedir_clear_page_def pte_of_def)
  then show ?thesis using ok cr3 clear_absent [OF False] only_entry_refl [of st pd upage] by simp
qed




section \<open>Creating and destroying directories\<close>

lemma cell_bytes:
  assumes "pg_ofs p = 0" and "unat i < 1024"
  shows "pg_no (cell p i + 1) = pg_no p" "pg_no (cell p i + 2) = pg_no p" "pg_no (cell p i + 3) = pg_no p"
proof -
  obtain q where q: "unat p = 4096 * q" using assms(1) unfolding pg_ofs_zero_iff by (elim dvdE)
  have "(4096 * q + 4 * unat i + k) div 4096 = q" if "k < 4" for k using assms(2) that by simp
  from this [of 1] this [of 2] this [of 3]
  show "pg_no (cell p i + 1) = pg_no p" "pg_no (cell p i + 2) = pg_no p" "pg_no (cell p i + 3) = pg_no p"
    unfolding word_unat_eq_iff [of "pg_no _"] unat_pg_no
    using aligned4_cells [OF cell_addr(3) [OF assms]] cell_addr(1) [OF assms] q by simp_all
qed

lemma load_mem_copy:
  assumes "pg_ofs p = 0" and "unat i < 1024"
  shows "load32 (mem_copy m p src PGSIZE) (cell p i) = load32 m (cell src i)"
proof -
  have b: "mem_copy m p src PGSIZE x = m (src + (x - p))" if "pg_no x = pg_no p" for x
    using that page_offset [OF assms(1), of x] by (simp add: mem_copy_def PGSIZE_def)
  have e: "src + (cell p i + k - p) = cell src i + k" "src + (cell p i - p) = cell src i" for k
    by (simp_all add: cell_def)
  show ?thesis
    using cell_bytes [OF assms] cell_addr(2) [OF assms] by (simp add: load32_def b e)
qed

text \<open>
  A new directory holds the entries of the kernel's initial directory; when that has no user part,
  the new directory maps no user page.
\<close>

lemma pagedir_create_ok:
  assumes ok: "palloc_ok (pm st)" and init: "kpage_used st (init_page_dir st)" "pg_ofs (init_page_dir st) = 0"
    and empty: "\<And>i. unat i < 768 \<Longrightarrow> load_word st (cell (init_page_dir st) i) = 0"
  shows "\<exists>pd st'. pagedir_create st = Some (pd, st') \<and> (pd = 0 \<longrightarrow> st' = st) \<and>
           (pd \<noteq> 0 \<longrightarrow> pd_ok st' pd \<and> pd \<noteq> init_page_dir st \<and>
              (\<forall>i. unat i < 1024 \<longrightarrow> load_word st' (cell pd i) = load_word st (cell (init_page_dir st) i)))"
proof -
  obtain a p where a: "palloc_get_page (pm st) 0 = Some (a, p)" "palloc_ok p" "a = 0 \<longrightarrow> p = pm st"
    "a \<noteq> 0 \<longrightarrow> pg_ofs a = 0 \<and> unat (pg_no a) \<notin> pool_used (get_pool False (pm st)) \<and>
       pool_used (get_pool False p) = insert (unat (pg_no a)) (pool_used (get_pool False (pm st))) \<and>
       (\<forall>x. mem p x = mem (pm st) x)"
    using palloc_page [OF ok, of 0] by (auto simp: PAL_ASSERT_def PAL_USER_def)
  show ?thesis
  proof (cases "a = 0")
    case True
    then show ?thesis using a by (simp add: pagedir_create_def)
  next
    case False
    let ?st = "st\<lparr>pm := p\<lparr>mem := mem_copy (mem p) a (init_page_dir st) PGSIZE\<rparr>\<rparr>"
    have m: "mem p = mem (pm st)" using a(4) False by auto
    have l: "load_word ?st (cell a i) = load_word st (cell (init_page_dir st) i)" if "unat i < 1024" for i
      using load_mem_copy [of a i "mem p" "init_page_dir st"] that a(4) False by (simp add: load_word_def m)
    have "table_of ?st a i = None" if "unat i < 768" for i
      using that l [of i] empty [OF that] by (simp add: table_of_def)
    then have "pd_ok ?st a"
      using a(2,4) False l empty by (intro pd_okI) (auto simp: kpage_used_def)
    moreover have "a \<noteq> init_page_dir st" using init(1) a(4) False by (auto simp: kpage_used_def)
    ultimately show ?thesis using a(1) False l by (simp add: pagedir_create_def)
  qed
qed




lemma unat_small [simp]: "k < 1024 \<Longrightarrow> unat (of_nat k :: vaddr) = k"
  by (simp add: unat_of_nat)









section \<open>Properties of page directories\<close>

definition demo_mmu :: mmu where
  "demo_mmu = \<lparr>pm = demo_pmem, init_page_dir = 0xc0100000, init_ram_pages = 1024, cr3 = 0x100000\<rparr>"

lemma demo_load [simp]: "load_word demo_mmu a = 0"
  by (simp add: load_word_def demo_mmu_def demo_pmem_def load32_def)

lemma demo_pd_ok: "pd_ok demo_mmu 0xc0101000"
proof (rule pd_okI)
  show "kpage_used demo_mmu 0xc0101000"
    using demo_page_used by (simp add: kpage_used_def demo_mmu_def unat_pg_no)
  show "palloc_ok (pm demo_mmu)" using demo_pmem_ok by (simp add: demo_mmu_def)
qed (simp_all add: demo_page table_of_def)

lemma demo_pte_of: "pte_of demo_mmu pd va = 0"
  by (simp add: pte_of_def pte_addr_def table_of_def)

text \<open>C15: Mapping a user page that is not mapped never panics. If it returns true, every address of the page is
  translated to the frame at the same offset, and every other user address is translated exactly as
  before; if it returns false (no memory for a page table), nothing changed. The directory stays well
  formed: directory and tables are distinct allocated pages.\<close>

theorem pagedir_map_page:
  assumes "pd_ok st pd" and "pd \<noteq> init_page_dir st"
    and "pg_ofs upage = 0" and "is_user_vaddr upage" and "pagedir_get_page st pd upage = Some 0"
    and "\<not> bit (pte_of st pd upage) 0"
    and "pg_ofs kpage = 0" and "vtop kpage = Some p" and "unat (drop_bit 12 p) < init_ram_pages st"
  shows "\<exists>r st'. pagedir_install_page st pd upage kpage w = Some (r, st') \<and> pd_ok st' pd \<and> (\<not> r \<longrightarrow> st' = st) \<and>
           (r \<longrightarrow> (\<forall>va. is_user_vaddr va \<longrightarrow>
              pagedir_get_page st' pd va =
                (if pg_no va = pg_no upage then Some (kpage + pg_ofs va) else pagedir_get_page st pd va)))"
proof -
  obtain r st' where st': "pagedir_set_page st pd upage kpage w = Some (r, st')" "pd_ok st' pd" "\<not> r \<longrightarrow> st' = st"
    "r \<longrightarrow> (\<exists>e. pte_create_user kpage w = Some e \<and> only_entry st st' pd upage e)"
    using pagedir_set_page_ok [OF assms(1,3,4,6-9,2), of w] by blast
  have "pagedir_get_page st' pd va =
      (if pg_no va = pg_no upage then Some (kpage + pg_ofs va) else pagedir_get_page st pd va)"
    if "r" "is_user_vaddr va" for va
  proof -
    obtain e where e: "pte_create_user kpage w = Some e" "only_entry st st' pd upage e" using st'(4) \<open>r\<close> by blast
    then have "pte_of st' pd va = (if pg_no va = pg_no upage then e else pte_of st pd va)"
      using that(2) by (simp add: only_entry_def)
    then show ?thesis
      using pagedir_get_page_ok [OF st'(2) that(2)] pagedir_get_page_ok [OF assms(1) that(2)]
        pte_create_user_get [OF e(1)] by simp
  qed
  then show ?thesis using st' assms(5) by (simp add: pagedir_install_page_def)
qed

theorem pagedir_map_page_witness:
  "\<exists>r st'. pagedir_install_page demo_mmu 0xc0101000 0x8048000 0xc0201000 True = Some (r, st') \<and> pd_ok st' 0xc0101000"
proof -
  have "pg_ofs 0x8048000 = 0" "is_user_vaddr 0x8048000" "pg_ofs 0xc0201000 = 0" "vtop 0xc0201000 = Some 0x201000"
    "unat (drop_bit 12 0x201000 :: vaddr) < init_ram_pages demo_mmu" "0xc0101000 \<noteq> init_page_dir demo_mmu"
    by (simp_all add: pg_ofs_def PGMASK_def is_user_vaddr_def PHYS_BASE_def vtop_def is_kernel_vaddr_def demo_mmu_def)
  moreover have "pagedir_get_page demo_mmu 0xc0101000 0x8048000 = Some 0" "\<not> bit (pte_of demo_mmu 0xc0101000 0x8048000) 0"
    using pagedir_get_page_ok [OF demo_pd_ok, of "0x8048000"] calculation(2) by (simp_all add: demo_pte_of)
  ultimately show ?thesis using pagedir_map_page [OF demo_pd_ok, of "0x8048000" "0xc0201000" "0x201000" True] by blast
qed

text \<open>C16: Clearing a page never panics; afterwards no address of the page is translated, every other user page
  is translated as before, and the other bits of the entry are kept.\<close>

theorem pagedir_unmap_page:
  assumes "pd_ok st pd" and "cr3_ok st" and "pg_ofs upage = 0" and "is_user_vaddr upage"
  shows "\<exists>st'. pagedir_clear_page st pd upage = Some st' \<and> pd_ok st' pd \<and>
           pte_of st' pd upage = pte_of st pd upage AND NOT PTE_P \<and>
           (\<forall>va. is_user_vaddr va \<longrightarrow>
              pagedir_get_page st' pd va = (if pg_no va = pg_no upage then Some 0 else pagedir_get_page st pd va))"
proof -
  obtain st' where st': "pagedir_clear_page st pd upage = Some st'" "pd_ok st' pd"
    "only_entry st st' pd upage (pte_of st pd upage AND NOT PTE_P)"
    using pagedir_clear_page_ok [OF assms(1,3,4,2)] by blast
  have "\<not> bit (pte_of st pd upage AND NOT PTE_P) 0" by (simp add: bit_and_iff bit_not_iff bit_pte)
  then show ?thesis
    using st' assms(4) pagedir_get_page_ok [OF assms(1)] pagedir_get_page_ok [OF st'(2)]
    by (intro exI [of _ st']) (simp add: only_entry_def)
qed

theorem pagedir_unmap_page_witness:
  "\<exists>st'. pagedir_clear_page demo_mmu 0xc0101000 0x8048000 = Some st' \<and> pd_ok st' 0xc0101000"
  using pagedir_unmap_page [OF demo_pd_ok, of "0x8048000"]
  by (auto simp: cr3_ok_def demo_mmu_def PHYS_BASE_def pg_ofs_def PGMASK_def is_user_vaddr_def)









end
