(* ===== verification/Hash.thy ===== *)
theory Hash
  imports Prelude "HOL-Library.Multiset"
begin

text \<open>
  \<open>lib/kernel/hash.c\<close>: chained hash tables. A bucket is the list of the elements it holds
  (the lists of \<open>list.c\<close>, whose operations are refined to lists elsewhere: pushing to the front
  is \<open>Cons\<close>, unlinking removes the element). The caller's hash and comparison functions are
  arguments; the outcome of each \<open>malloc\<close> is an argument too. The contract on the caller's
  functions is the locale \<open>hash_key\<close>, what the table promises in return is \<open>keyed_set\<close>.
\<close>

unbundle bit_operations_syntax

section \<open>Hash functions\<close>

definition FNV_32_PRIME :: "32 word" where "FNV_32_PRIME = 16777619"
definition FNV_32_BASIS :: "32 word" where "FNV_32_BASIS = 2166136261"

fun hash_bytes_loop :: "32 word \<Rightarrow> 8 word list \<Rightarrow> 32 word" where
  "hash_bytes_loop hash [] = hash"
| "hash_bytes_loop hash (b # buf) = hash_bytes_loop ((hash * FNV_32_PRIME) XOR ucast b) buf"

definition hash_bytes :: "8 word list \<Rightarrow> 32 word" where
  "hash_bytes buf = hash_bytes_loop FNV_32_BASIS buf"

fun hash_string_loop :: "32 word \<Rightarrow> 8 word list \<Rightarrow> 32 word option" where
  "hash_string_loop hash [] = None"
| "hash_string_loop hash (b # s) =
     (if b \<noteq> 0 then hash_string_loop ((hash * FNV_32_PRIME) XOR ucast b) s else Some hash)"

definition hash_string :: "8 word list \<Rightarrow> 32 word option" where
  "hash_string s = hash_string_loop FNV_32_BASIS s"

text \<open>The bytes of an \<open>int\<close>, least significant first.\<close>

definition int_bytes :: "32 word \<Rightarrow> 8 word list" where
  "int_bytes i = [ucast i, ucast (drop_bit 8 i), ucast (drop_bit 16 i), ucast (drop_bit 24 i)]"

definition hash_int :: "32 word \<Rightarrow> 32 word" where
  "hash_int i = hash_bytes (int_bytes i)"

section \<open>Tables\<close>

record 'a hash =
  h_elem_cnt :: nat
  h_bucket_cnt :: nat
  h_buckets :: "'a list list"

type_synonym 'a hash_hash_func = "'a \<Rightarrow> 32 word"
type_synonym 'a hash_less_func = "'a \<Rightarrow> 'a \<Rightarrow> bool"

definition bucket_idx :: "'a hash_hash_func \<Rightarrow> nat \<Rightarrow> 'a \<Rightarrow> nat" where
  "bucket_idx hf bucket_cnt e = unat (hf e AND (of_nat bucket_cnt - 1))"

definition find_bucket :: "'a hash_hash_func \<Rightarrow> 'a hash \<Rightarrow> 'a \<Rightarrow> nat" where
  "find_bucket hf h e = bucket_idx hf (h_bucket_cnt h) e"

fun find_elem :: "'a hash_less_func \<Rightarrow> 'a list \<Rightarrow> 'a \<Rightarrow> 'a option" where
  "find_elem lt [] e = None"
| "find_elem lt (hi # bucket) e = (if \<not> lt hi e \<and> \<not> lt e hi then Some hi else find_elem lt bucket e)"

definition insert_elem :: "'a hash \<Rightarrow> nat \<Rightarrow> 'a \<Rightarrow> 'a hash" where
  "insert_elem h i e =
     h\<lparr>h_elem_cnt := wrap32 (h_elem_cnt h + 1), h_buckets := (h_buckets h)[i := e # h_buckets h ! i]\<rparr>"

text \<open>Unlinking an element takes it out of whichever bucket list holds it.\<close>

definition remove_elem :: "'a hash \<Rightarrow> 'a \<Rightarrow> 'a hash" where
  "remove_elem h e = h\<lparr>h_elem_cnt := h_elem_cnt h - 1, h_buckets := map (remove1 e) (h_buckets h)\<rparr>"

definition turn_off_least_1bit :: "nat \<Rightarrow> nat" where
  "turn_off_least_1bit x = (x AND (x - 1))"

definition is_power_of_2 :: "nat \<Rightarrow> bool" where
  "is_power_of_2 x \<longleftrightarrow> x \<noteq> 0 \<and> turn_off_least_1bit x = 0"

partial_function (option) round_bucket_cnt :: "nat \<Rightarrow> nat option" where
  "round_bucket_cnt n = (if is_power_of_2 n then Some n else round_bucket_cnt (turn_off_least_1bit n))"

text \<open>The inner and outer loops that move every element to the front of its new bucket.\<close>

fun move_bucket :: "'a hash_hash_func \<Rightarrow> 'a hash \<Rightarrow> 'a list \<Rightarrow> 'a hash" where
  "move_bucket hf h [] = h"
| "move_bucket hf h (elem # bucket) =
     (let i = find_bucket hf h elem
      in move_bucket hf (h\<lparr>h_buckets := (h_buckets h)[i := elem # h_buckets h ! i]\<rparr>) bucket)"

fun move_buckets :: "'a hash_hash_func \<Rightarrow> 'a hash \<Rightarrow> 'a list list \<Rightarrow> 'a hash" where
  "move_buckets hf h [] = h"
| "move_buckets hf h (bucket # old) = move_buckets hf (move_bucket hf h bucket) old"

definition rehash :: "'a hash_hash_func \<Rightarrow> bool \<Rightarrow> 'a hash \<Rightarrow> 'a hash option" where
  "rehash hf malloc_ok h = do {
     let new_bucket_cnt = h_elem_cnt h div 2;
     let new_bucket_cnt = (if new_bucket_cnt < 4 then 4 else new_bucket_cnt);
     new_bucket_cnt \<leftarrow> round_bucket_cnt new_bucket_cnt;
     if new_bucket_cnt = h_bucket_cnt h then Some h
     else if \<not> malloc_ok then Some h
     else Some (move_buckets hf
            (h\<lparr>h_buckets := replicate new_bucket_cnt [], h_bucket_cnt := new_bucket_cnt\<rparr>) (h_buckets h)) }"

text \<open>\<open>hash_clear\<close> returns the table and the elements its destructor was called on, in order.\<close>

fun clear_buckets :: "bool \<Rightarrow> 'a list list \<Rightarrow> 'a list list \<times> 'a list" where
  "clear_buckets destructor [] = ([], [])"
| "clear_buckets destructor (bucket # bs) =
     (let (bs', called) = clear_buckets destructor bs
      in ([] # bs', if destructor then bucket @ called else called))"

definition hash_clear :: "'a hash \<Rightarrow> bool \<Rightarrow> 'a hash \<times> 'a list" where
  "hash_clear h destructor =
     (let (bs, called) = clear_buckets destructor (h_buckets h)
      in (h\<lparr>h_buckets := bs, h_elem_cnt := 0\<rparr>, called))"

text \<open>The array that \<open>malloc\<close> returned holds whatever lists the memory happens to encode.\<close>

definition hash_init :: "'a list list option \<Rightarrow> 'a hash option" where
  "hash_init malloc =
     (case malloc of
        Some bs \<Rightarrow> Some (fst (hash_clear \<lparr>h_elem_cnt = 0, h_bucket_cnt = 4, h_buckets = bs\<rparr> False))
      | None \<Rightarrow> None)"

definition hash_destroy :: "'a hash \<Rightarrow> bool \<Rightarrow> 'a list" where
  "hash_destroy h destructor = (if destructor then snd (hash_clear h True) else [])"

definition hash_insert ::
  "'a hash_hash_func \<Rightarrow> 'a hash_less_func \<Rightarrow> bool \<Rightarrow> 'a hash \<Rightarrow> 'a \<Rightarrow> ('a option \<times> 'a hash) option" where
  "hash_insert hf lt malloc_ok h e = do {
     let i = find_bucket hf h e;
     let old = find_elem lt (h_buckets h ! i) e;
     let h = (if old = None then insert_elem h i e else h);
     h \<leftarrow> rehash hf malloc_ok h;
     Some (old, h) }"

definition hash_replace ::
  "'a hash_hash_func \<Rightarrow> 'a hash_less_func \<Rightarrow> bool \<Rightarrow> 'a hash \<Rightarrow> 'a \<Rightarrow> ('a option \<times> 'a hash) option" where
  "hash_replace hf lt malloc_ok h e = do {
     let i = find_bucket hf h e;
     let old = find_elem lt (h_buckets h ! i) e;
     let h = (case old of None \<Rightarrow> h | Some x \<Rightarrow> remove_elem h x);
     let h = insert_elem h i e;
     h \<leftarrow> rehash hf malloc_ok h;
     Some (old, h) }"

definition hash_find :: "'a hash_hash_func \<Rightarrow> 'a hash_less_func \<Rightarrow> 'a hash \<Rightarrow> 'a \<Rightarrow> 'a option" where
  "hash_find hf lt h e = find_elem lt (h_buckets h ! find_bucket hf h e) e"

definition hash_delete ::
  "'a hash_hash_func \<Rightarrow> 'a hash_less_func \<Rightarrow> bool \<Rightarrow> 'a hash \<Rightarrow> 'a \<Rightarrow> ('a option \<times> 'a hash) option" where
  "hash_delete hf lt malloc_ok h e =
     (case find_elem lt (h_buckets h ! find_bucket hf h e) e of
        None \<Rightarrow> Some (None, h)
      | Some found \<Rightarrow> do { h \<leftarrow> rehash hf malloc_ok (remove_elem h found); Some (Some found, h) })"

text \<open>\<open>hash_apply\<close> as the sequence of elements its action is called on.\<close>

fun apply_buckets :: "'a list list \<Rightarrow> 'a list" where
  "apply_buckets [] = []"
| "apply_buckets (bucket # bs) = bucket @ apply_buckets bs"

definition hash_apply :: "'a hash \<Rightarrow> 'a list" where
  "hash_apply h = apply_buckets (h_buckets h)"

definition hash_size :: "'a hash \<Rightarrow> nat" where
  "hash_size h = h_elem_cnt h"

definition hash_empty :: "'a hash \<Rightarrow> bool" where
  "hash_empty h \<longleftrightarrow> h_elem_cnt h = 0"

section \<open>Iterators\<close>

text \<open>
  An iterator points to the head of its bucket's list, to an element, or is null at the end. The
  element after the head is the first of the list; the tail of the list is \<open>None\<close>.
\<close>

datatype 'a hash_pos = At_Head | At_Elem 'a | At_Null

record 'a hash_iterator =
  it_bucket :: nat
  it_elem :: "'a hash_pos"

fun elem_after :: "'a \<Rightarrow> 'a list \<Rightarrow> 'a option" where
  "elem_after e [] = None"
| "elem_after e (x # xs) = (if x = e then (case xs of [] \<Rightarrow> None | y # _ \<Rightarrow> Some y) else elem_after e xs)"

definition first_elem :: "'a list \<Rightarrow> 'a option" where
  "first_elem xs = (case xs of [] \<Rightarrow> None | x # _ \<Rightarrow> Some x)"

definition hash_first :: "'a hash_iterator" where
  "hash_first = \<lparr>it_bucket = 0, it_elem = At_Head\<rparr>"

text \<open>The loop over empty buckets; the last argument counts the buckets from \<open>b\<close> on.\<close>

fun next_bucket :: "'a hash \<Rightarrow> nat \<Rightarrow> nat \<Rightarrow> 'a hash_iterator" where
  "next_bucket h b 0 = \<lparr>it_bucket = b, it_elem = At_Null\<rparr>"
| "next_bucket h b (Suc n) =
     (case first_elem (h_buckets h ! b) of
        None \<Rightarrow> next_bucket h (b + 1) n
      | Some e \<Rightarrow> \<lparr>it_bucket = b, it_elem = At_Elem e\<rparr>)"

definition hash_next :: "'a hash \<Rightarrow> 'a hash_iterator \<Rightarrow> 'a hash_iterator option" where
  "hash_next h i =
     (let bucket = h_buckets h ! it_bucket i in
      case it_elem i of
        At_Null \<Rightarrow> None
      | p \<Rightarrow> (case (case p of At_Elem e \<Rightarrow> elem_after e bucket | _ \<Rightarrow> first_elem bucket) of
                Some e \<Rightarrow> Some (i\<lparr>it_elem := At_Elem e\<rparr>)
              | None \<Rightarrow> Some (next_bucket h (it_bucket i + 1) (h_bucket_cnt h - (it_bucket i + 1)))))"

definition hash_cur :: "'a hash_iterator \<Rightarrow> 'a option" where
  "hash_cur i = (case it_elem i of At_Elem e \<Rightarrow> Some e | _ \<Rightarrow> None)"

text \<open>The iteration idiom: the elements seen until \<open>hash_next\<close> returns null, in at most \<open>n\<close> steps.\<close>

fun hash_iterate :: "'a hash \<Rightarrow> 'a hash_iterator \<Rightarrow> nat \<Rightarrow> 'a list option" where
  "hash_iterate h i 0 = None"
| "hash_iterate h i (Suc n) = do {
     i \<leftarrow> hash_next h i;
     case hash_cur i of None \<Rightarrow> Some [] | Some e \<Rightarrow> map_option (Cons e) (hash_iterate h i n) }"

section \<open>Rounding the number of buckets\<close>

lemma bit_le_nat: "bit (n :: nat) k \<Longrightarrow> 2 ^ k \<le> n"
  by (metis bit_iff_odd div_less even_zero not_le)

lemma and_le_nat: "(x AND y :: nat) \<le> y"
  by (metis and.commute int_ops(9) nat_int_comparison(3) of_nat_and_eq AND_upper2 of_nat_0_le_iff)

lemma turn_off_keeps_top:
  assumes "2 ^ k < n" and "n < 2 ^ Suc k"
  shows "2 ^ k \<le> turn_off_least_1bit n" and "turn_off_least_1bit n < n"
proof -
  have "n div 2 ^ k = 1" "(n - 1) div 2 ^ k = 1" using assms by (simp_all add: div_nat_eqI)
  then have "bit n k" "bit (n - 1) k" by (simp_all add: bit_iff_odd)
  then have "bit (n AND (n - 1)) k" by (simp add: bit_and_iff)
  then show "2 ^ k \<le> turn_off_least_1bit n" unfolding turn_off_least_1bit_def by (rule bit_le_nat)
  have "n AND (n - 1) \<le> n - 1" by (rule and_le_nat)
  moreover have "0 < n" using assms(1) by (cases n) auto
  ultimately show "turn_off_least_1bit n < n" unfolding turn_off_least_1bit_def by linarith
qed

lemma is_power_of_2_iff:
  assumes "2 ^ k \<le> n" and "n < 2 ^ Suc k"
  shows "is_power_of_2 n \<longleftrightarrow> n = 2 ^ k"
proof (cases "n = 2 ^ k")
  case True
  have "(2 ^ k AND (mask k) :: nat) = 0"
    by (rule bit_eqI) (auto simp: bit_and_iff bit_exp_iff bit_mask_iff)
  then have "(2 ^ k AND (2 ^ k - 1) :: nat) = 0" unfolding mask_eq_exp_minus_1 .
  then show ?thesis using True by (simp add: is_power_of_2_def turn_off_least_1bit_def)
next
  case False
  then have "2 ^ k \<le> turn_off_least_1bit n" using turn_off_keeps_top [of k n] assms by simp
  then have "turn_off_least_1bit n \<noteq> 0" by (metis not_le zero_less_power zero_less_numeral)
  then show ?thesis using False by (simp add: is_power_of_2_def)
qed

lemma round_bucket_cnt_top:
  "2 ^ k \<le> n \<Longrightarrow> n < 2 ^ Suc k \<Longrightarrow> round_bucket_cnt n = Some (2 ^ k)"
proof (induction n rule: less_induct)
  case (less n)
  show ?case
  proof (cases "n = 2 ^ k")
    case True
    then show ?thesis using is_power_of_2_iff [OF less.prems] by (subst round_bucket_cnt.simps) simp
  next
    case False
    then have *: "2 ^ k \<le> turn_off_least_1bit n" "turn_off_least_1bit n < n"
      using turn_off_keeps_top [of k n] less.prems by simp_all
    then have "round_bucket_cnt (turn_off_least_1bit n) = Some (2 ^ k)" using less.IH less.prems(2) by simp
    then show ?thesis using False is_power_of_2_iff [OF less.prems] by (subst round_bucket_cnt.simps) simp
  qed
qed

lemma ex_top: "0 < n \<Longrightarrow> \<exists>k. 2 ^ k \<le> n \<and> n < 2 ^ Suc (k :: nat)" for n :: nat
  using ex_power_ivl1 [of 2 n] by simp

lemma round_bucket_cnt_ok:
  assumes "4 \<le> n"
  shows "\<exists>m. round_bucket_cnt n = Some m \<and> is_power_of_2 m \<and> 4 \<le> m \<and> m \<le> n \<and> n < 2 * m"
proof -
  obtain k where k: "2 ^ k \<le> n" "n < 2 ^ Suc k" using ex_top [of n] assms by auto
  have "k \<ge> 2"
  proof (rule ccontr)
    assume "\<not> k \<ge> 2"
    then have "k = 0 \<or> k = 1" by linarith
    then show False using k assms by auto
  qed
  then have "(2 :: nat) ^ 2 \<le> 2 ^ k" by (rule power_increasing) simp
  then have "4 \<le> (2 :: nat) ^ k" by simp
  moreover have "is_power_of_2 (2 ^ k)" using is_power_of_2_iff [of k "2 ^ k"] by simp
  ultimately show ?thesis using round_bucket_cnt_top [OF k] k by auto
qed

section \<open>The invariant\<close>

definition hash_eq :: "'a hash_less_func \<Rightarrow> 'a \<Rightarrow> 'a \<Rightarrow> bool" where
  "hash_eq lt a b \<longleftrightarrow> \<not> lt a b \<and> \<not> lt b a"

definition hash_elems :: "'a hash \<Rightarrow> 'a set" where
  "hash_elems h = set (concat (h_buckets h))"

text \<open>Every element is in the bucket its hash selects.\<close>

definition placed :: "'a hash_hash_func \<Rightarrow> nat \<Rightarrow> 'a list list \<Rightarrow> bool" where
  "placed hf n bs \<longleftrightarrow> length bs = n \<and> (\<forall>i<n. \<forall>e\<in>set (bs ! i). bucket_idx hf n e = i)"

definition cnt_ok :: "nat \<Rightarrow> bool" where
  "cnt_ok n \<longleftrightarrow> is_power_of_2 n \<and> 4 \<le> n \<and> n < 2 ^ 32"

text \<open>No element twice, and no two elements the comparison cannot tell apart.\<close>

definition unique_keys :: "'a hash_less_func \<Rightarrow> 'a list \<Rightarrow> bool" where
  "unique_keys lt xs \<longleftrightarrow> distinct xs \<and> (\<forall>a\<in>set xs. \<forall>b\<in>set xs. hash_eq lt a b \<longrightarrow> a = b)"

definition hash_ok :: "'a hash_hash_func \<Rightarrow> 'a hash_less_func \<Rightarrow> 'a hash \<Rightarrow> bool" where
  "hash_ok hf lt h \<longleftrightarrow>
     cnt_ok (h_bucket_cnt h) \<and> placed hf (h_bucket_cnt h) (h_buckets h) \<and>
     h_elem_cnt h = length (concat (h_buckets h)) \<and> h_elem_cnt h < 2 ^ 32 \<and>
     unique_keys lt (concat (h_buckets h))"

definition hash_room :: "'a hash \<Rightarrow> bool" where
  "hash_room h \<longleftrightarrow> h_elem_cnt h + 1 < 2 ^ 32"

lemma bucket_idx_less:
  assumes "0 < n" and "n < 2 ^ 32"
  shows "bucket_idx hf n e < n"
proof -
  have "hf e AND (of_nat n - 1) \<le> of_nat n - 1" by (simp add: word_and_le1)
  then have "unat (hf e AND (of_nat n - 1)) \<le> unat (of_nat n - 1 :: 32 word)" by (simp add: word_le_nat_alt)
  also have "of_nat n - 1 = (of_nat (n - 1) :: 32 word)" using assms(1) by (simp add: of_nat_diff)
  also have "unat (of_nat (n - 1) :: 32 word) = n - 1"
    unfolding unat_of_nat using assms by simp
  finally show ?thesis using assms(1) by (simp add: bucket_idx_def)
qed

lemma cnt_okD: "cnt_ok n \<Longrightarrow> bucket_idx hf n e < n"
  by (rule bucket_idx_less) (auto simp: cnt_ok_def)

lemma mset_concat_update:
  "i < length bs \<Longrightarrow> mset (concat (bs[i := ys])) + mset (bs ! i) = mset (concat bs) + mset ys"
proof (induction bs arbitrary: i)
  case (Cons b bs)
  then show ?case by (cases i) (simp_all add: ac_simps)
qed simp

lemma mset_concat_push:
  "i < length bs \<Longrightarrow> mset (concat (bs[i := e # bs ! i])) = add_mset e (mset (concat bs))"
  using mset_concat_update [of i bs "e # bs ! i"] by simp

lemma placed_push:
  "placed hf n bs \<Longrightarrow> cnt_ok n \<Longrightarrow> i = bucket_idx hf n e \<Longrightarrow> placed hf n (bs[i := e # bs ! i])"
  unfolding placed_def by (auto simp: nth_list_update cnt_okD split: if_splits)

lemma unique_keys_mset: "mset xs = mset ys \<Longrightarrow> unique_keys lt xs = unique_keys lt ys"
  unfolding unique_keys_def by (metis mset_eq_imp_distinct_iff mset_eq_setD)

lemma hash_ok_mset:
  assumes "hash_ok hf lt h" and "cnt_ok (h_bucket_cnt h')" and "placed hf (h_bucket_cnt h') (h_buckets h')"
    and "mset (concat (h_buckets h')) = mset (concat (h_buckets h))" and "h_elem_cnt h' = h_elem_cnt h"
  shows "hash_ok hf lt h' \<and> hash_elems h' = hash_elems h"
  using assms unique_keys_mset [OF assms(4), of lt] mset_eq_length [OF assms(4)] mset_eq_setD [OF assms(4)]
  by (simp add: hash_ok_def hash_elems_def)

section \<open>Rehashing\<close>

lemma move_bucket_ok:
  assumes "cnt_ok (h_bucket_cnt h)" and "placed hf (h_bucket_cnt h) (h_buckets h)"
  shows "\<exists>bs. move_bucket hf h xs = h\<lparr>h_buckets := bs\<rparr> \<and> placed hf (h_bucket_cnt h) bs \<and>
           mset (concat bs) = mset (concat (h_buckets h)) + mset xs"
  using assms
proof (induction xs arbitrary: h)
  case (Cons x xs)
  let ?i = "bucket_idx hf (h_bucket_cnt h) x"
  let ?h = "h\<lparr>h_buckets := (h_buckets h)[?i := x # h_buckets h ! ?i]\<rparr>"
  have "?i < length (h_buckets h)" using cnt_okD [OF Cons.prems(1)] Cons.prems(2) by (simp add: placed_def)
  note m = mset_concat_push [OF this, of x]
  have "placed hf (h_bucket_cnt ?h) (h_buckets ?h)" using placed_push [OF Cons.prems(2,1) refl] by simp
  with Cons.IH [of ?h] Cons.prems(1) show ?case using m by (auto simp: find_bucket_def Let_def)
next
  case Nil
  then show ?case by (intro exI [of _ "h_buckets h"]) simp
qed

lemma move_buckets_ok:
  assumes "cnt_ok (h_bucket_cnt h)" and "placed hf (h_bucket_cnt h) (h_buckets h)"
  shows "\<exists>bs. move_buckets hf h old = h\<lparr>h_buckets := bs\<rparr> \<and> placed hf (h_bucket_cnt h) bs \<and>
           mset (concat bs) = mset (concat (h_buckets h)) + mset (concat old)"
  using assms
proof (induction old arbitrary: h)
  case (Cons b old)
  obtain bs where bs: "move_bucket hf h b = h\<lparr>h_buckets := bs\<rparr>" "placed hf (h_bucket_cnt h) bs"
    "mset (concat bs) = mset (concat (h_buckets h)) + mset b"
    using move_bucket_ok [OF Cons.prems] by blast
  show ?case using Cons.IH [of "h\<lparr>h_buckets := bs\<rparr>"] bs Cons.prems(1) by (auto simp: ac_simps)
next
  case Nil
  then show ?case by (intro exI [of _ "h_buckets h"]) simp
qed

lemma move_bucket_cnt: "h_bucket_cnt (move_bucket hf h xs) = h_bucket_cnt h"
  by (induction xs arbitrary: h) (simp_all add: Let_def)

lemma move_buckets_cnt: "h_bucket_cnt (move_buckets hf h bs) = h_bucket_cnt h"
  by (induction bs arbitrary: h) (simp_all add: move_bucket_cnt)

lemma placed_replicate: "placed hf n (replicate n [])"
  by (simp add: placed_def)

lemma concat_replicate_Nil: "concat (replicate n []) = []"
  by (induction n) simp_all

lemma rehash_ok:
  assumes ok: "hash_ok hf lt h"
  shows "\<exists>h'. rehash hf m h = Some h' \<and> hash_ok hf lt h' \<and> hash_elems h' = hash_elems h \<and>
           h_elem_cnt h' = h_elem_cnt h"
proof -
  define n where "n = (if h_elem_cnt h div 2 < 4 then 4 else h_elem_cnt h div 2)"
  have "4 \<le> n" by (simp add: n_def)
  then obtain c where c: "round_bucket_cnt n = Some c" "is_power_of_2 c" "4 \<le> c" "c \<le> n"
    using round_bucket_cnt_ok [of n] by blast
  have "n < 2 ^ 32" using ok by (auto simp: hash_ok_def n_def)
  then have cnt: "cnt_ok c" using c by (simp add: cnt_ok_def)
  let ?h = "h\<lparr>h_buckets := replicate c [], h_bucket_cnt := c\<rparr>"
  obtain bs where bs: "move_buckets hf ?h (h_buckets h) = ?h\<lparr>h_buckets := bs\<rparr>" "placed hf c bs"
    "mset (concat bs) = mset (concat (h_buckets h))"
    using move_buckets_ok [of ?h hf "h_buckets h"] cnt by (auto simp: placed_replicate concat_replicate_Nil)
  have "hash_ok hf lt (?h\<lparr>h_buckets := bs\<rparr>) \<and> hash_elems (?h\<lparr>h_buckets := bs\<rparr>) = hash_elems h"
    by (rule hash_ok_mset [OF ok]) (simp_all add: cnt bs)
  then show ?thesis using ok c(1) bs(1) by (simp add: rehash_def Let_def n_def)
qed

section \<open>Searching a bucket, adding and removing an element\<close>

lemma find_elem_Some: "find_elem lt xs e = Some x \<Longrightarrow> x \<in> set xs \<and> hash_eq lt x e"
  by (induction xs) (auto simp: hash_eq_def split: if_splits)

lemma find_elem_None: "find_elem lt xs e = None \<longleftrightarrow> (\<forall>x\<in>set xs. \<not> hash_eq lt x e)"
  by (induction xs) (auto simp: hash_eq_def)

lemma in_hash_elems:
  assumes "placed hf n bs" and "cnt_ok n"
  shows "x \<in> set (concat bs) \<longleftrightarrow> x \<in> set (bs ! bucket_idx hf n x)"
proof
  assume "x \<in> set (concat bs)"
  then obtain b where "b \<in> set bs" "x \<in> set b" by auto
  then obtain i where "i < length bs" "x \<in> set (bs ! i)" by (metis in_set_conv_nth)
  moreover from this have "bucket_idx hf n x = i" using assms(1) by (auto simp: placed_def)
  ultimately show "x \<in> set (bs ! bucket_idx hf n x)" by simp
next
  assume "x \<in> set (bs ! bucket_idx hf n x)"
  moreover have "bucket_idx hf n x < length bs" using assms cnt_okD by (simp add: placed_def)
  ultimately show "x \<in> set (concat bs)" by (auto intro: nth_mem)
qed

lemma insert_elem_ok:
  assumes ok: "hash_ok hf lt h" and room: "hash_room h" and i: "i = find_bucket hf h e"
    and new: "\<forall>x\<in>hash_elems h. \<not> hash_eq lt x e" and irr: "hash_eq lt e e"
    and sym: "\<And>a b. hash_eq lt a b \<Longrightarrow> hash_eq lt b a"
  shows "hash_ok hf lt (insert_elem h i e)"
    and "hash_elems (insert_elem h i e) = insert e (hash_elems h)"
proof -
  let ?bs = "(h_buckets h)[i := e # h_buckets h ! i]"
  have cnt: "cnt_ok (h_bucket_cnt h)" and pl: "placed hf (h_bucket_cnt h) (h_buckets h)"
    using ok by (simp_all add: hash_ok_def)
  have "i < length (h_buckets h)" using cnt_okD [OF cnt] pl i by (simp add: placed_def find_bucket_def)
  note m = mset_concat_push [OF this, of e]
  have pl': "placed hf (h_bucket_cnt h) ?bs" using placed_push [OF pl cnt] i by (simp add: find_bucket_def)
  have "mset (concat ?bs) = mset (e # concat (h_buckets h))" using m by simp
  note this [THEN unique_keys_mset, of lt] this [THEN mset_eq_length] this [THEN mset_eq_setD]
  moreover have "unique_keys lt (e # concat (h_buckets h))"
    using ok new irr sym unfolding hash_ok_def unique_keys_def hash_elems_def by auto
  ultimately show "hash_ok hf lt (insert_elem h i e)"
    and "hash_elems (insert_elem h i e) = insert e (hash_elems h)"
    using ok pl' room by (simp_all add: hash_ok_def insert_elem_def hash_room_def wrap32_def hash_elems_def)
qed

lemma mset_concat_remove1:
  "distinct (concat bs) \<Longrightarrow> e \<in> set (concat bs) \<Longrightarrow>
     mset (concat (map (remove1 e) bs)) = mset (concat bs) - {#e#}"
proof (induction bs)
  case (Cons b bs)
  show ?case
  proof (cases "e \<in> set b")
    case True
    then have "e \<notin> set (concat bs)" using Cons.prems(1) by auto
    then have "map (remove1 e) bs = bs" by (intro map_idI) (auto simp: remove1_idem)
    then show ?thesis using True by simp
  next
    case False
    then have "e \<in># mset (concat bs)" using Cons.prems(2) by simp
    note diff_union_single_conv [OF this, of "mset b"]
    then show ?thesis using Cons False by (simp add: remove1_idem)
  qed
qed simp

lemma remove_elem_ok:
  assumes ok: "hash_ok hf lt h" and e: "e \<in> hash_elems h"
  shows "hash_ok hf lt (remove_elem h e)" and "hash_elems (remove_elem h e) = hash_elems h - {e}"
    and "h_elem_cnt (remove_elem h e) < h_elem_cnt h"
proof -
  have d: "distinct (concat (h_buckets h))" using ok by (simp add: hash_ok_def unique_keys_def)
  have okD: "cnt_ok (h_bucket_cnt h)" "h_elem_cnt h < 2 ^ 32" using ok by (simp_all add: hash_ok_def)
  have "mset (concat (map (remove1 e) (h_buckets h))) = mset (remove1 e (concat (h_buckets h)))"
    using mset_concat_remove1 [OF d] e by (simp add: hash_elems_def)
  note m = this [THEN unique_keys_mset, of lt] this [THEN mset_eq_length] this [THEN mset_eq_setD]
  have u: "unique_keys lt (remove1 e (concat (h_buckets h)))"
    using ok unfolding hash_ok_def unique_keys_def by (metis distinct_remove1 notin_set_remove1)
  have "placed hf (h_bucket_cnt h) (map (remove1 e) (h_buckets h))"
    using ok unfolding hash_ok_def placed_def by (metis length_map notin_set_remove1 nth_map)
  moreover have len: "length (remove1 e (concat (h_buckets h))) = h_elem_cnt h - 1" "0 < h_elem_cnt h"
    using ok e length_pos_if_in_set [of e "concat (h_buckets h)"]
    by (simp_all add: length_remove1 hash_ok_def hash_elems_def del: set_concat length_concat length_greater_0_conv)
  ultimately show "hash_ok hf lt (remove_elem h e)" "hash_elems (remove_elem h e) = hash_elems h - {e}"
    "h_elem_cnt (remove_elem h e) < h_elem_cnt h"
    using okD m u set_remove1_eq [OF d, of e]
    by (simp_all add: hash_ok_def remove_elem_def hash_elems_def
        del: set_concat length_concat length_greater_0_conv)
qed

section \<open>The contract of a keyed set\<close>

text \<open>
  What the clients of the table rely on: at most one element per key, found, inserted only when
  its key is absent, and deleted by key.
\<close>

locale keyed_set =
  fixes inv room :: "'s \<Rightarrow> bool" and elems :: "'s \<Rightarrow> 'a set" and same :: "'a \<Rightarrow> 'a \<Rightarrow> bool"
    and find :: "'s \<Rightarrow> 'a \<Rightarrow> 'a option"
    and ins del :: "'s \<Rightarrow> 'a \<Rightarrow> ('a option \<times> 's) option"
  assumes same_refl: "same a a" and same_sym: "same a b \<Longrightarrow> same b a"
    and same_trans: "same a b \<Longrightarrow> same b c \<Longrightarrow> same a c"
    and find_iff: "inv s \<Longrightarrow> find s e = Some x \<longleftrightarrow> x \<in> elems s \<and> same x e"
    and ins_law: "inv s \<Longrightarrow> room s \<Longrightarrow> \<exists>s'. ins s e = Some (find s e, s') \<and> inv s' \<and>
           elems s' = (if find s e = None then insert e (elems s) else elems s)"
    and del_law: "inv s \<Longrightarrow> \<exists>s'. del s e = Some (find s e, s') \<and> inv s' \<and>
           elems s' = {x \<in> elems s. \<not> same x e}"
begin

lemma unique: "inv s \<Longrightarrow> x \<in> elems s \<Longrightarrow> y \<in> elems s \<Longrightarrow> same x y \<Longrightarrow> x = y"
  using find_iff [of s y x] find_iff [of s y y] same_refl by simp

lemma find_None: "inv s \<Longrightarrow> find s e = None \<longleftrightarrow> (\<forall>x\<in>elems s. \<not> same x e)"
  using find_iff [of s e] by (metis not_None_eq)

lemma find_cong: "inv s \<Longrightarrow> same e x \<Longrightarrow> find s e = find s x"
  using find_iff same_sym same_trans by (metis not_None_eq)

lemma find_insert:
  assumes "inv s" and "room s" and ins: "ins s e = Some (old, s')"
  shows "inv s'" and "old = find s e"
    and "find s' x = (if same e x then (if old = None then Some e else old) else find s x)"
proof -
  show i: "inv s'" and old: "old = find s e" using ins_law [OF assms(1,2), of e] ins by auto
  have el: "elems s' = (if old = None then insert e (elems s) else elems s)"
    using ins_law [OF assms(1,2), of e] ins by auto
  have "find s' x = Some y \<longleftrightarrow> (if same e x then (if old = None then Some e else old) else find s x) = Some y" for y
  proof (cases "find s e")
    case None
    have "\<not> same y x" if "y \<in> elems s" "same e x"
      using None that find_None [OF assms(1), of e] same_sym [of e x] same_trans [of y x e] by blast
    then show ?thesis using None same_refl unfolding find_iff [OF i] el old
      by (auto simp: find_iff [OF assms(1)])
  next
    case (Some z)
    then have "elems s' = elems s" using el old by simp
    then have "find s' x = Some y \<longleftrightarrow> find s x = Some y" by (simp add: find_iff i assms(1))
    then show ?thesis using Some old find_cong [OF assms(1), of e x] by (cases "same e x") simp_all
  qed
  then show "find s' x = (if same e x then (if old = None then Some e else old) else find s x)"
    by (metis not_None_eq)
qed

lemma find_delete:
  assumes "inv s" and del: "del s e = Some (old, s')"
  shows "inv s'" and "old = find s e" and "find s' x = (if same e x then None else find s x)"
proof -
  show i: "inv s'" and "old = find s e" using del_law [OF assms(1), of e] del by auto
  have el: "elems s' = {x \<in> elems s. \<not> same x e}" using del_law [OF assms(1), of e] del by auto
  have "find s' x = Some y \<longleftrightarrow> (if same e x then None else find s x) = Some y" for y
  proof (cases "same e x")
    case True
    have "same y e" if "same y x" using same_trans [OF that same_sym [OF True]] .
    then show ?thesis using True by (auto simp: find_iff [OF i] el)
  next
    case False
    have "\<not> same y e" if "same y x" using False same_trans [OF same_sym that] by blast
    then show ?thesis using False by (auto simp: find_iff [OF i] find_iff [OF assms(1)] el)
  qed
  then show "find s' x = (if same e x then None else find s x)" by (metis not_None_eq)
qed

lemma insert_delete:
  assumes "inv s" and "room s" and "find s e = None"
    and "ins s e = Some (old, s1)" and "del s1 e = Some (old', s2)"
  shows "old' = Some e" and "elems s2 = elems s"
proof -
  have "inv s1" using find_insert(1) [OF assms(1,2,4)] .
  then show "old' = Some e"
    using find_insert(2) [OF assms(1,2,4)] find_insert(3) [OF assms(1,2,4), of e] find_delete(2) [OF _ assms(5)]
      assms(3) same_refl by simp
  with \<open>inv s1\<close> have "elems s2 = {x \<in> insert e (elems s). \<not> same x e}"
    using del_law [of s1 e] ins_law [OF assms(1,2), of e] assms(3,4,5) by auto
  then show "elems s2 = elems s" using find_None [OF assms(1), of e] assms(3) same_refl by auto
qed

end

text \<open>
  What the caller owes the table: the comparison is a strict weak order, and keys it cannot tell
  apart have the same hash.
\<close>

locale hash_key =
  fixes hf :: "'a hash_hash_func" and lt :: "'a hash_less_func"
  assumes lt_irrefl: "\<not> lt a a"
    and eq_trans: "hash_eq lt a b \<Longrightarrow> hash_eq lt b c \<Longrightarrow> hash_eq lt a c"
    and hf_cong: "hash_eq lt a b \<Longrightarrow> hf a = hf b"
begin

lemma eq_refl: "hash_eq lt a a"
  by (simp add: hash_eq_def lt_irrefl)

lemma eq_sym: "hash_eq lt a b \<Longrightarrow> hash_eq lt b a"
  by (simp add: hash_eq_def)

lemma find_in_bucket:
  assumes ok: "hash_ok hf lt h"
  shows "hash_find hf lt h e = Some x \<longleftrightarrow> x \<in> hash_elems h \<and> hash_eq lt x e"
proof -
  have pl: "placed hf (h_bucket_cnt h) (h_buckets h)" and cnt: "cnt_ok (h_bucket_cnt h)"
    and u: "unique_keys lt (concat (h_buckets h))" using ok by (simp_all add: hash_ok_def)
  let ?b = "h_buckets h ! find_bucket hf h e"
  have mem: "y \<in> set ?b \<longleftrightarrow> y \<in> hash_elems h" if "hash_eq lt y e" for y
    using in_hash_elems [OF pl cnt, of y] hf_cong [OF that]
    by (simp add: hash_elems_def find_bucket_def bucket_idx_def del: set_concat)
  show ?thesis
  proof
    assume "hash_find hf lt h e = Some x"
    then have "find_elem lt ?b e = Some x" by (simp add: hash_find_def)
    from find_elem_Some [OF this] show "x \<in> hash_elems h \<and> hash_eq lt x e" using mem [of x] by simp
  next
    assume x: "x \<in> hash_elems h \<and> hash_eq lt x e"
    then have "find_elem lt ?b e \<noteq> None" using mem [of x] by (auto simp: find_elem_None)
    then obtain y where y: "find_elem lt ?b e = Some y" by auto
    from find_elem_Some [OF this] have "hash_eq lt y e" "y \<in> hash_elems h" using mem [of y] by simp_all
    moreover have "hash_eq lt y x" using eq_trans [OF calculation(1)] eq_sym [of x e] x by simp
    ultimately have "y = x" using u x by (simp add: unique_keys_def hash_elems_def del: set_concat)
    then show "hash_find hf lt h e = Some x" using y by (simp add: hash_find_def)
  qed
qed

lemma find_None_iff: "hash_ok hf lt h \<Longrightarrow> hash_find hf lt h e = None \<longleftrightarrow> (\<forall>x\<in>hash_elems h. \<not> hash_eq lt x e)"
  using find_in_bucket [of h e] by (metis not_None_eq)

lemma insert_law:
  assumes ok: "hash_ok hf lt h" and room: "hash_room h"
  shows "\<exists>h'. hash_insert hf lt m h e = Some (hash_find hf lt h e, h') \<and> hash_ok hf lt h' \<and>
           hash_elems h' = (if hash_find hf lt h e = None then insert e (hash_elems h) else hash_elems h)"
proof -
  let ?h = "if hash_find hf lt h e = None then insert_elem h (find_bucket hf h e) e else h"
  have "hash_ok hf lt ?h \<and>
      hash_elems ?h = (if hash_find hf lt h e = None then insert e (hash_elems h) else hash_elems h)"
    using insert_elem_ok [OF ok room refl _ eq_refl eq_sym, of e] find_None_iff [OF ok, of e] ok by auto
  then show ?thesis using rehash_ok [of hf lt ?h m] by (auto simp: hash_insert_def hash_find_def)
qed

lemma same_key_unique:
  "hash_ok hf lt h \<Longrightarrow> hash_find hf lt h e = Some x \<Longrightarrow> hash_elems h - {x} = {y \<in> hash_elems h. \<not> hash_eq lt y e}"
  using find_in_bucket [of h e] by fastforce

lemma delete_law:
  assumes ok: "hash_ok hf lt h"
  shows "\<exists>h'. hash_delete hf lt m h e = Some (hash_find hf lt h e, h') \<and> hash_ok hf lt h' \<and>
           hash_elems h' = {x \<in> hash_elems h. \<not> hash_eq lt x e}"
proof (cases "hash_find hf lt h e")
  case None
  then show ?thesis using ok find_None_iff [OF ok, of e] by (auto simp: hash_delete_def hash_find_def)
next
  case (Some x)
  then have "x \<in> hash_elems h" using find_in_bucket [OF ok] by simp
  note r = remove_elem_ok [OF ok this]
  show ?thesis using rehash_ok [OF r(1), of m] r(2) Some same_key_unique [OF ok Some]
    by (auto simp: hash_delete_def hash_find_def)
qed

lemma find_replaced:
  assumes "hash_ok hf lt h" and "hash_ok hf lt h'"
    and "hash_elems h' = insert e {x \<in> hash_elems h. \<not> hash_eq lt x e}"
  shows "hash_find hf lt h' x = (if hash_eq lt e x then Some e else hash_find hf lt h x)"
proof -
  have "hash_find hf lt h' x = Some y \<longleftrightarrow>
      (if hash_eq lt e x then Some e else hash_find hf lt h x) = Some y" for y
  proof (cases "hash_eq lt e x")
    case True
    have "hash_eq lt y e" if "hash_eq lt y x" using eq_trans [OF that eq_sym [OF True]] .
    then show ?thesis using True assms(3) by (auto simp: find_in_bucket [OF assms(2)])
  next
    case False
    have "\<not> hash_eq lt y e" if "hash_eq lt y x" using False eq_trans [OF eq_sym that] by blast
    then show ?thesis using False assms(3)
      by (auto simp: find_in_bucket [OF assms(2)] find_in_bucket [OF assms(1)])
  qed
  then show ?thesis by (metis not_None_eq)
qed

lemma replace_law:
  assumes ok: "hash_ok hf lt h" and room: "hash_room h"
  shows "\<exists>h'. hash_replace hf lt m h e = Some (hash_find hf lt h e, h') \<and> hash_ok hf lt h' \<and>
           hash_elems h' = insert e {x \<in> hash_elems h. \<not> hash_eq lt x e}"
proof -
  let ?h = "case hash_find hf lt h e of None \<Rightarrow> h | Some x \<Rightarrow> remove_elem h x"
  have 1: "hash_ok hf lt ?h \<and> hash_elems ?h = {x \<in> hash_elems h. \<not> hash_eq lt x e} \<and> hash_room ?h \<and>
      h_bucket_cnt ?h = h_bucket_cnt h"
  proof (cases "hash_find hf lt h e")
    case None
    then show ?thesis using ok room find_None_iff [OF ok, of e] by auto
  next
    case (Some x)
    then have "x \<in> hash_elems h" using find_in_bucket [OF ok] by simp
    from remove_elem_ok [OF ok this] show ?thesis using Some room same_key_unique [OF ok Some]
      by (simp add: hash_room_def) (simp add: remove_elem_def)
  qed
  let ?i = "find_bucket hf h e"
  have i: "?i = find_bucket hf ?h e" using 1 by (simp add: find_bucket_def)
  have "hash_ok hf lt (insert_elem ?h ?i e)" "hash_elems (insert_elem ?h ?i e) = insert e (hash_elems ?h)"
    using insert_elem_ok [OF _ _ i _ eq_refl eq_sym] 1 by blast+
  then show ?thesis using rehash_ok [of hf lt "insert_elem ?h ?i e" m] 1
    by (auto simp: hash_replace_def hash_find_def Let_def)
qed

end

sublocale hash_key < keyed_set "hash_ok hf lt" hash_room hash_elems "hash_eq lt" "hash_find hf lt"
    "hash_insert hf lt m" "hash_delete hf lt m" for m
  using eq_refl eq_sym eq_trans find_in_bucket insert_law delete_law by unfold_locales blast+

context hash_key
begin

lemmas find_after_insert = find_insert(3)
lemmas find_after_delete = find_delete(3)

end

section \<open>Iteration\<close>

lemma apply_buckets_concat: "apply_buckets bs = concat bs"
  by (induction bs) simp_all

lemma elem_after_split: "e \<notin> set pre \<Longrightarrow> elem_after e (pre @ e # post) = first_elem post"
  by (induction pre) (auto simp: first_elem_def split: list.splits)

lemma next_bucket_cases:
  assumes "b + n = length (h_buckets h)"
  shows "(concat (drop b (h_buckets h)) = [] \<and> it_elem (next_bucket h b n) = At_Null) \<or>
         (\<exists>c e post. next_bucket h b n = \<lparr>it_bucket = c, it_elem = At_Elem e\<rparr> \<and> c < length (h_buckets h) \<and>
            h_buckets h ! c = e # post \<and>
            concat (drop b (h_buckets h)) = e # post @ concat (drop (Suc c) (h_buckets h)))"
  using assms
proof (induction n arbitrary: b)
  case (Suc n)
  have d: "drop b (h_buckets h) = h_buckets h ! b # drop (Suc b) (h_buckets h)"
    using Suc.prems by (intro Cons_nth_drop_Suc [symmetric]) simp
  show ?case
  proof (cases "h_buckets h ! b")
    case Nil
    then show ?thesis using Suc.IH [of "Suc b"] Suc.prems d by (simp add: first_elem_def)
  next
    case (Cons e post)
    then show ?thesis using Suc.prems d by (auto simp: first_elem_def)
  qed
qed simp

lemma hash_iterate_from:
  assumes "length (h_buckets h) = h_bucket_cnt h" and "distinct (concat (h_buckets h))"
    and "b < h_bucket_cnt h" and "h_buckets h ! b = pre @ e # post"
    and "n = Suc (length (post @ concat (drop (Suc b) (h_buckets h))))"
  shows "hash_iterate h \<lparr>it_bucket = b, it_elem = At_Elem e\<rparr> n
           = Some (post @ concat (drop (Suc b) (h_buckets h)))"
  using assms(3-5)
proof (induction n arbitrary: b pre e post)
  case (Suc n)
  have "distinct (h_buckets h ! b)" using assms(1,2) Suc.prems(1) by (simp add: distinct_concat_iff)
  then have after: "elem_after e (h_buckets h ! b) = first_elem post"
    using Suc.prems(2) by (simp add: elem_after_split)
  show ?case
  proof (cases post)
    case (Cons y ys)
    have "hash_iterate h \<lparr>it_bucket = b, it_elem = At_Elem y\<rparr> n = Some (ys @ concat (drop (Suc b) (h_buckets h)))"
      using Suc.IH [of b "pre @ [e]" y ys] Suc.prems Cons by simp
    then show ?thesis using after Cons by (simp add: hash_next_def hash_cur_def first_elem_def)
  next
    case Nil
    have "Suc b + (h_bucket_cnt h - Suc b) = length (h_buckets h)" using assms(1) Suc.prems(1) by simp
    from next_bucket_cases [OF this] show ?thesis
    proof (elim disjE exE conjE)
      assume "concat (drop (Suc b) (h_buckets h)) = []"
        and "it_elem (next_bucket h (Suc b) (h_bucket_cnt h - Suc b)) = At_Null"
      then show ?thesis using after Nil by (simp add: hash_next_def hash_cur_def first_elem_def)
    next
      fix c x xs
      assume c: "next_bucket h (Suc b) (h_bucket_cnt h - Suc b) = \<lparr>it_bucket = c, it_elem = At_Elem x\<rparr>"
        "c < length (h_buckets h)" "h_buckets h ! c = x # xs"
        "concat (drop (Suc b) (h_buckets h)) = x # xs @ concat (drop (Suc c) (h_buckets h))"
      have "hash_iterate h \<lparr>it_bucket = c, it_elem = At_Elem x\<rparr> n = Some (xs @ concat (drop (Suc c) (h_buckets h)))"
        using Suc.IH [of c "[]" x xs] Suc.prems c Nil assms(1) by simp
      then show ?thesis using after Nil c by (simp add: hash_next_def hash_cur_def first_elem_def)
    qed
  qed
qed simp

text \<open>Iteration visits what \<open>hash_apply\<close> visits, in the same order.\<close>

lemma hash_iterate_first:
  assumes "length (h_buckets h) = h_bucket_cnt h" and "distinct (concat (h_buckets h))" and "0 < h_bucket_cnt h"
  shows "hash_iterate h hash_first (Suc (length (concat (h_buckets h)))) = Some (concat (h_buckets h))"
proof -
  obtain b bs where bs: "h_buckets h = b # bs" using assms(1,3) by (cases "h_buckets h") auto
  let ?i = "next_bucket h 0 (h_bucket_cnt h)"
  have nxt: "hash_next h hash_first = Some ?i"
    using assms(1,3) bs by (cases "h_bucket_cnt h"; cases b) (auto simp: hash_next_def hash_first_def first_elem_def)
  have "0 + h_bucket_cnt h = length (h_buckets h)" using assms(1) by simp
  from next_bucket_cases [OF this] show ?thesis
  proof (elim disjE exE conjE)
    fix c x xs
    assume c: "?i = \<lparr>it_bucket = c, it_elem = At_Elem x\<rparr>" "c < length (h_buckets h)" "h_buckets h ! c = x # xs"
      "concat (drop 0 (h_buckets h)) = x # xs @ concat (drop (Suc c) (h_buckets h))"
    have "hash_iterate h \<lparr>it_bucket = c, it_elem = At_Elem x\<rparr> (length (concat (h_buckets h)))
        = Some (xs @ concat (drop (Suc c) (h_buckets h)))"
      by (rule hash_iterate_from [of h c "[]" x xs]) (use assms c in simp_all)
    then show ?thesis using nxt c by (simp add: hash_cur_def)
  qed (use assms nxt in \<open>simp_all add: hash_cur_def\<close>)
qed

lemma clear_buckets_eq: "clear_buckets d bs = (map (\<lambda>_. []) bs, if d then concat bs else [])"
  by (induction bs) (simp_all add: Let_def)

lemma concat_map_Nil: "concat (map (\<lambda>_. []) bs) = []"
  by (induction bs) simp_all

lemma hash_init_ok:
  assumes "length bs = 4"
  shows "\<exists>h. hash_init (Some bs) = Some h \<and> hash_ok hf lt h \<and> hash_elems h = {} \<and> hash_empty h"
proof -
  have "is_power_of_2 4" using is_power_of_2_iff [of 2 4] by simp
  then show ?thesis using assms
    by (simp add: hash_init_def hash_clear_def clear_buckets_eq hash_ok_def cnt_ok_def placed_def
        unique_keys_def concat_map_Nil hash_elems_def hash_empty_def)
qed

interpretation int_key: hash_key hash_int "(<)"
  by unfold_locales (auto simp: hash_eq_def)

section \<open>Properties\<close>

lemma hash_ok_size: "hash_ok hf lt h \<Longrightarrow> hash_size h = card (hash_elems h)"
  unfolding hash_ok_def unique_keys_def hash_elems_def hash_size_def by (metis distinct_card)

lemma hash_elems_finite: "finite (hash_elems h)"
  by (simp add: hash_elems_def)

text \<open>A table of page addresses, hashed by their bytes, for the instances below.\<close>

definition demo_hash :: "32 word hash" where
  "demo_hash = \<lparr>h_elem_cnt = 3, h_bucket_cnt = 4, h_buckets = [[], [0x8049000, 0x8048000], [], [0xbffff000]]\<rparr>"

lemma demo_key: "hash_key hash_int (<)"
  by (rule int_key.hash_key_axioms)

lemmas hash_int_eval = bucket_idx_def hash_int_def hash_bytes_def int_bytes_def FNV_32_PRIME_def FNV_32_BASIS_def

lemma demo_idx:
  "bucket_idx hash_int 4 0x8049000 = 1" "bucket_idx hash_int 4 0x8048000 = 1"
  "bucket_idx hash_int 4 0x804a000 = 1" "bucket_idx hash_int 4 0xbffff000 = 3"
  by (simp_all add: hash_int_eval)

lemma all_less_4: "(\<forall>i<4. P i) \<longleftrightarrow> P 0 \<and> P 1 \<and> P 2 \<and> P (3 :: nat)"
  by (auto simp: less_Suc_eq numeral_eq_Suc)

lemma demo_hash_ok: "hash_ok hash_int (<) demo_hash" "hash_room demo_hash"
proof -
  have "is_power_of_2 4" using is_power_of_2_iff [of 2 4] by simp
  moreover have "placed hash_int 4 (h_buckets demo_hash)"
    unfolding placed_def all_less_4 by (simp add: demo_hash_def demo_idx [unfolded One_nat_def])
  moreover have "unique_keys (<) (concat (h_buckets demo_hash))"
    by (simp add: unique_keys_def hash_eq_def demo_hash_def)
  ultimately show "hash_ok hash_int (<) demo_hash"
    by (simp add: hash_ok_def cnt_ok_def) (simp add: demo_hash_def)
  show "hash_room demo_hash" by (simp add: hash_room_def demo_hash_def)
qed

text \<open>C19: inserting never loops or loses an element, whatever the outcome of the allocation when the
  table is resized. It returns the element that was in the table under the same key. Afterwards a
  lookup of that key finds the old element if there was one and the new one otherwise, every other
  lookup is unchanged, and the table's invariant holds.\<close>

theorem hash_insert_find:
  assumes "hash_key hf lt" and "hash_ok hf lt h" and "hash_room h"
  shows "\<exists>old h'. hash_insert hf lt m h e = Some (old, h') \<and> hash_ok hf lt h' \<and>
      old = hash_find hf lt h e \<and>
      hash_size h' = hash_size h + (if old = None then 1 else 0) \<and>
      (\<forall>x. hash_find hf lt h' x =
        (if hash_eq lt e x then Some (case old of None \<Rightarrow> e | Some y \<Rightarrow> y) else hash_find hf lt h x))"
proof -
  let ?old = "hash_find hf lt h e"
  obtain h' where h': "hash_insert hf lt m h e = Some (?old, h')" "hash_ok hf lt h'"
      "hash_elems h' = (if ?old = None then insert e (hash_elems h) else hash_elems h)"
    using hash_key.insert_law [OF assms] by blast
  note f = hash_key.find_after_insert [OF assms h'(1)]
  have "?old = None \<Longrightarrow> e \<notin> hash_elems h"
    using hash_key.find_None_iff [OF assms(1,2), of e] hash_key.eq_refl [OF assms(1), of e] by auto
  then have "hash_size h' = hash_size h + (if ?old = None then 1 else 0)"
    using hash_ok_size [OF h'(2)] hash_ok_size [OF assms(2)] h'(3) hash_elems_finite [of h] by simp
  then show ?thesis using h' f by (auto split: option.splits)
qed

theorem hash_insert_find_witness:
  "hash_key hash_int (<) \<and> hash_ok hash_int (<) demo_hash \<and> hash_room demo_hash \<and>
   (\<exists>old h'. hash_insert hash_int (<) True demo_hash 0x804a000 = Some (old, h') \<and>
      hash_find hash_int (<) h' 0x804a000 = Some 0x804a000 \<and>
      hash_find hash_int (<) h' 0x8048000 = Some 0x8048000)"
proof -
  have 1: "hash_find hash_int (<) demo_hash 0x804a000 = None"
    "hash_find hash_int (<) demo_hash 0x8048000 = Some 0x8048000" by code_simp+
  obtain old h' where "hash_insert hash_int (<) True demo_hash 0x804a000 = Some (old, h')"
      "old = None" "hash_find hash_int (<) h' x =
        (if hash_eq (<) 0x804a000 x then Some 0x804a000 else hash_find hash_int (<) demo_hash x)" for x
    using hash_insert_find [OF demo_key demo_hash_ok, of True "0x804a000"] unfolding 1 by auto
  then show ?thesis using demo_key demo_hash_ok 1 by (auto simp: hash_eq_def)
qed

text \<open>C20: deleting a key returns the element that had it and leaves every other lookup unchanged;
  replacing an element returns the old one and leaves the new one under the key. Both keep the
  invariant and never fail, whatever the outcome of the allocation when the table is resized.\<close>

theorem hash_delete_replace_find:
  assumes "hash_key hf lt" and "hash_ok hf lt h"
  shows "(\<exists>h'. hash_delete hf lt m h e = Some (hash_find hf lt h e, h') \<and> hash_ok hf lt h' \<and>
           (\<forall>x. hash_find hf lt h' x = (if hash_eq lt e x then None else hash_find hf lt h x))) \<and>
         (hash_room h \<longrightarrow>
           (\<exists>h'. hash_replace hf lt m h e = Some (hash_find hf lt h e, h') \<and> hash_ok hf lt h' \<and>
              (\<forall>x. hash_find hf lt h' x = (if hash_eq lt e x then Some e else hash_find hf lt h x))))"
proof (intro conjI impI)
  obtain h' where h': "hash_delete hf lt m h e = Some (hash_find hf lt h e, h')" "hash_ok hf lt h'"
    using hash_key.delete_law [OF assms] by blast
  then show "\<exists>h'. hash_delete hf lt m h e = Some (hash_find hf lt h e, h') \<and> hash_ok hf lt h' \<and>
           (\<forall>x. hash_find hf lt h' x = (if hash_eq lt e x then None else hash_find hf lt h x))"
    using hash_key.find_after_delete [OF assms h'(1)] by auto
next
  assume "hash_room h"
  then obtain h' where h': "hash_replace hf lt m h e = Some (hash_find hf lt h e, h')" "hash_ok hf lt h'"
    "hash_elems h' = insert e {x \<in> hash_elems h. \<not> hash_eq lt x e}"
    using hash_key.replace_law [OF assms] by blast
  have "hash_find hf lt h' x = (if hash_eq lt e x then Some e else hash_find hf lt h x)" for x
    by (rule hash_key.find_replaced [OF assms(1,2) h'(2,3)])
  then show "\<exists>h'. hash_replace hf lt m h e = Some (hash_find hf lt h e, h') \<and> hash_ok hf lt h' \<and>
              (\<forall>x. hash_find hf lt h' x = (if hash_eq lt e x then Some e else hash_find hf lt h x))"
    using h' by auto
qed

theorem hash_delete_replace_find_witness:
  "hash_key hash_int (<) \<and> hash_ok hash_int (<) demo_hash \<and>
   (\<exists>h'. hash_delete hash_int (<) False demo_hash 0x8049000 = Some (Some 0x8049000, h') \<and>
      hash_find hash_int (<) h' 0x8049000 = None)"
proof -
  have "hash_find hash_int (<) demo_hash 0x8049000 = Some 0x8049000" by code_simp
  then show ?thesis
    using demo_key demo_hash_ok(1)
      hash_delete_replace_find [OF demo_key demo_hash_ok(1), THEN conjunct1, of False "0x8049000"]
    by (auto simp: hash_eq_def)
qed

text \<open>C21: resizing always ends. With memory available it leaves the largest power of two of buckets that
  is at most half the number of elements and at least four; without memory it changes nothing. The
  elements, their number and the invariant are unchanged.\<close>

theorem rehash_terminates:
  assumes "hash_ok hf lt h"
  shows "\<exists>h'. rehash hf m h = Some h' \<and> hash_ok hf lt h' \<and> hash_elems h' = hash_elems h \<and>
      hash_size h' = hash_size h \<and>
      (m \<longrightarrow> h_bucket_cnt h' \<le> max 4 (hash_size h div 2) \<and> max 4 (hash_size h div 2) < 2 * h_bucket_cnt h') \<and>
      (\<not> m \<longrightarrow> h' = h)"
proof -
  obtain h' where h': "rehash hf m h = Some h'" "hash_ok hf lt h'" "hash_elems h' = hash_elems h"
    "h_elem_cnt h' = h_elem_cnt h" using rehash_ok [OF assms] by blast
  define n where "n = (if h_elem_cnt h div 2 < 4 then 4 else h_elem_cnt h div 2)"
  have n: "n = max 4 (h_elem_cnt h div 2)" "4 \<le> n" by (auto simp: n_def)
  obtain c where c: "round_bucket_cnt n = Some c" "c \<le> n" "n < 2 * c" using round_bucket_cnt_ok [OF n(2)] by blast
  have "h_bucket_cnt (move_buckets hf g bs) = h_bucket_cnt g" for g :: "'a hash" and bs by (rule move_buckets_cnt)
  then have "m \<Longrightarrow> h_bucket_cnt h' = c" and "\<not> m \<Longrightarrow> h' = h"
    using h'(1) c(1) by (auto simp: rehash_def Let_def n_def split: if_splits)
  then show ?thesis using h' c(2,3) n(1) by (simp add: hash_size_def)
qed

theorem rehash_terminates_witness:
  "hash_ok hash_int (<) demo_hash \<and>
   (\<exists>h'. rehash hash_int True demo_hash = Some h' \<and> h_bucket_cnt h' \<le> 4)"
  using demo_hash_ok(1) rehash_terminates [OF demo_hash_ok(1), of True] by (auto simp: demo_hash_def hash_size_def)

text \<open>C22: iterating with \<open>hash_first\<close>, \<open>hash_next\<close> and \<open>hash_cur\<close> ends after one step more than there
  are elements; it visits every element exactly once, in the order in which \<open>hash_apply\<close> calls
  its action and \<open>hash_clear\<close> and \<open>hash_destroy\<close> call their destructor.\<close>

theorem hash_iterate_all:
  assumes "hash_ok hf lt h"
  shows "hash_iterate h hash_first (hash_size h + 1) = Some (hash_apply h) \<and>
      distinct (hash_apply h) \<and> set (hash_apply h) = hash_elems h \<and>
      hash_destroy h True = hash_apply h \<and>
      (\<exists>h'. hash_clear h True = (h', hash_apply h) \<and> hash_ok hf lt h' \<and> hash_elems h' = {} \<and> hash_empty h')"
proof -
  have 1: "length (h_buckets h) = h_bucket_cnt h" "distinct (concat (h_buckets h))" "0 < h_bucket_cnt h"
    "hash_size h = length (concat (h_buckets h))" "cnt_ok (h_bucket_cnt h)"
    using assms by (auto simp: hash_ok_def placed_def unique_keys_def cnt_ok_def hash_size_def)
  have ap: "hash_apply h = concat (h_buckets h)" by (simp add: hash_apply_def apply_buckets_concat)
  have cl: "hash_clear h True = (h\<lparr>h_buckets := map (\<lambda>_. []) (h_buckets h), h_elem_cnt := 0\<rparr>, hash_apply h)"
    by (simp add: hash_clear_def clear_buckets_eq ap)
  have "hash_ok hf lt (h\<lparr>h_buckets := map (\<lambda>_. []) (h_buckets h), h_elem_cnt := 0\<rparr>)"
    using 1 by (simp add: hash_ok_def placed_def unique_keys_def concat_map_Nil)
  then show ?thesis using hash_iterate_first [OF 1(1-3)] 1(2,4) cl
    by (simp add: ap hash_destroy_def hash_elems_def hash_empty_def)
qed

theorem hash_iterate_all_witness:
  "hash_ok hash_int (<) demo_hash \<and>
   hash_iterate demo_hash hash_first 4 = Some [0x8049000, 0x8048000, 0xbffff000]"
proof -
  have "hash_size demo_hash + 1 = 4" "hash_apply demo_hash = [0x8049000, 0x8048000, 0xbffff000]" by code_simp+
  then show ?thesis using demo_hash_ok(1) hash_iterate_all [OF demo_hash_ok(1)] by simp
qed

end
