(* ===== verification/Strings.thy ===== *)
theory Strings
  imports Vaddr
begin

text \<open>
  \<open>lib/string.c\<close> over the byte-addressed memory. Loops that run to a null terminator are partial
  functions: on memory without a terminator they have no result. A string is related to the
  bytes it holds by \<open>str_at\<close>; the routines are shown to compute the functions on byte lists that
  their names stand for. A null pointer is address 0.
\<close>

section \<open>Copying, filling and comparing blocks\<close>

fun memcpy_loop :: "memory \<Rightarrow> vaddr \<Rightarrow> vaddr \<Rightarrow> nat \<Rightarrow> memory" where
  "memcpy_loop m dst src 0 = m"
| "memcpy_loop m dst src (Suc sz) = memcpy_loop (m(dst := m src)) (dst + 1) (src + 1) sz"

definition memcpy :: "memory \<Rightarrow> vaddr \<Rightarrow> vaddr \<Rightarrow> nat \<Rightarrow> (memory \<times> vaddr) option" where
  "memcpy m dst src sz = do {
     c_assert (dst \<noteq> 0 \<or> sz = 0);
     c_assert (src \<noteq> 0 \<or> sz = 0);
     Some (memcpy_loop m dst src sz, dst) }"

fun memmove_back :: "memory \<Rightarrow> vaddr \<Rightarrow> vaddr \<Rightarrow> nat \<Rightarrow> memory" where
  "memmove_back m dst src 0 = m"
| "memmove_back m dst src (Suc sz) =
     (let dst = dst - 1; src = src - 1 in memmove_back (m(dst := m src)) dst src sz)"

text \<open>The returned pointer is the one the loop has moved: past the block when it ran forwards.\<close>

definition memmove :: "memory \<Rightarrow> vaddr \<Rightarrow> vaddr \<Rightarrow> nat \<Rightarrow> (memory \<times> vaddr) option" where
  "memmove m dst src sz = do {
     c_assert (dst \<noteq> 0 \<or> sz = 0);
     c_assert (src \<noteq> 0 \<or> sz = 0);
     if dst < src then Some (memcpy_loop m dst src sz, dst + of_nat sz)
     else Some (memmove_back m (dst + of_nat sz) (src + of_nat sz) sz, dst) }"

fun memset_loop :: "memory \<Rightarrow> vaddr \<Rightarrow> byte \<Rightarrow> nat \<Rightarrow> memory" where
  "memset_loop m dst value 0 = m"
| "memset_loop m dst value (Suc sz) = memset_loop (m(dst := value)) (dst + 1) value sz"

definition memset :: "memory \<Rightarrow> vaddr \<Rightarrow> 32 word \<Rightarrow> nat \<Rightarrow> (memory \<times> vaddr) option" where
  "memset m dst value sz = do {
     c_assert (dst \<noteq> 0 \<or> sz = 0);
     Some (memset_loop m dst (ucast value) sz, dst) }"

fun memcmp_loop :: "memory \<Rightarrow> vaddr \<Rightarrow> vaddr \<Rightarrow> nat \<Rightarrow> int" where
  "memcmp_loop m a b 0 = 0"
| "memcmp_loop m a b (Suc sz) =
     (if m a \<noteq> m b then (if m a > m b then 1 else -1) else memcmp_loop m (a + 1) (b + 1) sz)"

definition memcmp :: "memory \<Rightarrow> vaddr \<Rightarrow> vaddr \<Rightarrow> nat \<Rightarrow> int option" where
  "memcmp m a b sz = do {
     c_assert (a \<noteq> 0 \<or> sz = 0);
     c_assert (b \<noteq> 0 \<or> sz = 0);
     Some (memcmp_loop m a b sz) }"

fun memchr_loop :: "memory \<Rightarrow> vaddr \<Rightarrow> byte \<Rightarrow> nat \<Rightarrow> vaddr" where
  "memchr_loop m block ch 0 = 0"
| "memchr_loop m block ch (Suc sz) = (if m block = ch then block else memchr_loop m (block + 1) ch sz)"

definition memchr :: "memory \<Rightarrow> vaddr \<Rightarrow> 32 word \<Rightarrow> nat \<Rightarrow> vaddr option" where
  "memchr m block ch sz = do {
     c_assert (block \<noteq> 0 \<or> sz = 0);
     Some (memchr_loop m block (ucast ch) sz) }"

section \<open>Strings\<close>

partial_function (option) strcmp_loop :: "memory \<Rightarrow> vaddr \<Rightarrow> vaddr \<Rightarrow> (vaddr \<times> vaddr) option" where
  "strcmp_loop m a b = (if m a \<noteq> 0 \<and> m a = m b then strcmp_loop m (a + 1) (b + 1) else Some (a, b))"

definition strcmp :: "memory \<Rightarrow> vaddr \<Rightarrow> vaddr \<Rightarrow> int option" where
  "strcmp m a b = do {
     c_assert (a \<noteq> 0);
     c_assert (b \<noteq> 0);
     (a, b) \<leftarrow> strcmp_loop m a b;
     Some (if m a < m b then -1 else if m a > m b then 1 else 0) }"

partial_function (option) strchr_loop :: "memory \<Rightarrow> vaddr \<Rightarrow> byte \<Rightarrow> vaddr option" where
  "strchr_loop m string c =
     (if m string = c then Some string
      else if m string = 0 then Some 0
      else strchr_loop m (string + 1) c)"

definition strchr :: "memory \<Rightarrow> vaddr \<Rightarrow> byte \<Rightarrow> vaddr option" where
  "strchr m string c = do { c_assert (string \<noteq> 0); strchr_loop m string c }"

partial_function (option) strcspn_loop :: "memory \<Rightarrow> vaddr \<Rightarrow> vaddr \<Rightarrow> nat \<Rightarrow> nat option" where
  "strcspn_loop m string stop len =
     (if m (string + of_nat len) \<noteq> 0 then do {
        r \<leftarrow> strchr m stop (m (string + of_nat len));
        if r \<noteq> 0 then Some len else strcspn_loop m string stop (len + 1) }
      else Some len)"

definition strcspn :: "memory \<Rightarrow> vaddr \<Rightarrow> vaddr \<Rightarrow> nat option" where
  "strcspn m string stop = strcspn_loop m string stop 0"

partial_function (option) strpbrk :: "memory \<Rightarrow> vaddr \<Rightarrow> vaddr \<Rightarrow> vaddr option" where
  "strpbrk m string stop =
     (if m string \<noteq> 0 then do {
        r \<leftarrow> strchr m stop (m string);
        if r \<noteq> 0 then Some string else strpbrk m (string + 1) stop }
      else Some 0)"

partial_function (option) strrchr_loop :: "memory \<Rightarrow> vaddr \<Rightarrow> byte \<Rightarrow> vaddr \<Rightarrow> vaddr option" where
  "strrchr_loop m string c p =
     (if m string \<noteq> 0 then strrchr_loop m (string + 1) c (if m string = c then string else p) else Some p)"

definition strrchr :: "memory \<Rightarrow> vaddr \<Rightarrow> byte \<Rightarrow> vaddr option" where
  "strrchr m string c = strrchr_loop m string c 0"

partial_function (option) strspn_loop :: "memory \<Rightarrow> vaddr \<Rightarrow> vaddr \<Rightarrow> nat \<Rightarrow> nat option" where
  "strspn_loop m string skip len =
     (if m (string + of_nat len) \<noteq> 0 then do {
        r \<leftarrow> strchr m skip (m (string + of_nat len));
        if r = 0 then Some len else strspn_loop m string skip (len + 1) }
      else Some len)"

definition strspn :: "memory \<Rightarrow> vaddr \<Rightarrow> vaddr \<Rightarrow> nat option" where
  "strspn m string skip = strspn_loop m string skip 0"

partial_function (option) strlen_loop :: "memory \<Rightarrow> vaddr \<Rightarrow> vaddr option" where
  "strlen_loop m p = (if m p \<noteq> 0 then strlen_loop m (p + 1) else Some p)"

definition strlen :: "memory \<Rightarrow> vaddr \<Rightarrow> nat option" where
  "strlen m string = do { c_assert (string \<noteq> 0); p \<leftarrow> strlen_loop m string; Some (unat (p - string)) }"

text \<open>The last argument counts the characters left below the limit.\<close>

fun strnlen_loop :: "memory \<Rightarrow> vaddr \<Rightarrow> nat \<Rightarrow> nat \<Rightarrow> nat" where
  "strnlen_loop m string len 0 = len"
| "strnlen_loop m string len (Suc n) =
     (if m (string + of_nat len) \<noteq> 0 then strnlen_loop m string (len + 1) n else len)"

definition strnlen :: "memory \<Rightarrow> vaddr \<Rightarrow> nat \<Rightarrow> nat" where
  "strnlen m string maxlen = strnlen_loop m string 0 maxlen"

fun strstr_loop :: "memory \<Rightarrow> vaddr \<Rightarrow> vaddr \<Rightarrow> nat \<Rightarrow> nat \<Rightarrow> nat \<Rightarrow> vaddr option" where
  "strstr_loop m haystack needle needle_len i 0 = Some 0"
| "strstr_loop m haystack needle needle_len i (Suc n) = do {
     r \<leftarrow> memcmp m (haystack + of_nat i) needle needle_len;
     if r = 0 then Some (haystack + of_nat i)
     else strstr_loop m haystack needle needle_len (i + 1) n }"

definition strstr :: "memory \<Rightarrow> vaddr \<Rightarrow> vaddr \<Rightarrow> vaddr option" where
  "strstr m haystack needle = do {
     haystack_len \<leftarrow> strlen m haystack;
     needle_len \<leftarrow> strlen m needle;
     if haystack_len \<ge> needle_len
     then strstr_loop m haystack needle needle_len 0 (haystack_len - needle_len + 1)
     else Some 0 }"

text \<open>
  \<open>strtok_r\<close> returns the memory it has modified, the token and the new value of the variable that
  \<open>save_ptr\<close> points to.
\<close>

partial_function (option) skip_delimiters :: "memory \<Rightarrow> vaddr \<Rightarrow> vaddr \<Rightarrow> (bool \<times> vaddr) option" where
  "skip_delimiters m delimiters s = do {
     r \<leftarrow> strchr m delimiters (m s);
     if r \<noteq> 0 then (if m s = 0 then Some (True, s) else skip_delimiters m delimiters (s + 1))
     else Some (False, s) }"

partial_function (option) skip_token :: "memory \<Rightarrow> vaddr \<Rightarrow> vaddr \<Rightarrow> vaddr option" where
  "skip_token m delimiters s = do {
     r \<leftarrow> strchr m delimiters (m s);
     if r = 0 then skip_token m delimiters (s + 1) else Some s }"

definition strtok_r :: "memory \<Rightarrow> vaddr \<Rightarrow> vaddr \<Rightarrow> vaddr \<Rightarrow> (memory \<times> vaddr \<times> vaddr) option" where
  "strtok_r m s delimiters save = do {
     c_assert (delimiters \<noteq> 0);
     let s = (if s = 0 then save else s);
     c_assert (s \<noteq> 0);
     (done, s) \<leftarrow> skip_delimiters m delimiters s;
     if done then Some (m, 0, s)
     else do {
       let token = s;
       s \<leftarrow> skip_token m delimiters s;
       if m s \<noteq> 0 then Some (m(s := 0), token, s + 1) else Some (m, token, s) } }"

definition strlcpy :: "memory \<Rightarrow> vaddr \<Rightarrow> vaddr \<Rightarrow> nat \<Rightarrow> (memory \<times> nat) option" where
  "strlcpy m dst src sz = do {
     c_assert (dst \<noteq> 0);
     c_assert (src \<noteq> 0);
     src_len \<leftarrow> strlen m src;
     if sz > 0 then do {
       let dst_len = sz - 1;
       let dst_len = (if src_len < dst_len then src_len else dst_len);
       (m, _) \<leftarrow> memcpy m dst src dst_len;
       Some (m(dst + of_nat dst_len := 0), src_len) }
     else Some (m, src_len) }"

definition strlcat :: "memory \<Rightarrow> vaddr \<Rightarrow> vaddr \<Rightarrow> nat \<Rightarrow> (memory \<times> nat) option" where
  "strlcat m dst src sz = do {
     c_assert (dst \<noteq> 0);
     c_assert (src \<noteq> 0);
     src_len \<leftarrow> strlen m src;
     dst_len \<leftarrow> strlen m dst;
     if sz > 0 \<and> dst_len < sz then do {
       let copy_cnt = sz - dst_len - 1;
       let copy_cnt = (if src_len < copy_cnt then src_len else copy_cnt);
       (m, _) \<leftarrow> memcpy m (dst + of_nat dst_len) src copy_cnt;
       Some (m(dst + of_nat (dst_len + copy_cnt) := 0), wrap32 (src_len + dst_len)) }
     else Some (m, wrap32 (src_len + dst_len)) }"

section \<open>Blocks\<close>

lemma mem_copy_0 [simp]: "mem_copy m dst src 0 = m"
  by (simp add: mem_copy_def)

lemma unat_minus_one: "x \<noteq> 0 \<Longrightarrow> unat (x - 1 :: 32 word) = unat x - 1"
  by (simp add: unat_minus_one)

text \<open>Copying forwards is right unless the block starts to overwrite bytes it has not read yet.\<close>

lemma memcpy_loop_eq:
  assumes "unat (dst - src) = 0 \<or> n \<le> unat (dst - src)" and "n \<le> 2 ^ 32"
  shows "memcpy_loop m dst src n = mem_copy m dst src n"
  using assms
proof (induction n arbitrary: m dst src)
  case (Suc n)
  let ?m = "m(dst := m src)"
  have "memcpy_loop ?m (dst + 1) (src + 1) n = mem_copy ?m (dst + 1) (src + 1) n"
    by (rule Suc.IH) (use Suc.prems in auto)
  then have "memcpy_loop m dst src (Suc n) = mem_copy ?m (dst + 1) (src + 1) n" by simp
  also have "\<dots> = mem_copy m dst src (Suc n)"
  proof
    fix a
    show "mem_copy ?m (dst + 1) (src + 1) n a = mem_copy m dst src (Suc n) a"
    proof (cases "a = dst")
      case True
      have "\<not> unat (dst - (dst + 1)) < n" using Suc.prems(2) by (simp add: unsigned_minus_1_eq_mask mask_eq_exp_minus_1)
      then show ?thesis using True by (simp add: mem_copy_def)
    next
      case False
      then have nz: "a - dst \<noteq> 0" by simp
      have e: "a - (dst + 1) = (a - dst) - 1" by (simp add: algebra_simps)
      have u: "unat (a - (dst + 1)) = unat (a - dst) - 1" unfolding e using unat_minus_one [OF nz] .
      have p: "unat (a - dst) > 0" using nz by (simp add: unat_gt_0)
      have "src + (a - dst) \<noteq> dst" if "unat (a - dst) < Suc n"
      proof
        assume "src + (a - dst) = dst"
        then have "a - dst = dst - src" by (simp add: algebra_simps)
        then show False using that p Suc.prems(1) by simp
      qed
      then show ?thesis using False u p unfolding mem_copy_def by (auto simp: algebra_simps)
    qed
  qed
  finally show ?case .
qed simp

text \<open>Copying backwards is right unless the block starts to overwrite bytes it has not read yet.\<close>

lemma memmove_back_eq:
  assumes "unat (src - dst) = 0 \<or> n \<le> unat (src - dst)" and "n \<le> 2 ^ 32"
  shows "memmove_back m (dst + of_nat n) (src + of_nat n) n = mem_copy m dst src n"
  using assms
proof (induction n arbitrary: m)
  case (Suc n)
  let ?d = "dst + of_nat n" and ?s = "src + of_nat n"
  let ?m = "m(?d := m ?s)"
  have un: "unat (of_nat n :: vaddr) = n" using Suc.prems(2) by (simp add: unat_of_nat)
  have "memmove_back ?m ?d ?s n = mem_copy ?m dst src n" by (rule Suc.IH) (use Suc.prems in auto)
  then have "memmove_back m (dst + of_nat (Suc n)) (src + of_nat (Suc n)) (Suc n) = mem_copy ?m dst src n"
    by (simp add: Let_def)
  also have "\<dots> = mem_copy m dst src (Suc n)"
  proof
    fix a
    have "unat (a - dst) = n \<longleftrightarrow> a - dst = of_nat n" unfolding word_unat_eq_iff un by simp
    then have off: "a = ?d \<longleftrightarrow> unat (a - dst) = n" by (auto simp: algebra_simps)
    have "src + (a - dst) \<noteq> ?d" if "unat (a - dst) < n"
    proof
      assume "src + (a - dst) = ?d"
      then have "src - dst = of_nat n - (a - dst)" by (simp add: algebra_simps)
      then have "src - dst = of_nat (n - unat (a - dst))" using that by (simp add: of_nat_diff)
      then have "unat (src - dst) = n - unat (a - dst)"
        using Suc.prems(2) by (simp add: unat_of_nat take_bit_nat_eq_self)
      then show False using that Suc.prems(1) by auto
    qed
    then show "mem_copy ?m dst src n a = mem_copy m dst src (Suc n) a"
      using off by (auto simp: mem_copy_def less_Suc_eq)
  qed
  finally show ?case .
qed simp

lemma memset_loop_eq: "n \<le> 2 ^ 32 \<Longrightarrow> memset_loop m dst v n = mem_set m dst v n"
proof (induction n arbitrary: m dst)
  case (Suc n)
  have "unat (a - dst) < Suc n \<longleftrightarrow> a = dst \<or> unat (a - (dst + 1)) < n" for a
  proof (cases "a = dst")
    case False
    have e: "a - (dst + 1) = (a - dst) - 1" by (simp add: algebra_simps)
    show ?thesis unfolding e using False unat_minus_one [of "a - dst"] unat_gt_0 [of "a - dst"] by auto
  qed simp
  then show ?case using Suc by (auto simp: mem_set_def)
qed (simp add: mem_set_def)

section \<open>Strings in memory\<close>

fun str_at :: "memory \<Rightarrow> vaddr \<Rightarrow> byte list \<Rightarrow> bool" where
  "str_at m p [] \<longleftrightarrow> p \<noteq> 0 \<and> m p = 0"
| "str_at m p (x # xs) \<longleftrightarrow> p \<noteq> 0 \<and> m p = x \<and> x \<noteq> 0 \<and> str_at m (p + 1) xs"

lemma str_at_nonnull: "str_at m p xs \<Longrightarrow> p \<noteq> 0"
  by (cases xs) auto

lemma str_at_nonzero: "str_at m p xs \<Longrightarrow> 0 \<notin> set xs"
  by (induction xs arbitrary: p) auto

lemma unat_Suc: "p + 1 \<noteq> 0 \<Longrightarrow> unat (p + 1 :: vaddr) = Suc (unat p)"
  by (metis Suc_eq_plus1 add.commute unatSuc)

lemma str_at_bound: "str_at m p xs \<Longrightarrow> unat p + length xs < 2 ^ 32"
proof (induction xs arbitrary: p)
  case (Cons x xs)
  then have "unat (p + 1) + length xs < 2 ^ 32" "unat (p + 1) = Suc (unat p)"
    using str_at_nonnull unat_Suc by auto
  then show ?case by simp
next
  case Nil
  show ?case using unsigned_less [of p] by simp
qed

lemma unat_add_str:
  "str_at m p xs \<Longrightarrow> i \<le> length xs \<Longrightarrow> unat (p + of_nat i) = unat p + i"
  using str_at_bound [of m p xs] by (subst unat_plus_simple [THEN iffD1]) (auto simp: no_olen_add_nat unat_of_nat)

lemma str_at_append:
  "str_at m p (xs @ ys) \<longleftrightarrow>
     (\<forall>i<length xs. p + of_nat i \<noteq> 0 \<and> m (p + of_nat i) = xs ! i \<and> xs ! i \<noteq> 0) \<and> str_at m (p + of_nat (length xs)) ys"
proof (induction xs arbitrary: p)
  case (Cons x xs)
  have *: "(\<forall>i<Suc n. P i) \<longleftrightarrow> P 0 \<and> (\<forall>i<n. P (Suc i))" for n :: nat and P by (metis less_Suc_eq_0_disj not_less_eq)
  show ?case using Cons [of "p + 1"] by (simp add: * add.assoc)
qed simp

lemma str_at_nth: "str_at m p xs \<Longrightarrow> i < length xs \<Longrightarrow> m (p + of_nat i) = xs ! i"
  using str_at_append [of m p xs "[]"] by simp

lemma str_at_end: "str_at m p xs \<Longrightarrow> m (p + of_nat (length xs)) = 0"
  using str_at_append [of m p xs "[]"] by simp

lemma str_at_drop: "str_at m p (xs @ ys) \<Longrightarrow> str_at m (p + of_nat (length xs)) ys"
  using str_at_append [of m p xs ys] by simp

text \<open>A string depends only on its own bytes, terminator included.\<close>

definition str_range :: "vaddr \<Rightarrow> nat \<Rightarrow> vaddr set" where
  "str_range p n = (\<lambda>i. p + of_nat i) ` {0..n}"

lemma str_at_cong:
  "str_at m p xs \<Longrightarrow> (\<And>a. a \<in> str_range p (length xs) \<Longrightarrow> m' a = m a) \<Longrightarrow> str_at m' p xs"
proof (induction xs arbitrary: p)
  case Nil
  then show ?case by (simp add: str_range_def)
next
  case (Cons x xs)
  have "str_range (p + 1) (length xs) \<subseteq> str_range p (length (x # xs))"
    unfolding str_range_def by (auto simp: image_iff intro!: bexI [where x = "Suc i" for i])
  moreover have "p \<in> str_range p (length (x # xs))" by (auto simp: str_range_def image_iff intro: bexI [of _ 0])
  ultimately show ?case using Cons.IH [of "p + 1"] Cons.prems by auto
qed

section \<open>What the routines compute\<close>

lemma add_Suc_word: "p + of_nat (Suc n) = (p + 1) + (of_nat n :: vaddr)"
  by (simp add: algebra_simps)

lemma strlen_loop_str: "str_at m p xs \<Longrightarrow> strlen_loop m p = Some (p + of_nat (length xs))"
proof (induction xs arbitrary: p)
  case Nil
  then show ?case by (subst strlen_loop.simps) simp
next
  case (Cons x xs)
  then show ?case by (subst strlen_loop.simps) (simp add: algebra_simps)
qed

lemma unat_length_str: "str_at m p xs \<Longrightarrow> unat (of_nat (length xs) :: vaddr) = length xs"
  using str_at_bound [of m p xs] by (simp add: unat_of_nat take_bit_nat_eq_self)

lemma strlen_str: "str_at m p xs \<Longrightarrow> strlen m p = Some (length xs)"
  using strlen_loop_str [of m p xs] str_at_nonnull [of m p xs] unat_length_str [of m p xs]
  by (simp add: strlen_def)

text \<open>The first byte that satisfies a predicate, as an offset.\<close>

definition first_pos :: "('a \<Rightarrow> bool) \<Rightarrow> 'a list \<Rightarrow> nat" where
  "first_pos P xs = length (takeWhile (\<lambda>x. \<not> P x) xs)"

lemma first_pos_simps [simp]:
  "first_pos P [] = 0"
  "first_pos P (x # xs) = (if P x then 0 else Suc (first_pos P xs))"
  by (simp_all add: first_pos_def)

lemma first_pos_less: "first_pos P xs < length xs \<longleftrightarrow> (\<exists>x\<in>set xs. P x)"
  by (induction xs) auto

lemma strchr_loop_str:
  "str_at m p xs \<Longrightarrow> strchr_loop m p c =
     Some (if c = 0 then p + of_nat (length xs)
           else if c \<in> set xs then p + of_nat (first_pos (\<lambda>x. x = c) xs) else 0)"
proof (induction xs arbitrary: p)
  case Nil
  then show ?case by (subst strchr_loop.simps) auto
next
  case (Cons x xs)
  then show ?case by (subst strchr_loop.simps) (auto simp: algebra_simps)
qed

lemma strchr_str:
  "str_at m p xs \<Longrightarrow> strchr m p c =
     Some (if c = 0 then p + of_nat (length xs)
           else if c \<in> set xs then p + of_nat (first_pos (\<lambda>x. x = c) xs) else 0)"
  using strchr_loop_str [of m p xs c] str_at_nonnull [of m p xs] by (simp add: strchr_def)

lemma str_at_addr_nonnull: "str_at m p xs \<Longrightarrow> i \<le> length xs \<Longrightarrow> p + of_nat i \<noteq> 0"
  using unat_add_str [of m p xs i] str_at_nonnull [of m p xs] by (metis add_is_0 unat_eq_zero)

lemma strchr_null:
  assumes "str_at m p xs"
  shows "\<exists>r. strchr m p c = Some r \<and> (r = 0 \<longleftrightarrow> c \<noteq> 0 \<and> c \<notin> set xs)"
proof -
  have "first_pos (\<lambda>x. x = c) xs \<le> length xs" by (simp add: first_pos_def length_takeWhile_le)
  then show ?thesis
    using strchr_str [OF assms, of c] str_at_addr_nonnull [OF assms] by (auto simp: algebra_simps)
qed

lemma strcspn_loop_str:
  assumes "str_at m stop ds"
  shows "str_at m (p + of_nat n) xs \<Longrightarrow> strcspn_loop m p stop n = Some (n + first_pos (\<lambda>x. x \<in> set ds) xs)"
proof (induction xs arbitrary: n)
  case Nil
  then show ?case by (subst strcspn_loop.simps) simp
next
  case (Cons x xs)
  obtain r where r: "strchr m stop x = Some r" "r = 0 \<longleftrightarrow> x \<noteq> 0 \<and> x \<notin> set ds" using strchr_null [OF assms] by blast
  show ?case using Cons.IH [of "Suc n"] Cons.prems r
    by (subst strcspn_loop.simps) (auto simp: algebra_simps)
qed

lemma strspn_loop_str:
  assumes "str_at m skip ds"
  shows "str_at m (p + of_nat n) xs \<Longrightarrow> strspn_loop m p skip n = Some (n + first_pos (\<lambda>x. x \<notin> set ds) xs)"
proof (induction xs arbitrary: n)
  case Nil
  then show ?case by (subst strspn_loop.simps) simp
next
  case (Cons x xs)
  obtain r where r: "strchr m skip x = Some r" "r = 0 \<longleftrightarrow> x \<noteq> 0 \<and> x \<notin> set ds" using strchr_null [OF assms] by blast
  show ?case using Cons.IH [of "Suc n"] Cons.prems r
    by (subst strspn_loop.simps) (auto simp: algebra_simps)
qed

lemma strpbrk_str:
  assumes "str_at m stop ds"
  shows "str_at m p xs \<Longrightarrow> strpbrk m p stop =
     Some (if \<exists>x\<in>set xs. x \<in> set ds then p + of_nat (first_pos (\<lambda>x. x \<in> set ds) xs) else 0)"
proof (induction xs arbitrary: p)
  case Nil
  then show ?case by (subst strpbrk.simps) simp
next
  case (Cons x xs)
  obtain r where r: "strchr m stop x = Some r" "r = 0 \<longleftrightarrow> x \<noteq> 0 \<and> x \<notin> set ds" using strchr_null [OF assms] by blast
  show ?case using Cons.IH [of "p + 1"] Cons.prems r
    by (subst strpbrk.simps) (auto simp: algebra_simps)
qed

lemma strrchr_loop_str:
  "str_at m p xs \<Longrightarrow> strrchr_loop m p c q =
     Some (if c \<in> set xs then p + of_nat (length xs - 1 - first_pos (\<lambda>x. x = c) (rev xs)) else q)"
proof (induction xs arbitrary: p q rule: list.induct)
  case Nil
  then show ?case by (subst strrchr_loop.simps) simp
next
  case (Cons x xs)
  let ?k = "first_pos (\<lambda>x. x = c) (rev xs)"
  have app: "first_pos P (ys @ [y]) = (if \<exists>z\<in>set ys. P z then first_pos P ys else if P y then length ys else Suc (length ys))"
    for P :: "byte \<Rightarrow> bool" and ys y by (induction ys) auto
  have "c \<in> set xs \<Longrightarrow> ?k < length xs" using first_pos_less [of "\<lambda>x. x = c" "rev xs"] by auto
  then have "c \<in> set xs \<Longrightarrow> of_nat (length xs - ?k) = (1 + of_nat (length xs - Suc ?k) :: vaddr)"
    by (metis Suc_diff_Suc of_nat_Suc add.commute)
  then show ?case using Cons.IH [of "p + 1"] Cons.prems
    by (subst strrchr_loop.simps) (auto simp: app algebra_simps)
qed

text \<open>The order of two strings: the bytes are compared as unsigned characters.\<close>

definition byte_less :: "(byte \<times> byte) set" where
  "byte_less = {(a, b). a < b}"

lemma byte_less_irrefl: "(x, x) \<notin> byte_less"
  by (simp add: byte_less_def)

lemma strcmp_str:
  assumes "str_at m p xs" and "str_at m q ys"
  shows "strcmp m p q = Some (if xs = ys then 0 else if (xs, ys) \<in> lexord byte_less then -1 else 1)"
proof -
  have "\<exists>p' q'. strcmp_loop m p q = Some (p', q') \<and>
      (if m p' < m q' then -1 else if m p' > m q' then 1 else 0 :: int)
        = (if xs = ys then 0 else if (xs, ys) \<in> lexord byte_less then -1 else 1)"
    using assms
  proof (induction xs arbitrary: p q ys)
    case Nil
    have "strcmp_loop m p q = Some (p, q)" using Nil.prems by (subst strcmp_loop.simps) simp
    then show ?case using Nil.prems by (cases ys) (auto simp: word_gt_0)
  next
    case (Cons x xs)
    show ?case
    proof (cases "ys \<noteq> [] \<and> hd ys = x")
      case True
      then obtain zs where ys: "ys = x # zs" by (cases ys) auto
      have "strcmp_loop m p q = strcmp_loop m (p + 1) (q + 1)"
        using Cons.prems ys by (subst strcmp_loop.simps) simp
      moreover have "(x # xs = ys) = (xs = zs)" "((x # xs, ys) \<in> lexord byte_less) = ((xs, zs) \<in> lexord byte_less)"
        using ys by (simp_all add: byte_less_irrefl)
      moreover have "str_at m (p + 1) xs" "str_at m (q + 1) zs" using Cons.prems ys by simp_all
      ultimately show ?thesis using Cons.IH [of "p + 1" "q + 1" zs] by presburger
    next
      case False
      then have "strcmp_loop m p q = Some (p, q)"
        using Cons.prems by (subst strcmp_loop.simps) (cases ys; auto)
      then show ?thesis using Cons.prems False by (cases ys) (auto simp: word_gt_0 byte_less_def)
    qed
  qed
  then show ?thesis using str_at_nonnull assms by (auto simp: strcmp_def)
qed

lemma memcmp_loop_0: "memcmp_loop m a b n = 0 \<longleftrightarrow> (\<forall>i<n. m (a + of_nat i) = m (b + of_nat i))"
proof (induction n arbitrary: a b)
  case (Suc n)
  have *: "(\<forall>i<Suc n. P i) \<longleftrightarrow> P 0 \<and> (\<forall>i<n. P (Suc i))" for P by (metis less_Suc_eq_0_disj not_less_eq)
  show ?case using Suc [of "a + 1" "b + 1"] by (auto simp: * add.assoc)
qed simp

lemma strnlen_loop_str:
  "str_at m (p + of_nat k) xs \<Longrightarrow> strnlen_loop m p k n = k + min n (length xs)"
proof (induction n arbitrary: k xs)
  case (Suc n)
  then show ?case using Suc.IH [of "Suc k" "tl xs"] by (cases xs) (auto simp: algebra_simps)
qed simp

lemma str_atI:
  "(\<And>i. i < length xs \<Longrightarrow> p + of_nat i \<noteq> 0 \<and> m (p + of_nat i) = xs ! i) \<Longrightarrow> 0 \<notin> set xs \<Longrightarrow>
   p + of_nat (length xs) \<noteq> 0 \<Longrightarrow> m (p + of_nat (length xs)) = 0 \<Longrightarrow> str_at m p xs"
  using str_at_append [of m p xs "[]"] by (auto simp: in_set_conv_nth)

lemma memcmp_sub:
  assumes "str_at m p xs" and "str_at m q ys" and "i + length ys \<le> length xs"
  shows "memcmp m (p + of_nat i) q (length ys) = Some r \<Longrightarrow> r = 0 \<longleftrightarrow> take (length ys) (drop i xs) = ys"
    and "\<exists>r. memcmp m (p + of_nat i) q (length ys) = Some r"
proof -
  have n: "p + of_nat i \<noteq> 0" "q \<noteq> 0" using str_at_addr_nonnull [OF assms(1), of i] str_at_nonnull assms by auto
  then show "\<exists>r. memcmp m (p + of_nat i) q (length ys) = Some r" by (simp add: memcmp_def)
  have "m (p + of_nat i + of_nat j) = xs ! (i + j)" if "j < length ys" for j
    using str_at_nth [OF assms(1), of "i + j"] that assms(3) by (simp add: algebra_simps)
  moreover have "m (q + of_nat j) = ys ! j" if "j < length ys" for j
    using str_at_nth [OF assms(2) that] .
  ultimately have "memcmp_loop m (p + of_nat i) q (length ys) = 0 \<longleftrightarrow> (\<forall>j<length ys. xs ! (i + j) = ys ! j)"
    by (simp add: memcmp_loop_0)
  also have "\<dots> \<longleftrightarrow> take (length ys) (drop i xs) = ys"
    using assms(3) by (auto simp: list_eq_iff_nth_eq)
  finally show "memcmp m (p + of_nat i) q (length ys) = Some r \<Longrightarrow> r = 0 \<longleftrightarrow> take (length ys) (drop i xs) = ys"
    using n by (simp add: memcmp_def)
qed

lemma strstr_loop_str:
  assumes "str_at m p xs" and "str_at m q ys"
  shows "i + n + length ys = length xs + 1 \<Longrightarrow>
     \<exists>r. strstr_loop m p q (length ys) i n = Some r \<and>
       (if \<exists>j. i \<le> j \<and> j < i + n \<and> take (length ys) (drop j xs) = ys
        then r = p + of_nat (LEAST j. i \<le> j \<and> take (length ys) (drop j xs) = ys) else r = 0)"
proof (induction n arbitrary: i)
  case (Suc n)
  let ?P = "\<lambda>j. take (length ys) (drop j xs) = ys"
  have "i + length ys \<le> length xs" using Suc.prems by simp
  note mc = memcmp_sub [OF assms this]
  obtain r where r: "memcmp m (p + of_nat i) q (length ys) = Some r" "r = 0 \<longleftrightarrow> ?P i" using mc by blast
  show ?case
  proof (cases "?P i")
    case True
    then have "(LEAST j. i \<le> j \<and> ?P j) = i" by (intro Least_equality) auto
    then show ?thesis using r True by auto
  next
    case False
    have le: "i \<le> j \<and> ?P j \<longleftrightarrow> Suc i \<le> j \<and> ?P j" for j using False by (cases "j = i") auto
    have ex: "(\<exists>j. i \<le> j \<and> j < i + Suc n \<and> ?P j) \<longleftrightarrow> (\<exists>j. Suc i \<le> j \<and> j < Suc i + n \<and> ?P j)"
      using le by (metis add_Suc_right add_Suc)
    have "strstr_loop m p q (length ys) i (Suc n) = strstr_loop m p q (length ys) (Suc i) n"
      using r False by simp
    then show ?thesis using Suc.IH [of "Suc i"] Suc.prems unfolding ex le by simp
  qed
qed auto

text \<open>Reading a block that has just been copied.\<close>

lemma mem_copy_read: "i < n \<Longrightarrow> n \<le> 2 ^ 32 \<Longrightarrow> mem_copy m dst src n (dst + of_nat i) = m (src + of_nat i)"
  by (simp add: mem_copy_def unat_of_nat take_bit_nat_eq_self)

lemma in_str_rangeI: "unat (a - p) \<le> n \<Longrightarrow> a \<in> str_range p n"
  unfolding str_range_def by (rule image_eqI [where x = "unat (a - p)"]) simp_all

lemma in_str_range_self: "p \<in> str_range p n"
  by (rule in_str_rangeI) simp

lemma mem_copy_frame: "a \<notin> str_range dst n \<Longrightarrow> mem_copy m dst src n a = m a"
  using in_str_rangeI [of a dst n] by (auto simp: mem_copy_def)

lemma disjoint_dist:
  assumes "str_range dst n \<inter> str_range src k = {}" and "n \<le> k"
  shows "n \<le> unat (dst - src)"
proof (rule ccontr)
  assume "\<not> n \<le> unat (dst - src)"
  then have "dst \<in> str_range src k" using assms(2) by (intro in_str_rangeI) simp
  moreover have "dst \<in> str_range dst n" by (rule in_str_range_self)
  ultimately show False using assms(1) by auto
qed

lemma str_range_mono: "n \<le> k \<Longrightarrow> str_range p n \<subseteq> str_range p k"
  by (auto simp: str_range_def)

text \<open>The part of \<open>strlcpy\<close> and \<open>strlcat\<close> that copies and terminates.\<close>

lemma copy_terminate:
  assumes src: "str_at m src xs" and n: "n \<le> length xs" and dst: "dst \<noteq> 0" "unat dst + n < 2 ^ 32"
    and disj: "str_range dst n \<inter> str_range src (length xs) = {}"
  shows "\<exists>m'. memcpy m dst src n = Some (m', dst) \<and> str_at (m'(dst + of_nat n := 0)) dst (take n xs) \<and>
     (\<forall>a. a \<notin> str_range dst n \<longrightarrow> m' a = m a)"
proof -
  have n32: "n \<le> 2 ^ 32" using dst(2) by simp
  have mc: "memcpy_loop m dst src n = mem_copy m dst src n"
    using disjoint_dist [OF disj n] n32 by (intro memcpy_loop_eq) auto
  have u: "unat (dst + of_nat i) = unat dst + i" if "i \<le> n" for i
    using that dst(2) by (subst unat_plus_simple [THEN iffD1]) (auto simp: no_olen_add_nat unat_of_nat take_bit_nat_eq_self)
  have "str_at ((mem_copy m dst src n)(dst + of_nat n := 0)) dst (take n xs)"
  proof (rule str_atI)
    fix i assume "i < length (take n xs)"
    then have i: "i < n" "i < length xs" by auto
    have "dst + of_nat i \<noteq> 0" using u [of i] i dst(1) by (metis add_is_0 less_imp_le unat_0 unat_eq_zero)
    moreover have "dst + of_nat i \<noteq> dst + of_nat n" using u [of i] u [of n] i by auto
    ultimately show "dst + of_nat i \<noteq> 0 \<and> ((mem_copy m dst src n)(dst + of_nat n := 0)) (dst + of_nat i) = take n xs ! i"
      using mem_copy_read [of i n m dst src] str_at_nth [OF src, of i] i n32 by simp
  next
    show "0 \<notin> set (take n xs)" using str_at_nonzero [OF src] by (auto dest: in_set_takeD)
    show "dst + of_nat (length (take n xs)) \<noteq> 0"
      using u [of n] n dst(1) by (metis add_is_0 le_refl length_take min.absorb2 unat_0 unat_eq_zero)
    show "((mem_copy m dst src n)(dst + of_nat n := 0)) (dst + of_nat (length (take n xs))) = 0"
      using n by (simp add: min_absorb2)
  qed
  then show ?thesis using mc dst(1) str_at_nonnull [OF src] mem_copy_frame by (auto simp: memcpy_def)
qed

lemma not_in_range: "a \<notin> str_range p n \<Longrightarrow> k \<le> n \<Longrightarrow> a \<noteq> p + of_nat k"
  by (auto simp: str_range_def)

lemma strlcpy_str:
  assumes src: "str_at m src xs" and dst: "dst \<noteq> 0" "unat dst + n < 2 ^ 32"
    and n: "0 < sz" "n = min (sz - 1) (length xs)"
    and disj: "str_range dst n \<inter> str_range src (length xs) = {}"
  shows "\<exists>m'. strlcpy m dst src sz = Some (m', length xs) \<and> str_at m' dst (take (sz - 1) xs) \<and>
     (\<forall>a. a \<notin> str_range dst n \<longrightarrow> m' a = m a)"
proof -
  have "n \<le> length xs" using n by simp
  from copy_terminate [OF src this dst disj] obtain m' where m': "memcpy m dst src n = Some (m', dst)"
    "str_at (m'(dst + of_nat n := 0)) dst (take n xs)" "\<forall>a. a \<notin> str_range dst n \<longrightarrow> m' a = m a" by blast
  have c: "(if length xs < sz - 1 then length xs else sz - 1) = n" and t: "take n xs = take (sz - 1) xs"
    using n by (auto simp: min_def)
  have run: "strlcpy m dst src sz = Some (m'(dst + of_nat n := 0), length xs)"
    using n(1) dst(1) str_at_nonnull [OF src]
    by (simp only: strlcpy_def Let_def strlen_str [OF src] m'(1) c Option.bind.simps c_assert_simps if_True
        prod.case simp_thms)
  have "(m'(dst + of_nat n := 0)) a = m a" if "a \<notin> str_range dst n" for a
    using m'(3) that not_in_range [OF that, of n] by simp
  then show ?thesis using run m'(2) t by auto
qed

lemma str_range_add: "str_range (p + of_nat k) n \<subseteq> str_range p (k + n)"
  unfolding str_range_def by (auto simp: algebra_simps image_iff intro!: bexI [where x = "k + i" for i])

lemma strlcat_str:
  assumes src: "str_at m src xs" and ds: "str_at m dst ds" and room: "length ds < sz"
    and n: "n = min (sz - length ds - 1) (length xs)" and fit: "unat dst + length ds + n < 2 ^ 32"
    and disj: "str_range dst (length ds + n) \<inter> str_range src (length xs) = {}"
  shows "\<exists>m'. strlcat m dst src sz = Some (m', wrap32 (length xs + length ds)) \<and>
     str_at m' dst (take (sz - 1) (ds @ xs)) \<and>
     (\<forall>a. a \<notin> str_range dst (length ds + n) \<longrightarrow> m' a = m a)"
proof -
  let ?d = "dst + of_nat (length ds)"
  have le: "n \<le> length xs" using n by simp
  have sub: "str_range ?d n \<subseteq> str_range dst (length ds + n)" by (rule str_range_add)
  have d: "?d \<noteq> 0" "unat ?d = unat dst + length ds"
    using str_at_addr_nonnull [OF ds, of "length ds"] unat_add_str [OF ds, of "length ds"] by simp_all
  obtain m' where m': "memcpy m ?d src n = Some (m', ?d)"
    "str_at (m'(?d + of_nat n := 0)) ?d (take n xs)" "\<forall>a. a \<notin> str_range ?d n \<longrightarrow> m' a = m a"
    using copy_terminate [OF src le d(1)] d(2) fit disj sub by auto
  let ?m = "m'(dst + of_nat (length ds + n) := 0)"
  have eq: "?m = m'(?d + of_nat n := 0)" by (simp add: algebra_simps)
  have frame: "?m a = m a" if "a \<notin> str_range ?d n" for a
    unfolding eq using not_in_range [OF that, of n] m'(3) that by simp
  have out: "dst + of_nat i \<notin> str_range ?d n" if "i < length ds" for i
  proof
    assume "dst + of_nat i \<in> str_range ?d n"
    then obtain j where j: "j \<le> n" "dst + of_nat i = dst + of_nat (length ds + j)"
      by (auto simp: str_range_def algebra_simps)
    then have "unat (of_nat i :: vaddr) = unat (of_nat (length ds + j) :: vaddr)" by simp
    then show False unfolding unat_of_nat using j(1) that fit by (simp add: take_bit_nat_eq_self)
  qed
  have "str_at ?m dst (ds @ take n xs)"
    unfolding str_at_append using str_at_append [of m dst ds "[]"] ds frame [OF out] m'(2) eq by simp
  moreover have "ds @ take n xs = take (sz - 1) (ds @ xs)" using n room by (auto simp: min_def)
  moreover have c: "(if length xs < sz - length ds - 1 then length xs else sz - length ds - 1) = n"
    using n by (simp add: min_def)
  have "strlcat m dst src sz = Some (?m, wrap32 (length xs + length ds))"
    using le_less_trans [OF zero_le room] room str_at_nonnull [OF src] str_at_nonnull [OF ds]
    by (simp only: strlcat_def Let_def strlen_str [OF src] strlen_str [OF ds] m'(1) c Option.bind.simps
        c_assert_simps if_True prod.case simp_thms)
  moreover have "?m a = m a" if "a \<notin> str_range dst (length ds + n)" for a
    using frame [of a] sub that by blast
  ultimately show ?thesis by auto
qed

section \<open>Tokens\<close>

text \<open>The maximal runs of bytes that are not delimiters.\<close>

function tokenize :: "('a \<Rightarrow> bool) \<Rightarrow> 'a list \<Rightarrow> 'a list list" where
  "tokenize P xs = (case dropWhile P xs of [] \<Rightarrow> []
     | y # ys \<Rightarrow> takeWhile (\<lambda>x. \<not> P x) (y # ys) # tokenize P (dropWhile (\<lambda>x. \<not> P x) ys))"
  by pat_completeness auto
termination
proof (relation "measure (\<lambda>(P, xs). length xs)")
  fix P :: "'a \<Rightarrow> bool" and xs y ys assume "dropWhile P xs = y # ys"
  then have "Suc (length ys) \<le> length xs" by (metis length_Cons length_dropWhile_le)
  moreover have "length (dropWhile (\<lambda>x. \<not> P x) ys) \<le> length ys" by (rule length_dropWhile_le)
  ultimately show "((P, dropWhile (\<lambda>x. \<not> P x) ys), (P, xs)) \<in> measure (\<lambda>(P, xs). length xs)" by simp
qed simp

declare tokenize.simps [simp del]

lemma skip_delimiters_str:
  assumes "str_at m d ds"
  shows "str_at m s xs \<Longrightarrow> skip_delimiters m d s =
     Some (dropWhile (\<lambda>x. x \<in> set ds) xs = [], s + of_nat (length (takeWhile (\<lambda>x. x \<in> set ds) xs)))"
proof (induction xs arbitrary: s)
  case Nil
  obtain r where "strchr m d 0 = Some r" "r \<noteq> 0" using strchr_null [OF assms, of 0] by auto
  then show ?case using Nil by (subst skip_delimiters.simps) simp
next
  case (Cons x xs)
  obtain r where "strchr m d x = Some r" "r = 0 \<longleftrightarrow> x \<noteq> 0 \<and> x \<notin> set ds" using strchr_null [OF assms, of x] by blast
  then show ?case using Cons by (subst skip_delimiters.simps) (auto simp: algebra_simps)
qed

lemma skip_token_str:
  assumes "str_at m d ds"
  shows "str_at m s xs \<Longrightarrow> skip_token m d s = Some (s + of_nat (length (takeWhile (\<lambda>x. x \<notin> set ds) xs)))"
proof (induction xs arbitrary: s)
  case Nil
  obtain r where "strchr m d 0 = Some r" "r \<noteq> 0" using strchr_null [OF assms, of 0] by auto
  then show ?case using Nil by (subst skip_token.simps) simp
next
  case (Cons x xs)
  obtain r where "strchr m d x = Some r" "r = 0 \<longleftrightarrow> x \<noteq> 0 \<and> x \<notin> set ds" using strchr_null [OF assms, of x] by blast
  then show ?case using Cons by (subst skip_token.simps) (auto simp: algebra_simps)
qed

definition str_body :: "vaddr \<Rightarrow> nat \<Rightarrow> vaddr set" where
  "str_body p n = (\<lambda>i. p + of_nat i) ` {..<n}"

lemma off_inj:
  "str_at m p xs \<Longrightarrow> i \<le> length xs \<Longrightarrow> j \<le> length xs \<Longrightarrow> p + of_nat i = p + of_nat j \<longleftrightarrow> i = j"
  using unat_add_str [of m p xs i] unat_add_str [of m p xs j] by (metis add_left_cancel)

lemma str_body_sub: "k + n \<le> l \<Longrightarrow> str_body (p + of_nat k) n \<subseteq> str_body p l"
  unfolding str_body_def by (auto simp: algebra_simps image_iff intro!: bexI [where x = "k + i" for i])

lemma str_body_range: "str_body p n \<subseteq> str_range p n"
  by (auto simp: str_body_def str_range_def)

text \<open>Zeroing one byte of a string splits it in two.\<close>

lemma str_at_split:
  assumes "str_at m p (xs @ y # ys)"
  shows "str_at (m(p + of_nat (length xs) := 0)) p xs"
    and "str_at (m(p + of_nat (length xs) := 0)) (p + of_nat (length xs) + 1) ys"
    and "str_range p (length xs) \<inter> str_body (p + of_nat (length xs) + 1) (length ys) = {}"
proof -
  let ?e = "p + of_nat (length xs)" and ?zs = "xs @ y # ys"
  have ne: "p + of_nat i \<noteq> ?e" if "i \<le> length ?zs" "i \<noteq> length xs" for i
    using off_inj [OF assms that(1), of "length xs"] that(2) by simp
  show "str_at (m(?e := 0)) p xs"
  proof (rule str_atI)
    fix i assume i: "i < length xs"
    have "m (p + of_nat i) = xs ! i" using str_at_nth [OF assms, of i] i by (simp add: nth_append)
    then show "p + of_nat i \<noteq> 0 \<and> (m(?e := 0)) (p + of_nat i) = xs ! i"
      using str_at_addr_nonnull [OF assms, of i] ne [of i] i by simp
  qed (use str_at_nonzero [OF assms] str_at_addr_nonnull [OF assms, of "length xs"] in auto)
  have "str_at m (?e + 1) ys" using str_at_drop [OF assms] by simp
  then show "str_at (m(?e := 0)) (?e + 1) ys"
  proof (rule str_at_cong)
    fix a assume "a \<in> str_range (?e + 1) (length ys)"
    then obtain i where "i \<le> length ys" "a = p + of_nat (length xs + Suc i)" by (auto simp: str_range_def algebra_simps)
    then show "(m(?e := 0)) a = m a" using ne [of "length xs + Suc i"] by simp
  qed
  show "str_range p (length xs) \<inter> str_body (?e + 1) (length ys) = {}"
  proof (rule ccontr)
    assume "\<not> ?thesis"
    then obtain a where a: "a \<in> str_range p (length xs)" "a \<in> str_body (?e + 1) (length ys)" by auto
    obtain i where "i \<le> length xs" "a = p + of_nat i" using a(1) by (auto simp: str_range_def)
    moreover obtain j where "j < length ys" "a = p + of_nat (length xs + Suc j)"
      using a(2) by (auto simp: str_body_def algebra_simps)
    ultimately show False using off_inj [OF assms, of i "length xs + Suc j"] by simp
  qed
qed

lemma strtok_r_none:
  assumes "str_at m d ds" and "str_at m p xs" and "dropWhile (\<lambda>x. x \<in> set ds) xs = []" and "p = (if s = 0 then save else s)"
  shows "\<exists>e. strtok_r m s d save = Some (m, 0, e)"
  using skip_delimiters_str [OF assms(1,2)] str_at_nonnull [OF assms(1)] str_at_nonnull [OF assms(2)] assms(3,4)
  by (simp add: strtok_r_def Let_def)

lemma strtok_r_some:
  assumes d: "str_at m d ds" and p: "str_at m p xs" and ps: "p = (if s = 0 then save else s)"
    and ys: "dropWhile (\<lambda>x. x \<in> set ds) xs = y # ys"
  shows "\<exists>m' token save' tok rs. strtok_r m s d save = Some (m', token, save') \<and>
     str_at m' token tok \<and> str_at m' save' rs \<and> token \<noteq> 0 \<and>
     tokenize (\<lambda>x. x \<in> set ds) xs = tok # tokenize (\<lambda>x. x \<in> set ds) rs \<and>
     (\<forall>a. a \<notin> str_body p (length xs) \<longrightarrow> m' a = m a) \<and> length rs < length xs \<and>
     str_range token (length tok) \<subseteq> str_range p (length xs) \<and>
     str_range save' (length rs) \<subseteq> str_range p (length xs) \<and>
     str_body save' (length rs) \<subseteq> str_body p (length xs) \<and>
     str_range token (length tok) \<inter> str_body save' (length rs) = {}"
proof -
  let ?P = "\<lambda>x. x \<in> set ds"
  define pre tok rest where "pre = takeWhile ?P xs" and "tok = takeWhile (\<lambda>x. \<not> ?P x) (y # ys)"
    and "rest = dropWhile (\<lambda>x. \<not> ?P x) (y # ys)"
  define t where "t = p + of_nat (length pre)"
  have xs: "xs = pre @ tok @ rest" using ys by (simp add: pre_def tok_def rest_def) (metis takeWhile_dropWhile_id)
  have st: "str_at m t (tok @ rest)" using p str_at_drop unfolding xs t_def by blast
  have y: "\<not> ?P y" using ys by (metis dropWhile_eq_Cons_conv)
  have tok1: "tok \<noteq> []" using y by (simp add: tok_def)
  have sk: "skip_delimiters m d p = Some (False, t)" using skip_delimiters_str [OF d p] ys by (simp add: pre_def t_def)
  have "takeWhile (\<lambda>x. \<not> ?P x) (tok @ rest) = tok" by (simp add: tok_def rest_def)
  then have sk2: "skip_token m d t = Some (t + of_nat (length tok))" using skip_token_str [OF d st] by simp
  note run = sk sk2 str_at_nonnull [OF d] str_at_nonnull [OF p] ps
  have sub: "str_range t (length tok) \<subseteq> str_range p (length xs)"
    using str_range_add [of p "length pre" "length tok"] str_range_mono [of "length pre + length tok" "length xs" p]
    unfolding t_def xs by auto
  have t0: "t \<noteq> 0" using str_at_nonnull [OF st] .
  have dn: "dropWhile (\<lambda>x. \<not> ?P x) ys = rest" using y by (simp add: rest_def)
  have tkr: "tokenize ?P xs = tok # tokenize ?P rest"
    unfolding tokenize.simps [of ?P xs] ys by (simp only: list.case dn tok_def)
  show ?thesis
  proof (cases rest)
    case Nil
    let ?e = "t + of_nat (length tok)"
    have e: "str_at m ?e []" "m ?e = 0" using str_at_drop [OF st] Nil by simp_all
    have "strtok_r m s d save = Some (m, t, ?e)" using run e(2) by (simp add: strtok_r_def Let_def)
    moreover have "str_range ?e 0 \<subseteq> str_range p (length xs)"
      using str_range_add [of p "length pre + length tok" 0] str_range_mono [of "length pre + length tok" "length xs" p]
      unfolding t_def xs by (simp add: algebra_simps)
    ultimately show ?thesis using tkr st e sub Nil xs tok1 t0
      by (intro exI [of _ m] exI [of _ t] exI [of _ ?e] exI [of _ tok] exI [of _ "[]"]) (auto simp: str_body_def)
  next
    case (Cons z rs)
    let ?e = "t + of_nat (length tok)"
    let ?m = "m(?e := 0)"
    have st': "str_at m t (tok @ z # rs)" using st Cons by simp
    have mz: "m ?e \<noteq> 0" using str_at_drop [OF st'] by simp
    have z: "?P z" using Cons by (simp add: rest_def split: if_splits) (metis dropWhile_eq_Cons_conv)
    have "tokenize ?P xs = tok # tokenize ?P (z # rs)" using tkr Cons by simp
    also have "tokenize ?P (z # rs) = tokenize ?P rs" using z by (subst (1 2) tokenize.simps) simp
    finally have tk: "tokenize ?P xs = tok # tokenize ?P rs" .
    have body: "str_body p (length xs) = str_body p (length pre + length tok + 1 + length rs)"
      using xs Cons by (simp add: add.assoc)
    have e1: "?e + 1 = p + of_nat (length pre + length tok + 1)" by (simp add: t_def algebra_simps)
    have "?m a = m a" if "a \<notin> str_body p (length xs)" for a
      using that xs Cons unfolding str_body_def t_def
      by (auto simp: image_iff algebra_simps dest!: bspec [where x = "length pre + length tok"])
    moreover have "strtok_r m s d save = Some (?m, t, ?e + 1)" using run mz by (simp add: strtok_r_def Let_def)
    moreover have "str_body (?e + 1) (length rs) \<subseteq> str_body p (length xs)"
      unfolding e1 body by (rule str_body_sub) simp
    moreover have "str_range (?e + 1) (length rs) \<subseteq> str_range p (length xs)"
      using str_range_add [of p "length pre + length tok + 1" "length rs"] unfolding e1 xs Cons by (simp add: add.assoc)
    ultimately show ?thesis using str_at_split [OF st'] tk sub xs Cons t0
      by (intro exI [of _ ?m] exI [of _ t] exI [of _ "?e + 1"] exI [of _ tok] exI [of _ rs]) auto
  qed
qed

section \<open>Properties\<close>

text \<open>Distances between blocks that do not wrap around.\<close>

lemma dist_forward: "dst < src \<Longrightarrow> unat src + n \<le> 2 ^ 32 \<Longrightarrow> n \<le> unat (dst - src :: vaddr)"
  by (simp add: unat_sub_if_size word_size word_less_nat_alt) 

lemma dist_backward:
  "\<not> dst < src \<Longrightarrow> unat dst + n \<le> 2 ^ 32 \<Longrightarrow> unat (src - dst :: vaddr) = 0 \<or> n \<le> unat (src - dst)"
  by (auto simp: unat_sub_if_size word_size word_less_nat_alt)

text \<open>C23: \<open>memmove\<close> copies the block as it was before the call, however the two blocks overlap, and
  writes nothing else. The pointer it returns is \<open>dst\<close> only when it copied backwards; forwards it is
  the end of the block.\<close>

theorem memmove_correct:
  assumes "dst \<noteq> 0" and "src \<noteq> 0" and "unat dst + n \<le> 2 ^ 32" and "unat src + n \<le> 2 ^ 32"
  shows "memmove m dst src n = Some (mem_copy m dst src n, if dst < src then dst + of_nat n else dst)"
proof (cases "dst < src")
  case True
  then show ?thesis using assms memcpy_loop_eq [of dst src n m] dist_forward [OF True assms(4)]
    by (simp add: memmove_def)
next
  case False
  then show ?thesis using assms memmove_back_eq [of src dst n m] dist_backward [OF False assms(3)]
    by (simp add: memmove_def)
qed

text \<open>The bytes 1, 2, 3, \<dots>, from address 101 on.\<close>

definition demo_bytes :: memory where
  "demo_bytes a = (if 100 < a \<and> a < 200 then ucast (a - 100) else 0)"

theorem memmove_correct_witness:
  "\<exists>m r. memmove demo_bytes 102 101 3 = Some (m, r) \<and> m 102 = 1 \<and> m 103 = 2 \<and> m 104 = 3 \<and> m 105 = 5"
proof -
  have "memmove demo_bytes 102 101 3 = Some (mem_copy demo_bytes 102 101 3, 102)"
    using memmove_correct [of 102 101 3 demo_bytes] by simp
  then show ?thesis by (simp add: mem_copy_def demo_bytes_def)
qed

text \<open>C24: \<open>strlcpy\<close> never writes outside the first \<open>sz\<close> bytes of the destination, always terminates
  it, copies as much of the source as fits and returns the length of the whole source; \<open>strlcat\<close>
  does the same for the concatenation. The source is not changed.\<close>

theorem strlcpy_bounded:
  assumes "str_at m src xs" and "dst \<noteq> 0" and "0 < sz" and "unat dst + sz \<le> 2 ^ 32"
    and "str_range dst (sz - 1) \<inter> str_range src (length xs) = {}"
  shows "(\<exists>m'. strlcpy m dst src sz = Some (m', length xs) \<and> str_at m' dst (take (sz - 1) xs) \<and>
           str_at m' src xs \<and> (\<forall>a. a \<notin> str_range dst (sz - 1) \<longrightarrow> m' a = m a)) \<and>
         (\<forall>ds. str_at m dst ds \<and> length ds < sz \<longrightarrow>
           (\<exists>m'. strlcat m dst src sz = Some (m', wrap32 (length xs + length ds)) \<and>
              str_at m' dst (take (sz - 1) (ds @ xs)) \<and>
              str_at m' src xs \<and> (\<forall>a. a \<notin> str_range dst (sz - 1) \<longrightarrow> m' a = m a)))"
proof (intro conjI allI impI)
  let ?n = "min (sz - 1) (length xs)"
  have sub: "str_range dst ?n \<subseteq> str_range dst (sz - 1)" by (rule str_range_mono) simp
  have "unat dst + ?n < 2 ^ 32" using assms(3,4) by linarith
  from strlcpy_str [OF assms(1,2) this assms(3) refl] assms(5) sub obtain m' where
    m': "strlcpy m dst src sz = Some (m', length xs)" "str_at m' dst (take (sz - 1) xs)"
    "\<forall>a. a \<notin> str_range dst (sz - 1) \<longrightarrow> m' a = m a" by blast
  moreover have "str_at m' src xs" by (rule str_at_cong [OF assms(1)]) (use m'(3) assms(5) in blast)
  ultimately show "\<exists>m'. strlcpy m dst src sz = Some (m', length xs) \<and> str_at m' dst (take (sz - 1) xs) \<and>
           str_at m' src xs \<and> (\<forall>a. a \<notin> str_range dst (sz - 1) \<longrightarrow> m' a = m a)" by blast
next
  fix ds assume ds: "str_at m dst ds \<and> length ds < sz"
  let ?n = "min (sz - length ds - 1) (length xs)"
  have sub: "str_range dst (length ds + ?n) \<subseteq> str_range dst (sz - 1)" using ds by (intro str_range_mono) linarith
  have "unat dst + length ds + ?n < 2 ^ 32" using assms(3,4) ds by linarith
  from strlcat_str [OF assms(1) ds [THEN conjunct1] ds [THEN conjunct2] refl this] assms(5) sub obtain m' where
    m': "strlcat m dst src sz = Some (m', wrap32 (length xs + length ds))"
    "str_at m' dst (take (sz - 1) (ds @ xs))" "\<forall>a. a \<notin> str_range dst (sz - 1) \<longrightarrow> m' a = m a" by blast
  moreover have "str_at m' src xs" by (rule str_at_cong [OF assms(1)]) (use m'(3) assms(5) in blast)
  ultimately show "\<exists>m'. strlcat m dst src sz = Some (m', wrap32 (length xs + length ds)) \<and>
              str_at m' dst (take (sz - 1) (ds @ xs)) \<and>
              str_at m' src xs \<and> (\<forall>a. a \<notin> str_range dst (sz - 1) \<longrightarrow> m' a = m a)" by blast
qed

theorem strlcpy_bounded_witness:
  "str_at demo_bytes 198 [98, 99] \<and>
   (\<exists>m. strlcpy demo_bytes 300 198 2 = Some (m, 2) \<and> str_at m 300 [98])"
proof -
  have 1: "str_at demo_bytes 198 [98, 99]" by (simp add: demo_bytes_def)
  have 2: "str_range 300 (2 - 1) \<inter> str_range 198 (length [98, 99 :: byte]) = {}"
    by code_simp
  show ?thesis using 1 strlcpy_bounded [OF 1, of 300 2] 2 by auto
qed

end
