(* ===== verification/Args.thy ===== *)
theory Args
  imports Strings Palloc
begin

text \<open>
  \<open>userprog/process.c\<close>: splitting a command line into arguments and laying them out on the stack of a
  new process. Memory is the address space of the process: the stack below \<open>PHYS_BASE\<close> and the
  kernel's pages above it. The address of the literal \<open>" "\<close> is an argument.
\<close>

section \<open>Splitting the command line\<close>

partial_function (option) parse_loop ::
  "memory \<Rightarrow> vaddr \<Rightarrow> vaddr \<Rightarrow> vaddr \<Rightarrow> vaddr \<Rightarrow> nat \<Rightarrow> (memory \<times> nat) option" where
  "parse_loop m blank argv tok save_ptr argc =
     (if tok \<noteq> 0 then do {
        let m = store32 m (argv + 4 * of_nat argc) tok;
        (m, tok, save_ptr) \<leftarrow> strtok_r m 0 blank save_ptr;
        parse_loop m blank argv tok save_ptr (argc + 1) }
      else Some (m, argc))"

definition argument_parse :: "memory \<Rightarrow> vaddr \<Rightarrow> vaddr \<Rightarrow> vaddr \<Rightarrow> (memory \<times> nat) option" where
  "argument_parse m blank cmd_line argv =
     (if cmd_line = 0 \<or> argv = 0 then Some (m, 0)
      else do {
        (m, tok, save_ptr) \<leftarrow> strtok_r m cmd_line blank 0;
        (m, argc) \<leftarrow> parse_loop m blank argv tok save_ptr 0;
        Some (store32 m (argv + 4 * of_nat argc) 0, argc) })"

section \<open>Pushing the arguments\<close>

text \<open>The strings, last one first; the address of each goes to \<open>argv_addresses\<close>.\<close>

fun push_strings :: "memory \<Rightarrow> vaddr \<Rightarrow> vaddr \<Rightarrow> vaddr \<Rightarrow> nat \<Rightarrow> (memory \<times> vaddr) option" where
  "push_strings m argv_addresses argv sp 0 = Some (m, sp)"
| "push_strings m argv_addresses argv sp (Suc i) = do {
     let arg = load32 m (argv + 4 * of_nat i);
     len \<leftarrow> strlen m arg;
     let str_len = len + 1;
     let sp = sp - of_nat str_len;
     (m, _) \<leftarrow> strlcpy m sp arg str_len;
     let m = store32 m (argv_addresses + 4 * of_nat i) sp;
     push_strings m argv_addresses argv sp i }"

partial_function (option) word_align :: "memory \<Rightarrow> vaddr \<Rightarrow> (memory \<times> vaddr) option" where
  "word_align m sp =
     (if sp mod 4 \<noteq> 0 then (let sp = sp - 1 in word_align (m(sp := 0)) sp) else Some (m, sp))"

text \<open>The addresses; the last argument is one more than the index of the next one to push.\<close>

fun push_addresses :: "memory \<Rightarrow> vaddr \<Rightarrow> vaddr \<Rightarrow> nat \<Rightarrow> memory \<times> vaddr" where
  "push_addresses m argv_addresses sp 0 = (m, sp)"
| "push_addresses m argv_addresses sp (Suc i) =
     (let sp = sp - 4; m = store32 m sp (load32 m (argv_addresses + 4 * of_nat i))
      in push_addresses m argv_addresses sp i)"

definition push_args :: "memory \<Rightarrow> vaddr \<Rightarrow> vaddr \<Rightarrow> nat \<Rightarrow> vaddr \<Rightarrow> (memory \<times> vaddr) option" where
  "push_args m argv_addresses esp argc argv = do {
     (m, sp) \<leftarrow> push_strings m argv_addresses argv esp argc;
     (m, sp) \<leftarrow> word_align m sp;
     let m = store32 m (argv_addresses + 4 * of_nat argc) 0;
     let (m, sp) = push_addresses m argv_addresses sp (argc + 1);
     let argv_actual_loc = sp;
     let sp = sp - 4;
     let m = store32 m sp argv_actual_loc;
     let sp = sp - 4;
     let m = store32 m sp (of_nat argc);
     let sp = sp - 4;
     let m = store32 m sp 0;
     Some (m, sp) }"

definition argument_push :: "pmem \<Rightarrow> vaddr \<Rightarrow> nat \<Rightarrow> vaddr \<Rightarrow> (pmem \<times> vaddr) option" where
  "argument_push s esp argc argv = do {
     (argv_addresses, s) \<leftarrow> palloc_get_page s 0;
     c_assert (argv_addresses \<noteq> 0);
     (m, sp) \<leftarrow> push_args (mem s) argv_addresses esp argc argv;
     s \<leftarrow> palloc_free_page (s\<lparr>mem := m\<rparr>) argv_addresses;
     Some (s, sp) }"

section \<open>Blocks of memory\<close>

definition blk :: "vaddr \<Rightarrow> nat \<Rightarrow> vaddr set" where
  "blk a n = {x. unat a \<le> unat x \<and> unat x < unat a + n}"

lemma unat_plus_nat: "unat a + n < 2 ^ 32 \<Longrightarrow> unat (a + of_nat n :: vaddr) = unat a + n"
  by (subst unat_plus_simple [THEN iffD1]) (auto simp: no_olen_add_nat unat_of_nat take_bit_nat_eq_self)

lemma unat_minus_nat: "n \<le> unat a \<Longrightarrow> unat (a - of_nat n :: vaddr) = unat a - n"
proof -
  assume n: "n \<le> unat a"
  have "unat a < 2 ^ 32" using unsigned_less [of a] by simp
  then have "unat (of_nat n :: vaddr) = n" using n by (simp add: unat_of_nat)
  then show ?thesis using n by (simp add: unat_sub_if_size)
qed

lemma str_range_blk:
  assumes "unat p + n < 2 ^ 32"
  shows "str_range p n = blk p (n + 1)"
proof
  show "str_range p n \<subseteq> blk p (n + 1)"
  proof
    fix x assume "x \<in> str_range p n"
    then obtain i where "i \<le> n" "x = p + of_nat i" by (auto simp: str_range_def)
    then show "x \<in> blk p (n + 1)" using unat_plus_nat [of p i] assms by (simp add: blk_def)
  qed
  show "blk p (n + 1) \<subseteq> str_range p n"
    by (auto simp: blk_def unat_sub_if_size intro!: in_str_rangeI)
qed

lemma str_at_blk: "str_at m p xs \<Longrightarrow> str_range p (length xs) = blk p (length xs + 1)"
  by (rule str_range_blk) (rule str_at_bound)

lemma cell_unat: "unat a + 4 * n < 2 ^ 32 \<Longrightarrow> unat (a + 4 * of_nat n :: vaddr) = unat a + 4 * n"
  using unat_plus_nat [of a "4 * n"] by simp

lemma cell_aligned: "aligned4 a \<Longrightarrow> unat a + 4 * n < 2 ^ 32 \<Longrightarrow> aligned4 (a + 4 * of_nat n)"
  by (simp add: aligned4_def cell_unat)

lemma store32_frame: "aligned4 a \<Longrightarrow> b \<notin> blk a 4 \<Longrightarrow> store32 m a v b = m b"
  by (rule store32_other) (auto simp: blk_def)

lemma load32_blk_cong:
  assumes "aligned4 a" and "\<And>b. b \<in> blk a 4 \<Longrightarrow> m' b = m b"
  shows "load32 m' a = load32 m a"
  using aligned4_cells [OF assms(1)] by (intro load32_cong assms(2)) (auto simp: blk_def)

lemma blk_mono: "unat b \<le> unat a \<Longrightarrow> unat a + n \<le> unat b + k \<Longrightarrow> blk a n \<subseteq> blk b k"
  by (auto simp: blk_def)

lemma cell_blk: "unat a + 4 * n < 2 ^ 32 \<Longrightarrow> n < k \<Longrightarrow> blk (a + 4 * of_nat n) 4 \<subseteq> blk a (4 * k)"
  by (rule blk_mono) (auto simp: cell_unat)

section \<open>The arguments found\<close>

text \<open>
  \<open>argv_ok m argv k toks C\<close>: from index \<open>k\<close> on, the array holds the addresses of the strings \<open>toks\<close>,
  all of them inside \<open>C\<close>.
\<close>

definition argv_ok :: "memory \<Rightarrow> vaddr \<Rightarrow> nat \<Rightarrow> byte list list \<Rightarrow> vaddr set \<Rightarrow> bool" where
  "argv_ok m argv k toks C \<longleftrightarrow>
     (\<forall>i<length toks. str_at m (load32 m (argv + 4 * of_nat (k + i))) (toks ! i) \<and>
        str_range (load32 m (argv + 4 * of_nat (k + i))) (length (toks ! i)) \<subseteq> C)"

lemma argv_ok_Cons:
  "argv_ok m argv k (t # ts) C \<longleftrightarrow>
     str_at m (load32 m (argv + 4 * of_nat k)) t \<and>
     str_range (load32 m (argv + 4 * of_nat k)) (length t) \<subseteq> C \<and> argv_ok m argv (Suc k) ts C"
proof -
  have *: "(\<forall>i<Suc n. P i) \<longleftrightarrow> P 0 \<and> (\<forall>i<n. P (Suc i))" for n :: nat and P by (metis less_Suc_eq_0_disj not_less_eq)
  show ?thesis by (simp add: argv_ok_def * conj_assoc del: of_nat_add of_nat_Suc)
qed

lemma tokenize_Nil: "dropWhile P xs = [] \<Longrightarrow> tokenize P xs = []"
  by (subst tokenize.simps) (simp del: dropWhile_eq_Nil_conv)

lemma parse_loop_ok:
  assumes "str_at m blank ds" and "str_at m tok t" and "str_at m save rs" and "tok \<noteq> 0"
    and "str_range tok (length t) \<inter> str_body save (length rs) = {}"
    and "str_range tok (length t) \<subseteq> C" and "str_range save (length rs) \<subseteq> C"
    and "toks = t # tokenize (\<lambda>x. x \<in> set ds) rs"
    and "aligned4 argv" and "unat argv + 4 * (k + length toks) < 2 ^ 32"
    and "C \<inter> blk argv (4 * (k + length toks)) = {}"
    and "str_range blank (length ds) \<inter> blk argv (4 * (k + length toks)) = {}"
    and "str_range blank (length ds) \<inter> C = {}"
  shows "\<exists>m'. parse_loop m blank argv tok save k = Some (m', k + length toks) \<and> argv_ok m' argv k toks C \<and>
     (\<forall>a. a \<notin> str_body save (length rs) \<and> a \<notin> blk (argv + 4 * of_nat k) (4 * length toks) \<longrightarrow> m' a = m a)"
  using assms
proof (induction "length rs" arbitrary: m tok t save rs k toks rule: less_induct)
  case less
  let ?P = "\<lambda>x. x \<in> set ds"
  let ?c = "argv + 4 * of_nat k"
  let ?m = "store32 m ?c tok"
  note [simp] = less.prems(8)
  have c: "unat ?c = unat argv + 4 * k" "aligned4 ?c" using less.prems(9,10) by (simp_all add: cell_unat cell_aligned)
  have cb: "blk ?c 4 \<subseteq> blk argv (4 * (k + length toks))" using less.prems(10) by (intro cell_blk) auto
  have frame: "?m a = m a" if "a \<notin> blk ?c 4" for a using store32_frame [OF c(2) that] .
  have outC: "?m a = m a" if "a \<in> C \<or> a \<in> str_range blank (length ds)" for a
    using frame [of a] that cb less.prems(11,12) by blast
  have d: "str_at ?m blank ds" by (rule str_at_cong [OF less.prems(1)]) (simp add: outC)
  have tt: "str_at ?m tok t" by (rule str_at_cong [OF less.prems(2)]) (use outC less.prems(6) in blast)
  have sv: "str_at ?m save rs" by (rule str_at_cong [OF less.prems(3)]) (use outC less.prems(7) in blast)
  have ld: "load32 ?m ?c = tok" by (rule load_store32 [OF c(2)])
  show ?case
  proof (cases "dropWhile ?P rs")
    case Nil
    then obtain e where "strtok_r ?m 0 blank save = Some (?m, 0, e)"
      using strtok_r_none [OF d sv, of 0 save] by auto
    then have "parse_loop m blank argv tok save k = Some (?m, k + 1)"
      using less.prems(4) by (subst parse_loop.simps, subst parse_loop.simps) (simp add: Let_def)
    moreover have "toks = [t]" using tokenize_Nil [OF Nil] by simp
    moreover have "argv_ok ?m argv k [t] C" using tt less.prems(6) by (simp add: argv_ok_def ld)
    ultimately show ?thesis using frame by auto
  next
    case (Cons y ys)
    obtain m' token save' tk rs' where st: "strtok_r ?m 0 blank save = Some (m', token, save')"
      "str_at m' token tk" "str_at m' save' rs'" "token \<noteq> 0" "tokenize ?P rs = tk # tokenize ?P rs'"
      "\<forall>a. a \<notin> str_body save (length rs) \<longrightarrow> m' a = ?m a" "length rs' < length rs"
      "str_range token (length tk) \<subseteq> str_range save (length rs)"
      "str_range save' (length rs') \<subseteq> str_range save (length rs)"
      "str_body save' (length rs') \<subseteq> str_body save (length rs)"
      "str_range token (length tk) \<inter> str_body save' (length rs') = {}"
      using strtok_r_some [OF d sv _ Cons, of 0 save] by auto
    have body: "str_body save (length rs) \<subseteq> C" using str_body_range less.prems(7) by blast
    let ?ts = "tk # tokenize ?P rs'"
    have toks: "toks = t # ?ts" using st(5) by simp
    have bm': "str_at m' blank ds" by (rule str_at_cong [OF d]) (use st(6) body less.prems(13) in blast)
    have "\<exists>m''. parse_loop m' blank argv token save' (Suc k) = Some (m'', Suc k + length ?ts) \<and>
        argv_ok m'' argv (Suc k) ?ts C \<and>
        (\<forall>a. a \<notin> str_body save' (length rs') \<and> a \<notin> blk (argv + 4 * of_nat (Suc k)) (4 * length ?ts) \<longrightarrow> m'' a = m' a)"
      using less.prems st toks bm' by (intro less.hyps) auto
    then obtain m'' where m'': "parse_loop m' blank argv token save' (Suc k) = Some (m'', Suc k + length ?ts)"
        "argv_ok m'' argv (Suc k) ?ts C"
        "\<And>a. a \<notin> str_body save' (length rs') \<Longrightarrow> a \<notin> blk (argv + 4 * of_nat (Suc k)) (4 * length ?ts) \<Longrightarrow> m'' a = m' a"
      by blast
    have c2: "unat (argv + 4 * of_nat (Suc k)) = unat argv + 4 * Suc k"
      using less.prems(10) toks by (intro cell_unat) simp
    have rest: "blk (argv + 4 * of_nat (Suc k)) (4 * length ?ts) \<subseteq> blk argv (4 * (k + length toks))"
      using c2 toks by (intro blk_mono) auto
    have keep: "m'' a = ?m a" if "a \<notin> str_body save (length rs)" "a \<notin> blk (argv + 4 * of_nat (Suc k)) (4 * length ?ts)" for a
      using m''(3) [of a] st(6,10) that by auto
    have "load32 m'' ?c = load32 ?m ?c"
    proof (rule load32_blk_cong [OF c(2)])
      fix b assume b: "b \<in> blk ?c 4"
      then have "b \<notin> str_body save (length rs)" using cb body less.prems(11) by blast
      moreover have "b \<notin> blk (argv + 4 * of_nat (Suc k)) (4 * length ?ts)" using b c c2 unfolding blk_def by auto
      ultimately show "m'' b = ?m b" by (rule keep)
    qed
    moreover have "str_at m'' tok t"
      by (rule str_at_cong [OF tt], rule keep) (use less.prems(5,6,11) rest in blast)+
    ultimately have "argv_ok m'' argv k toks C" unfolding toks argv_ok_Cons [of m'' argv k t] using ld m''(2) less.prems(6) by simp
    moreover have "parse_loop m blank argv tok save k = Some (m'', k + length toks)"
      using less.prems(4) st(1) m''(1) toks by (subst parse_loop.simps) (simp add: Let_def)
    moreover have "m'' a = m a" if a: "a \<notin> str_body save (length rs)" "a \<notin> blk ?c (4 * length toks)" for a
    proof -
      have "a \<notin> blk ?c 4" "a \<notin> blk (argv + 4 * of_nat (Suc k)) (4 * length ?ts)"
        using a(2) c c2 toks unfolding blk_def by auto
      then show ?thesis using keep [OF a(1)] frame by simp
    qed
    ultimately show ?thesis by auto
  qed
qed

lemma argv_ok_cong:
  assumes "argv_ok m argv 0 toks C" and "aligned4 argv" and "unat argv + 4 * length toks < 2 ^ 32"
    and eq: "\<And>a. a \<in> C \<or> a \<in> blk argv (4 * length toks) \<Longrightarrow> m' a = m a"
  shows "argv_ok m' argv 0 toks C"
  unfolding argv_ok_def
proof (intro allI impI)
  fix i assume i: "i < length toks"
  let ?c = "argv + 4 * of_nat (0 + i)"
  have "blk ?c 4 \<subseteq> blk argv (4 * length toks)" using cell_blk [of argv i "length toks"] assms(3) i by simp
  then have "load32 m' ?c = load32 m ?c"
    using assms(2,3) i by (intro load32_blk_cong) (auto simp: cell_aligned intro: eq)
  moreover have "str_at m (load32 m ?c) (toks ! i)" "str_range (load32 m ?c) (length (toks ! i)) \<subseteq> C"
    using assms(1) i by (simp_all add: argv_ok_def)
  moreover from this have "str_at m' (load32 m ?c) (toks ! i)" using eq by (blast intro: str_at_cong)
  ultimately show "str_at m' (load32 m' ?c) (toks ! i) \<and> str_range (load32 m' ?c) (length (toks ! i)) \<subseteq> C" by simp
qed

lemma argument_parse_ok:
  assumes d: "str_at m blank ds" and cmd: "str_at m cmd xs" and toks: "toks = tokenize (\<lambda>x. x \<in> set ds) xs"
    and argv: "aligned4 argv" "argv \<noteq> 0" "unat argv + 4 * (length toks + 1) \<le> 2 ^ 32"
    and sep: "str_range cmd (length xs) \<inter> blk argv (4 * (length toks + 1)) = {}"
      "str_range blank (length ds) \<inter> blk argv (4 * (length toks + 1)) = {}"
      "str_range blank (length ds) \<inter> str_range cmd (length xs) = {}"
  shows "\<exists>m'. argument_parse m blank cmd argv = Some (m', length toks) \<and>
     argv_ok m' argv 0 toks (str_range cmd (length xs)) \<and> load32 m' (argv + 4 * of_nat (length toks)) = 0 \<and>
     (\<forall>a. a \<notin> str_body cmd (length xs) \<and> a \<notin> blk argv (4 * (length toks + 1)) \<longrightarrow> m' a = m a)"
proof -
  let ?P = "\<lambda>x. x \<in> set ds" and ?C = "str_range cmd (length xs)" and ?n = "length toks"
  let ?c = "argv + 4 * of_nat ?n"
  have c0: "cmd \<noteq> 0" by (rule str_at_nonnull [OF cmd])
  have cal: "aligned4 ?c" "unat ?c = unat argv + 4 * ?n" using argv by (simp_all add: cell_aligned cell_unat)
  have "\<exists>m' tok save. strtok_r m cmd blank 0 = Some (m', tok, save) \<and>
     (\<exists>m''. parse_loop m' blank argv tok save 0 = Some (m'', ?n) \<and> argv_ok m'' argv 0 toks ?C \<and>
       (\<forall>a. a \<notin> str_body cmd (length xs) \<and> a \<notin> blk argv (4 * ?n) \<longrightarrow> m'' a = m a))"
  proof (cases "dropWhile ?P xs")
    case Nil
    then obtain e where "strtok_r m cmd blank 0 = Some (m, 0, e)"
      using strtok_r_none [OF d cmd, of cmd 0] c0 by auto
    moreover have "toks = []" using toks tokenize_Nil [OF Nil] by simp
    ultimately show ?thesis by (simp add: parse_loop.simps argv_ok_def)
  next
    case (Cons y ys)
    obtain m' token save' tk rs' where st: "strtok_r m cmd blank 0 = Some (m', token, save')"
      "str_at m' token tk" "str_at m' save' rs'" "token \<noteq> 0" "tokenize ?P xs = tk # tokenize ?P rs'"
      "\<forall>a. a \<notin> str_body cmd (length xs) \<longrightarrow> m' a = m a"
      "str_range token (length tk) \<subseteq> ?C" "str_range save' (length rs') \<subseteq> ?C"
      "str_body save' (length rs') \<subseteq> str_body cmd (length xs)"
      "str_range token (length tk) \<inter> str_body save' (length rs') = {}"
      using strtok_r_some [OF d cmd _ Cons, of cmd 0] c0 by auto
    have bm: "str_at m' blank ds"
      by (rule str_at_cong [OF d]) (use st(6) str_body_range [of cmd "length xs"] sep(3) in blast)
    have "blk argv (4 * ?n) \<subseteq> blk argv (4 * (?n + 1))" by (rule blk_mono) auto
    then have "\<exists>m''. parse_loop m' blank argv token save' 0 = Some (m'', 0 + ?n) \<and> argv_ok m'' argv 0 toks ?C \<and>
       (\<forall>a. a \<notin> str_body save' (length rs') \<and> a \<notin> blk (argv + 4 * of_nat 0) (4 * ?n) \<longrightarrow> m'' a = m' a)"
      using st toks argv sep bm by (intro parse_loop_ok [where t = tk and ds = ds]) auto
    then obtain m'' where m'': "parse_loop m' blank argv token save' 0 = Some (m'', ?n)" "argv_ok m'' argv 0 toks ?C"
        "\<forall>a. a \<notin> str_body save' (length rs') \<and> a \<notin> blk argv (4 * ?n) \<longrightarrow> m'' a = m' a" by auto
    moreover have "\<forall>a. a \<notin> str_body cmd (length xs) \<and> a \<notin> blk argv (4 * ?n) \<longrightarrow> m'' a = m a"
      using m''(3) st(6,9) by auto
    ultimately show ?thesis using st(1) by blast
  qed
  then obtain m' tok save m'' where run: "strtok_r m cmd blank 0 = Some (m', tok, save)"
    "parse_loop m' blank argv tok save 0 = Some (m'', ?n)" "argv_ok m'' argv 0 toks ?C"
    "\<And>a. a \<notin> str_body cmd (length xs) \<Longrightarrow> a \<notin> blk argv (4 * ?n) \<Longrightarrow> m'' a = m a" by blast
  let ?m = "store32 m'' ?c 0"
  have fr: "?m a = m'' a" if "a \<notin> blk ?c 4" for a by (rule store32_frame [OF cal(1) that])
  have cb: "blk ?c 4 \<subseteq> blk argv (4 * (?n + 1))" using argv(3) by (intro cell_blk) auto
  have "argv_ok ?m argv 0 toks ?C"
  proof (rule argv_ok_cong [OF run(3) argv(1)])
    fix a assume "a \<in> ?C \<or> a \<in> blk argv (4 * ?n)"
    then have "a \<notin> blk ?c 4" using cb sep(1) cal(2) by (auto simp: blk_def)
    then show "?m a = m'' a" by (rule fr)
  qed (use argv(3) in simp)
  moreover have "?m a = m a" if "a \<notin> str_body cmd (length xs)" "a \<notin> blk argv (4 * (?n + 1))" for a
  proof -
    have "blk argv (4 * ?n) \<subseteq> blk argv (4 * (?n + 1))" by (rule blk_mono) auto
    then have "a \<notin> blk argv (4 * ?n)" "a \<notin> blk ?c 4" using cb that(2) by blast+
    then show ?thesis using run(4) [OF that(1)] fr [of a] by simp
  qed
  ultimately show ?thesis using run c0 argv(2) load_store32 [OF cal(1)] by (auto simp: argument_parse_def)
qed

section \<open>The stack of a new process\<close>

definition between :: "vaddr \<Rightarrow> vaddr \<Rightarrow> vaddr set" where
  "between lo hi = {a. unat lo \<le> unat a \<and> unat a < unat hi}"

lemma between_disjoint: "\<forall>a\<in>A. unat hi \<le> unat a \<Longrightarrow> A \<inter> between lo hi = {}"
  by (force simp: between_def)

text \<open>The bytes the strings take, terminators included.\<close>

definition args_bytes :: "byte list list \<Rightarrow> nat" where
  "args_bytes args = sum_list (map (\<lambda>t. length t + 1) args)"

lemma argv_ok_snoc:
  "argv_ok m argv 0 (ts @ [t]) C \<longleftrightarrow>
     argv_ok m argv 0 ts C \<and> str_at m (load32 m (argv + 4 * of_nat (length ts))) t \<and>
     str_range (load32 m (argv + 4 * of_nat (length ts))) (length t) \<subseteq> C"
  by (auto simp: argv_ok_def nth_append less_Suc_eq)

lemma argv_ok_mono: "argv_ok m argv k ts C \<Longrightarrow> C \<subseteq> D \<Longrightarrow> argv_ok m argv k ts D"
  unfolding argv_ok_def by blast

lemma push_strings_ok:
  assumes "argv_ok m argv 0 args K" and "aligned4 argv" and "aligned4 aa"
    and "unat argv + 4 * length args < 2 ^ 32" and "unat aa + 4 * length args < 2 ^ 32"
    and "K \<inter> blk aa (4 * length args) = {}" and "blk argv (4 * length args) \<inter> blk aa (4 * length args) = {}"
    and "\<forall>a \<in> K \<union> blk argv (4 * length args) \<union> blk aa (4 * length args). unat sp \<le> unat a"
    and "args_bytes args < unat sp"
  shows "\<exists>m' sp'. push_strings m aa argv sp (length args) = Some (m', sp') \<and>
     unat sp' = unat sp - args_bytes args \<and> argv_ok m' aa 0 args (between sp' sp) \<and>
     (\<forall>a. a \<notin> between sp' sp \<and> a \<notin> blk aa (4 * length args) \<longrightarrow> m' a = m a)"
  using assms
proof (induction args arbitrary: m sp rule: rev_induct)
  case Nil
  then show ?case by (auto simp: args_bytes_def argv_ok_def)
next
  case (snoc t ts)
  let ?i = "length ts" and ?n = "length t"
  let ?c = "argv + 4 * of_nat ?i" and ?a = "aa + 4 * of_nat ?i"
  let ?arg = "load32 m ?c" and ?sp = "sp - of_nat (?n + 1)"
  have arg: "str_at m ?arg t" "str_range ?arg ?n \<subseteq> K" and ts: "argv_ok m argv 0 ts K"
    using snoc.prems(1) unfolding argv_ok_snoc by auto
  have tot: "args_bytes (ts @ [t]) = args_bytes ts + ?n + 1" by (simp add: args_bytes_def)
  have spu: "unat ?sp = unat sp - (?n + 1)" using snoc.prems(9) tot by (intro unat_minus_nat) simp
  have lo: "?n + 1 < unat sp" using snoc.prems(9) tot by simp
  have sp32: "unat sp < 2 ^ 32" using unsigned_less [of sp] by simp
  have rng: "str_range ?sp ?n = between ?sp sp"
    using str_range_blk [of ?sp ?n] spu lo sp32 by (auto simp: blk_def between_def)
  have Kout: "K \<inter> between ?sp sp = {}" "blk aa (4 * length (ts @ [t])) \<inter> between ?sp sp = {}"
      "blk argv (4 * length (ts @ [t])) \<inter> between ?sp sp = {}"
    by (rule between_disjoint, use snoc.prems(8) in blast)+
  have ac: "aligned4 ?a" "unat ?a = unat aa + 4 * ?i" using snoc.prems(3,5) by (simp_all add: cell_aligned cell_unat)
  have ab: "blk ?a 4 \<subseteq> blk aa (4 * length (ts @ [t]))" using snoc.prems(5) by (intro cell_blk) auto
  have mono: "blk argv (4 * ?i) \<subseteq> blk argv (4 * length (ts @ [t]))" "blk aa (4 * ?i) \<subseteq> blk aa (4 * length (ts @ [t]))"
    by (intro blk_mono; simp)+
  have "?sp \<noteq> 0" using spu lo by auto
  then obtain m1 where m1: "strlcpy m ?sp ?arg (?n + 1) = Some (m1, ?n)" "str_at m1 ?sp t"
      "\<forall>a. a \<notin> between ?sp sp \<longrightarrow> m1 a = m a"
    using strlcpy_str [OF arg(1), of ?sp ?n "?n + 1"] rng arg(2) Kout(1) spu lo sp32 by fastforce
  let ?m = "store32 m1 ?a ?sp"
  have fr: "?m a = m1 a" if "a \<notin> blk ?a 4" for a by (rule store32_frame [OF ac(1) that])
  have frm: "?m a = m a" if "a \<notin> between ?sp sp" "a \<notin> blk aa (4 * length (ts @ [t]))" for a
    using fr [of a] m1(3) that ab by auto
  have "argv_ok ?m argv 0 ts K"
  proof (rule argv_ok_cong [OF ts snoc.prems(2)])
    fix a assume "a \<in> K \<or> a \<in> blk argv (4 * ?i)"
    then have "a \<notin> between ?sp sp" "a \<notin> blk aa (4 * length (ts @ [t]))" using snoc.prems(6,7) Kout mono by blast+
    then show "?m a = m a" by (rule frm)
  qed (use snoc.prems(4) in simp)
  moreover have "\<forall>a \<in> K \<union> blk argv (4 * ?i) \<union> blk aa (4 * ?i). unat ?sp \<le> unat a"
  proof
    fix a assume "a \<in> K \<union> blk argv (4 * ?i) \<union> blk aa (4 * ?i)"
    then have "unat sp \<le> unat a" using snoc.prems(8) mono by blast
    then show "unat ?sp \<le> unat a" using spu by linarith
  qed
  moreover have "K \<inter> blk aa (4 * ?i) = {}" "blk argv (4 * ?i) \<inter> blk aa (4 * ?i) = {}"
    using snoc.prems(6,7) mono by blast+
  moreover have "args_bytes ts < unat ?sp" using snoc.prems(9) tot spu by linarith
  ultimately have "\<exists>m' sp'. push_strings ?m aa argv ?sp ?i = Some (m', sp') \<and>
     unat sp' = unat ?sp - args_bytes ts \<and> argv_ok m' aa 0 ts (between sp' ?sp) \<and>
     (\<forall>a. a \<notin> between sp' ?sp \<and> a \<notin> blk aa (4 * ?i) \<longrightarrow> m' a = ?m a)"
    using snoc.prems(2-5) by (intro snoc.IH) simp_all
  then obtain m' sp' where m': "push_strings ?m aa argv ?sp ?i = Some (m', sp')"
     "unat sp' = unat ?sp - args_bytes ts" "argv_ok m' aa 0 ts (between sp' ?sp)"
     "\<And>a. a \<notin> between sp' ?sp \<Longrightarrow> a \<notin> blk aa (4 * ?i) \<Longrightarrow> m' a = ?m a" by blast
  have sub: "between sp' ?sp \<subseteq> between sp' sp" "between ?sp sp \<subseteq> between sp' sp"
    using spu m'(2) by (auto simp: between_def)
  have cell: "b \<notin> between sp' ?sp \<and> b \<notin> blk aa (4 * ?i)" if "b \<in> blk ?a 4" for b
  proof -
    have "unat sp \<le> unat b" using that ab snoc.prems(8) by blast
    then have "b \<notin> between sp' ?sp" using spu unfolding between_def by auto
    then show ?thesis using that ac(2) by (simp add: blk_def)
  qed
  have "load32 m' ?a = ?sp" using load32_blk_cong [OF ac(1), of m' ?m] m'(4) cell load_store32 [OF ac(1)] by simp
  moreover have "str_at m' ?sp t"
  proof (rule str_at_cong [OF m1(2)])
    fix a assume "a \<in> str_range ?sp (length t)"
    then have a: "a \<in> between ?sp sp" using rng by simp
    then have "a \<notin> blk ?a 4" "a \<notin> blk aa (4 * ?i)" using ab mono Kout(2) by blast+
    moreover have "a \<notin> between sp' ?sp" using a by (auto simp: between_def)
    ultimately show "m' a = m1 a" using m'(4) fr by simp
  qed
  ultimately have "argv_ok m' aa 0 (ts @ [t]) (between sp' sp)"
    unfolding argv_ok_snoc using argv_ok_mono [OF m'(3) sub(1)] sub(2) rng by simp
  moreover have "push_strings m aa argv sp (length (ts @ [t])) = Some (m', sp')"
    using strlen_str [OF arg(1)] m1(1) m'(1) by (simp add: Let_def)
  moreover have "m' a = m a" if "a \<notin> between sp' sp" "a \<notin> blk aa (4 * length (ts @ [t]))" for a
  proof -
    have "a \<notin> between sp' ?sp" "a \<notin> between ?sp sp" "a \<notin> blk aa (4 * ?i)" using that sub mono by blast+
    then show ?thesis using m'(4) [of a] frm [of a] that(2) by simp
  qed
  ultimately show ?case using m'(2) spu tot by auto
qed

lemma mod4_pred: "k mod 4 \<noteq> 0 \<Longrightarrow> (k - 1) mod 4 = k mod 4 - 1" for k :: nat
  by (cases k) (auto simp: mod_Suc split: if_splits)

lemma word_align_ok:
  "\<exists>m' sp'. word_align m sp = Some (m', sp') \<and> unat sp' = unat sp - unat sp mod 4 \<and>
     (\<forall>a. a \<notin> between sp' sp \<longrightarrow> m' a = m a)"
proof (induction "unat sp mod 4" arbitrary: m sp rule: less_induct)
  case less
  have iff: "sp mod 4 = 0 \<longleftrightarrow> unat sp mod 4 = 0" by (simp add: word_unat_eq_iff unat_mod)
  show ?case
  proof (cases "unat sp mod 4 = 0")
    case True
    then show ?thesis using iff by (subst word_align.simps) auto
  next
    case False
    then have "sp \<noteq> 0" by auto
    then have u: "unat (sp - 1) = unat sp - 1" by (rule Strings.unat_minus_one)
    have mod: "unat (sp - 1) mod 4 = unat sp mod 4 - 1" "unat sp mod 4 \<le> unat sp"
      using mod4_pred [OF False] u by simp_all
    then have "unat (sp - 1) mod 4 < unat sp mod 4" using False by simp
    from less [OF this, of "m(sp - 1 := 0)"] obtain m' sp' where
      m': "word_align (m(sp - 1 := 0)) (sp - 1) = Some (m', sp')"
        "unat sp' = unat (sp - 1) - unat (sp - 1) mod 4" "\<forall>a. a \<notin> between sp' (sp - 1) \<longrightarrow> m' a = (m(sp - 1 := 0)) a" by blast
    have "word_align m sp = Some (m', sp')" using m'(1) iff False by (subst word_align.simps) (simp add: Let_def)
    moreover have "unat sp' = unat sp - unat sp mod 4" using m'(2) mod u False by linarith
    moreover have "m' a = m a" if "a \<notin> between sp' sp" for a
    proof -
      have "a \<notin> between sp' (sp - 1)" "a \<noteq> sp - 1" using that u m'(2) \<open>sp \<noteq> 0\<close> unat_gt_0 [of sp] by (auto simp: between_def)
      then show ?thesis using m'(3) by simp
    qed
    ultimately show ?thesis by blast
  qed
qed

lemma push_addresses_ok:
  assumes "aligned4 aa" and "unat aa + 4 * n \<le> 2 ^ 32" and "aligned4 sp" and "4 * n \<le> unat sp"
    and "\<forall>a\<in>blk aa (4 * n). unat sp \<le> unat a"
  shows "\<exists>m' sp'. push_addresses m aa sp n = (m', sp') \<and> unat sp' = unat sp - 4 * n \<and>
     (\<forall>j<n. load32 m' (sp' + 4 * of_nat j) = load32 m (aa + 4 * of_nat j)) \<and>
     (\<forall>a. a \<notin> between sp' sp \<longrightarrow> m' a = m a)"
  using assms(2-)
proof (induction n arbitrary: m sp)
  case (Suc i)
  let ?c = "aa + 4 * of_nat i"
  let ?v = "load32 m ?c"
  let ?m = "store32 m (sp - 4) ?v"
  have u: "unat (sp - 4) = unat sp - 4" using unat_minus_nat [of 4 sp] Suc.prems(3) by simp
  have al: "aligned4 (sp - 4)" using Suc.prems(2,3) u by (auto simp: aligned4_def)
  have sp32: "unat sp < 2 ^ 32" using unsigned_less [of sp] by simp
  have up: "\<forall>a\<in>blk aa (4 * i). unat (sp - 4) \<le> unat a"
  proof
    fix a assume "a \<in> blk aa (4 * i)"
    then have "a \<in> blk aa (4 * Suc i)" by (auto simp: blk_def)
    then have "unat sp \<le> unat a" using Suc.prems(4) by blast
    then show "unat (sp - 4) \<le> unat a" using u by linarith
  qed
  have "\<exists>m' sp'. push_addresses ?m aa (sp - 4) i = (m', sp') \<and> unat sp' = unat (sp - 4) - 4 * i \<and>
     (\<forall>j<i. load32 m' (sp' + 4 * of_nat j) = load32 ?m (aa + 4 * of_nat j)) \<and>
     (\<forall>a. a \<notin> between sp' (sp - 4) \<longrightarrow> m' a = ?m a)"
    using Suc.prems(1-3) up u al by (intro Suc.IH) simp_all
  then obtain m' sp' where m': "push_addresses ?m aa (sp - 4) i = (m', sp')" "unat sp' = unat (sp - 4) - 4 * i"
     "\<And>j. j < i \<Longrightarrow> load32 m' (sp' + 4 * of_nat j) = load32 ?m (aa + 4 * of_nat j)"
     "\<And>a. a \<notin> between sp' (sp - 4) \<Longrightarrow> m' a = ?m a" by blast
  have cell: "sp' + 4 * of_nat i = sp - 4"
    using cell_unat [of sp' i] m'(2) u Suc.prems(3) sp32 by (simp add: word_unat_eq_iff)
  have "load32 m' (sp - 4) = load32 ?m (sp - 4)"
    by (rule load32_blk_cong [OF al], rule m'(4)) (auto simp: blk_def between_def)
  then have last: "load32 m' (sp' + 4 * of_nat i) = ?v" unfolding cell using load_store32 [OF al] by simp
  have keep: "load32 ?m (aa + 4 * of_nat j) = load32 m (aa + 4 * of_nat j)" if "j < i" for j
  proof (rule load_store32_other [OF al])
    show "aligned4 (aa + 4 * of_nat j)" using assms(1) Suc.prems(1) that by (intro cell_aligned) auto
    have "unat (aa + 4 * of_nat j) = unat aa + 4 * j" using Suc.prems(1) that by (intro cell_unat) auto
    then have "unat sp \<le> unat (aa + 4 * of_nat j)" using Suc.prems(4) that by (auto simp: blk_def)
    then show "sp - 4 \<noteq> aa + 4 * of_nat j" using u Suc.prems(3) by auto
  qed
  have "m' a = m a" if "a \<notin> between sp' sp" for a
  proof -
    have "a \<notin> between sp' (sp - 4)" "a \<notin> blk (sp - 4) 4" using that u m'(2) Suc.prems(3) by (auto simp: between_def blk_def)
    then show ?thesis using m'(4) store32_frame [OF al] by simp
  qed
  then show ?case using m' last keep u by (auto simp: Let_def less_Suc_eq)
qed simp

text \<open>
  What a C runtime expects at the stack pointer: a return address, the number of arguments, a pointer
  to the array of their addresses, which a null pointer ends, and the strings.
\<close>

definition stack_ok :: "memory \<Rightarrow> vaddr \<Rightarrow> vaddr \<Rightarrow> byte list list \<Rightarrow> bool" where
  "stack_ok m sp hi args \<longleftrightarrow>
     aligned4 sp \<and> load32 m sp = 0 \<and> load32 m (sp + 4) = of_nat (length args) \<and> load32 m (sp + 8) = sp + 12 \<and>
     argv_ok m (sp + 12) 0 args (between sp hi) \<and> load32 m (sp + 12 + 4 * of_nat (length args)) = 0"

lemma three_stores:
  assumes al: "aligned4 p" and lo: "12 \<le> unat p"
    and m': "m' = store32 (store32 (store32 m (p - 4) v1) (p - 4 - 4) v2) (p - 4 - 4 - 4) v3"
  shows "load32 m' (p - 12) = v3" and "load32 m' (p - 12 + 4) = v2" and "load32 m' (p - 12 + 8) = v1"
    and "aligned4 (p - 12)" and "unat (p - 12) = unat p - 12" and "\<And>a. a \<notin> between (p - 12) p \<Longrightarrow> m' a = m a"
proof -
  have u: "unat (p - 4) = unat p - 4" "unat (p - 8) = unat p - 8" "unat (p - 12) = unat p - 12"
    using unat_minus_nat [of 4 p] unat_minus_nat [of 8 p] unat_minus_nat [of 12 p] lo by simp_all
  have al': "aligned4 (p - 4)" "aligned4 (p - 8)" "aligned4 (p - 12)"
    using al lo u by (auto simp: aligned4_def dvd_diff_nat)
  have ne: "p - 12 \<noteq> p - 8" "p - 12 \<noteq> p - 4" "p - 8 \<noteq> p - 4" using u lo by auto
  have m': "m' = store32 (store32 (store32 m (p - 4) v1) (p - 8) v2) (p - 12) v3" using m' by (simp add: algebra_simps)
  have e: "p - 12 + 4 = p - 8" "p - 12 + 8 = p - 4" by (simp_all add: algebra_simps)
  show "load32 m' (p - 12) = v3" "load32 m' (p - 12 + 4) = v2" "load32 m' (p - 12 + 8) = v1"
    unfolding e m' using al' ne by (simp_all add: load_store32 load_store32_other)
  show "aligned4 (p - 12)" "unat (p - 12) = unat p - 12" by (fact al'(3), fact u(3))
  fix a assume "a \<notin> between (p - 12) p"
  then have "a \<notin> blk (p - 4) 4" "a \<notin> blk (p - 8) 4" "a \<notin> blk (p - 12) 4"
    using u lo by (auto simp: between_def blk_def)
  then show "m' a = m a" unfolding m' using al' by (simp add: store32_frame)
qed

lemma stack_header:
  assumes ok: "argv_ok m p 0 args (between p hi)" and nul: "load32 m (p + 4 * of_nat (length args)) = 0"
    and al: "aligned4 p" "12 \<le> unat p" and top: "unat p + 4 * length args + 4 \<le> unat hi"
    and m': "m' = store32 (store32 (store32 m (p - 4) p) (p - 4 - 4) (of_nat (length args))) (p - 4 - 4 - 4) 0"
  shows "stack_ok m' (p - 12) hi args"
proof -
  note t = three_stores [OF al m']
  have hi: "unat hi < 2 ^ 32" using unsigned_less [of hi] by simp
  have keep: "m' a = m a" if "unat p \<le> unat a" for a using that by (intro t(6)) (auto simp: between_def)
  have "argv_ok m' p 0 args (between p hi)"
    by (rule argv_ok_cong [OF ok al(1)]) (use top hi in \<open>auto simp: between_def blk_def keep\<close>)
  then have 1: "argv_ok m' p 0 args (between (p - 12) hi)"
    by (rule argv_ok_mono) (use t(5) in \<open>auto simp: between_def\<close>)
  let ?e = "p + 4 * of_nat (length args)"
  have e: "aligned4 ?e" "unat ?e = unat p + 4 * length args" using al top hi by (simp_all add: cell_aligned cell_unat)
  have "load32 m' ?e = load32 m ?e" by (rule load32_blk_cong [OF e(1)]) (use e(2) in \<open>auto simp: blk_def keep\<close>)
  then show ?thesis using 1 nul t by (simp add: stack_ok_def)
qed

lemma push_args_ok:
  assumes argv: "argv_ok m argv 0 args K" "aligned4 argv" "unat argv + 4 * length args < 2 ^ 32"
    and aa: "aligned4 aa" "unat aa + 4 * (length args + 1) \<le> 2 ^ 32"
    and sep: "K \<inter> blk aa (4 * (length args + 1)) = {}" "blk argv (4 * length args) \<inter> blk aa (4 * (length args + 1)) = {}"
    and up: "\<forall>a \<in> K \<union> blk argv (4 * length args) \<union> blk aa (4 * (length args + 1)). unat esp \<le> unat a"
    and room: "args_bytes args + 4 * (length args + 4) + 3 < unat esp"
  shows "\<exists>m' sp. push_args m aa esp (length args) argv = Some (m', sp) \<and> stack_ok m' sp esp args \<and>
     unat sp = 4 * ((unat esp - args_bytes args) div 4) - 4 * (length args + 4) \<and>
     (\<forall>a. a \<notin> between sp esp \<and> a \<notin> blk aa (4 * (length args + 1)) \<longrightarrow> m' a = m a)"
proof -
  let ?n = "length args"
  have sub: "blk aa (4 * ?n) \<subseteq> blk aa (4 * (?n + 1))" by (rule blk_mono) auto
  obtain m1 sp1 where s1: "push_strings m aa argv esp ?n = Some (m1, sp1)" "unat sp1 = unat esp - args_bytes args"
      "argv_ok m1 aa 0 args (between sp1 esp)"
      "\<And>a. a \<notin> between sp1 esp \<Longrightarrow> a \<notin> blk aa (4 * ?n) \<Longrightarrow> m1 a = m a"
  proof -
    have "K \<inter> blk aa (4 * ?n) = {}" "blk argv (4 * ?n) \<inter> blk aa (4 * ?n) = {}"
        "\<forall>a \<in> K \<union> blk argv (4 * ?n) \<union> blk aa (4 * ?n). unat esp \<le> unat a" using sep up sub by blast+
    from push_strings_ok [OF argv(1,2) aa(1) argv(3) _ this] show ?thesis using that aa(2) room by auto
  qed
  obtain m2 sp2 where s2: "word_align m1 sp1 = Some (m2, sp2)" "unat sp2 = unat sp1 - unat sp1 mod 4"
      "\<And>a. a \<notin> between sp2 sp1 \<Longrightarrow> m2 a = m1 a"
    using word_align_ok [of m1 sp1] by blast
  have q: "unat sp2 = 4 * (unat sp1 div 4)" using s2(2) by (simp add: minus_mod_eq_mult_div)
  have al2: "aligned4 sp2" by (simp add: aligned4_def q)
  have lo: "4 * (?n + 4) \<le> unat sp2" using q s1(2) room by linarith
  let ?c = "aa + 4 * of_nat ?n"
  let ?m3 = "store32 m2 ?c 0"
  have c: "aligned4 ?c" "unat ?c = unat aa + 4 * ?n" using aa by (simp_all add: cell_aligned cell_unat)
  have aaup: "unat esp \<le> unat a" if "a \<in> blk aa (4 * (?n + 1))" for a using up that by blast
  have cb: "blk ?c 4 \<subseteq> blk aa (4 * (?n + 1))" using aa(2) by (intro cell_blk) auto
  have m3m1: "?m3 a = m1 a" if "a \<notin> blk ?c 4" "a \<notin> between sp2 sp1" for a
    using s2(3) [OF that(2)] store32_frame [OF c(1) that(1)] by simp
  have ok3: "argv_ok ?m3 aa 0 args (between sp1 esp)"
  proof (rule argv_ok_cong [OF s1(3) aa(1)])
    fix a assume a: "a \<in> between sp1 esp \<or> a \<in> blk aa (4 * ?n)"
    then have "a \<notin> blk ?c 4" using cb aaup [of a] c(2) by (auto simp: between_def blk_def)
    moreover have "a \<notin> between sp2 sp1" using a sub aaup [of a] s1(2) by (auto simp: between_def)
    ultimately show "?m3 a = m1 a" by (rule m3m1)
  qed (use aa(2) in simp)
  have "\<forall>a\<in>blk aa (4 * (?n + 1)). unat sp2 \<le> unat a" using aaup s1(2) s2(2) by fastforce
  then obtain m4 sp4 where s4: "push_addresses ?m3 aa sp2 (?n + 1) = (m4, sp4)" "unat sp4 = unat sp2 - 4 * (?n + 1)"
      "\<And>j. j < ?n + 1 \<Longrightarrow> load32 m4 (sp4 + 4 * of_nat j) = load32 ?m3 (aa + 4 * of_nat j)"
      "\<And>a. a \<notin> between sp4 sp2 \<Longrightarrow> m4 a = ?m3 a"
    using push_addresses_ok [OF aa(1,2) al2, of ?m3] lo by auto
  have ok4: "argv_ok m4 sp4 0 args (between sp1 esp)"
    unfolding argv_ok_def
  proof (intro allI impI)
    fix i assume i: "i < ?n"
    let ?p = "load32 ?m3 (aa + 4 * of_nat (0 + i))"
    have p: "str_at ?m3 ?p (args ! i)" "str_range ?p (length (args ! i)) \<subseteq> between sp1 esp"
      using ok3 i unfolding argv_ok_def by blast+
    have "str_at m4 ?p (args ! i)"
      by (rule str_at_cong [OF p(1)], rule s4(4)) (use p(2) s2(2) in \<open>auto simp: between_def\<close>)
    then show "str_at m4 (load32 m4 (sp4 + 4 * of_nat (0 + i))) (args ! i) \<and>
        str_range (load32 m4 (sp4 + 4 * of_nat (0 + i))) (length (args ! i)) \<subseteq> between sp1 esp"
      using s4(3) [of "0 + i"] i p(2) by simp
  qed
  have end4: "load32 m4 (sp4 + 4 * of_nat ?n) = 0" using s4(3) [of ?n] load_store32 [OF c(1)] by simp
  have al4: "aligned4 sp4" "12 \<le> unat sp4" using al2 s4(2) lo by (auto simp: aligned4_def dvd_diff_nat)
  have "unat sp2 \<le> unat sp1" using s2(2) by simp
  moreover have "unat sp4 + 4 * ?n + 4 = unat sp2" using s4(2) lo by simp
  moreover have "unat sp1 \<le> unat esp" using s1(2) by simp
  ultimately have b4: "unat sp4 + 4 * ?n + 4 \<le> unat esp" "unat sp4 \<le> unat sp2" "unat sp2 \<le> unat sp1" "unat sp1 \<le> unat esp"
    by simp_all
  have "between sp1 esp \<subseteq> between sp4 esp" using b4 by (auto simp: between_def)
  note ok4' = argv_ok_mono [OF ok4 this]
  define m7 where "m7 = store32 (store32 (store32 m4 (sp4 - 4) sp4) (sp4 - 4 - 4) (of_nat ?n)) (sp4 - 4 - 4 - 4) 0"
  note t = three_stores [OF al4 m7_def]
  have ok: "stack_ok m7 (sp4 - 12) esp args" by (rule stack_header [OF ok4' end4 al4 b4(1) m7_def])
  have run: "push_args m aa esp ?n argv = Some (m7, sp4 - 12)"
    using s1(1) s2(1) s4(1) by (simp add: push_args_def Let_def m7_def algebra_simps)
  have fr: "m7 a = m a" if a: "a \<notin> between (sp4 - 12) esp" "a \<notin> blk aa (4 * (?n + 1))" for a
  proof -
    have "a \<notin> between (sp4 - 12) sp4" "a \<notin> between sp4 sp2" "a \<notin> between sp2 sp1" "a \<notin> between sp1 esp"
      using a(1) t(5) b4 by (auto simp: between_def)
    moreover have "a \<notin> blk ?c 4" "a \<notin> blk aa (4 * ?n)" using a(2) cb sub by blast+
    ultimately show ?thesis using t(6) s4(4) m3m1 s1(4) by simp
  qed
  have "unat (sp4 - 12) = 4 * ((unat esp - args_bytes args) div 4) - 4 * (?n + 4)"
    using t(5) s4(2) q s1(2) by (simp add: add.commute)
  then show ?thesis using run ok fr by blast
qed

lemma stack_ok_cong:
  assumes ok: "stack_ok m sp hi args" and top: "unat sp + 4 * (length args + 4) \<le> unat hi"
    and eq: "\<And>a. unat a < unat hi \<Longrightarrow> m' a = m a"
  shows "stack_ok m' sp hi args"
proof -
  have hi: "unat hi < 2 ^ 32" using unsigned_less [of hi] by simp
  have al: "aligned4 sp" using ok by (simp add: stack_ok_def)
  have ld: "load32 m' (sp + 4 * of_nat i) = load32 m (sp + 4 * of_nat i)" if "i < length args + 4" for i
  proof (rule load32_blk_cong)
    show "aligned4 (sp + 4 * of_nat i)" using al that top hi by (intro cell_aligned) auto
    fix b assume "b \<in> blk (sp + 4 * of_nat i) 4"
    then show "m' b = m b" using that top hi by (intro eq) (auto simp: blk_def cell_unat)
  qed
  have e: "sp + 4 * of_nat (3 + length args) = sp + 12 + 4 * of_nat (length args)" by (simp add: algebra_simps)
  have lds: "load32 m' sp = load32 m sp" "load32 m' (sp + 4) = load32 m (sp + 4)" "load32 m' (sp + 8) = load32 m (sp + 8)"
      "load32 m' (sp + 12 + 4 * of_nat (length args)) = load32 m (sp + 12 + 4 * of_nat (length args))"
    using ld [of 0] ld [of 1] ld [of 2] ld [of "3 + length args", unfolded e] by simp_all
  have u: "unat (sp + 12) = unat sp + 12" "aligned4 (sp + 12)"
    using cell_unat [of sp 3] cell_aligned [OF al, of 3] top hi by simp_all
  have "argv_ok m' (sp + 12) 0 args (between sp hi)"
  proof (rule argv_ok_cong [OF _ u(2)])
    show "argv_ok m (sp + 12) 0 args (between sp hi)" using ok by (simp add: stack_ok_def)
    show "unat (sp + 12) + 4 * length args < 2 ^ 32" using u(1) top hi by simp
    fix a assume "a \<in> between sp hi \<or> a \<in> blk (sp + 12) (4 * length args)"
    then show "m' a = m a" using u(1) top by (intro eq) (auto simp: between_def blk_def)
  qed
  then show ?thesis using ok lds unfolding stack_ok_def by simp
qed

lemma pool_page_neq_NULL:
  assumes "pool_ok p" and "unat (pg_no x) \<in> pool_pages p"
  shows "unat PHYS_BASE \<le> unat x"
proof -
  have "4096 * pool_first p = unat (base p)"
    using assms(1) by (simp add: pool_ok_def pool_first_def unat_pg_no pg_ofs_zero_iff)
  moreover have "unat PHYS_BASE \<le> unat (base p)" using assms(1) by (simp add: pool_ok_def word_le_nat_alt)
  moreover have "pool_first p \<le> unat x div 4096" using assms(2) by (simp add: pool_pages_def unat_pg_no)
  then have "4096 * pool_first p \<le> unat x" by (simp add: div_le_dividend mult.commute less_eq_div_iff_mult_less_eq)
  ultimately show ?thesis by simp
qed

lemma blk_page:
  assumes "pg_ofs a = 0" and "n \<le> 4096" and "x \<in> blk a n"
  shows "pg_no x = pg_no a"
  using page_offset [OF assms(1), of x] assms(2,3) by (auto simp: blk_def unat_sub_if_size)

lemma page_aligned4: "pg_ofs a = 0 \<Longrightarrow> aligned4 a \<and> unat a + 4096 \<le> 2 ^ 32"
proof -
  assume "pg_ofs a = 0"
  then obtain k where k: "unat a = 4096 * k" unfolding pg_ofs_zero_iff by (elim dvdE)
  have "unat a < 2 ^ 32" using unsigned_less [of a] by simp
  then show ?thesis using k by (simp add: aligned4_def)
qed

lemma palloc_get_kernel:
  assumes ok: "palloc_ok s" and free: "\<not> pool_pages (kernel_pool s) \<subseteq> pool_used (kernel_pool s)"
  obtains a s' where "palloc_get_page s 0 = Some (a, s')" "palloc_ok s'" "user_pool s' = user_pool s" "a \<noteq> 0"
      "pool_pages (kernel_pool s') = pool_pages (kernel_pool s)" "pg_ofs a = 0"
      "page_range a 1 \<subseteq> pool_pages (kernel_pool s)" "page_range a 1 \<inter> pool_used (kernel_pool s) = {}"
      "pool_used (kernel_pool s') = pool_used (kernel_pool s) \<union> page_range a 1" "mem s' = mem s"
proof -
  have gp: "get_pool False t = kernel_pool t" "get_pool (\<not> False) t = user_pool t" for t by (simp_all add: get_pool_def)
  have pl: "False = ((0 :: palloc_flags) AND PAL_USER \<noteq> 0)" "(0 :: palloc_flags) AND PAL_ASSERT = 0" by simp_all
  obtain a s' where r: "palloc_get_page s 0 = Some (a, s')" "palloc_ok s'" "user_pool s' = user_pool s"
      "pool_pages (kernel_pool s') = pool_pages (kernel_pool s)"
    and cs: "if a = 0 then s' = s \<and>
              (\<forall>i. {i..<i + 1} \<subseteq> pool_pages (kernel_pool s) \<longrightarrow> {i..<i + 1} \<inter> pool_used (kernel_pool s) \<noteq> {})
            else pg_ofs a = 0 \<and> page_range a 1 \<subseteq> pool_pages (kernel_pool s) \<and>
              page_range a 1 \<inter> pool_used (kernel_pool s) = {} \<and>
              pool_used (kernel_pool s') = pool_used (kernel_pool s) \<union> page_range a 1 \<and>
              (\<forall>x. mem s' x = (if (0 :: palloc_flags) AND PAL_ZERO \<noteq> 0 \<and> unat (pg_no x) \<in> page_range a 1 then 0 else mem s x))"
    using palloc_get_ok [OF ok zero_less_one pl(1) pl(2)] unfolding gp palloc_get_page_def by blast
  obtain i where "i \<in> pool_pages (kernel_pool s)" "i \<notin> pool_used (kernel_pool s)" using free by blast
  then have a: "a \<noteq> 0" using cs by (auto split: if_splits dest!: spec [where x = i])
  then have "mem s' = mem s" using cs by (simp add: fun_eq_iff)
  then show ?thesis using that [OF r(1-3) a r(4)] cs a by simp
qed

lemma argument_push_ok:
  assumes ok: "palloc_ok s" and argv: "argv_ok (mem s) argv 0 args K" "aligned4 argv" "unat argv + 4 * length args < 2 ^ 32"
    and used: "\<forall>a \<in> K \<union> blk argv (4 * length args). unat (pg_no a) \<in> pool_used (kernel_pool s)"
    and free: "\<not> pool_pages (kernel_pool s) \<subseteq> pool_used (kernel_pool s)"
    and few: "length args < 1024" and room: "args_bytes args + 4 * (length args + 4) + 3 < unat PHYS_BASE"
  shows "\<exists>s' sp. argument_push s PHYS_BASE (length args) argv = Some (s', sp) \<and>
     stack_ok (mem s') sp PHYS_BASE args \<and>
     unat sp = 4 * ((unat PHYS_BASE - args_bytes args) div 4) - 4 * (length args + 4) \<and>
     palloc_ok s' \<and> pool_used (kernel_pool s') = pool_used (kernel_pool s) \<and> user_pool s' = user_pool s"
proof -
  note sub = pool_used_pages [of "kernel_pool s"]
  have gp: "get_pool False t = kernel_pool t" "get_pool True t = user_pool t" for t by (simp_all add: get_pool_def)
  obtain a s1 where a: "palloc_get_page s 0 = Some (a, s1)" "palloc_ok s1" "user_pool s1 = user_pool s" "a \<noteq> 0"
      "pool_pages (kernel_pool s1) = pool_pages (kernel_pool s)" "pg_ofs a = 0"
      "page_range a 1 \<subseteq> pool_pages (kernel_pool s)" "page_range a 1 \<inter> pool_used (kernel_pool s) = {}"
      "pool_used (kernel_pool s1) = pool_used (kernel_pool s) \<union> page_range a 1" "mem s1 = mem s"
    by (rule palloc_get_kernel [OF ok free])
  have pr: "page_range a 1 = {unat (pg_no a)}" by (auto simp: page_range_def)
  have n: "4 * (length args + 1) \<le> 4096" using few by simp
  note al = page_aligned4 [OF a(6)]
  have pool: "pool_ok (kernel_pool s)" using ok by (simp add: palloc_ok_def)
  have pg: "unat (pg_no x) = unat (pg_no a)" if "x \<in> blk a (4 * (length args + 1))" for x
    using blk_page [OF a(6) n that] by simp
  have out: "x \<notin> blk a (4 * (length args + 1))" if "x \<in> K \<union> blk argv (4 * length args)" for x
  proof
    assume "x \<in> blk a (4 * (length args + 1))"
    then show False using pg [of x] bspec [OF used that] a(8) pr by simp
  qed
  have up: "\<forall>x \<in> K \<union> blk argv (4 * length args) \<union> blk a (4 * (length args + 1)). unat PHYS_BASE \<le> unat x"
  proof
    fix x assume "x \<in> K \<union> blk argv (4 * length args) \<union> blk a (4 * (length args + 1))"
    then consider "x \<in> K \<union> blk argv (4 * length args)" | "x \<in> blk a (4 * (length args + 1))" by blast
    then have "unat (pg_no x) \<in> pool_pages (kernel_pool s)"
    proof cases
      case 1
      then show ?thesis using bspec [OF used 1] sub by blast
    next
      case 2
      then show ?thesis using pg [OF 2] a(7) pr by simp
    qed
    then show "unat PHYS_BASE \<le> unat x" by (rule pool_page_neq_NULL [OF pool])
  qed
  obtain m' sp where p: "push_args (mem s) a PHYS_BASE (length args) argv = Some (m', sp)"
      "stack_ok m' sp PHYS_BASE args"
      "unat sp = 4 * ((unat PHYS_BASE - args_bytes args) div 4) - 4 * (length args + 4)"
  proof -
    have "K \<inter> blk a (4 * (length args + 1)) = {}" "blk argv (4 * length args) \<inter> blk a (4 * (length args + 1)) = {}"
      using out by blast+
    moreover have "aligned4 a" "unat a + 4 * (length args + 1) \<le> 2 ^ 32" using al n by auto
    ultimately show ?thesis using push_args_ok [OF argv(1-3), of a PHYS_BASE] that room up by blast
  qed
  have "palloc_ok (s1\<lparr>mem := m'\<rparr>)" "page_range a 1 \<subseteq> pool_used (get_pool False (s1\<lparr>mem := m'\<rparr>))"
    using a(2,9) by (simp_all add: gp)
  from palloc_free_ok [OF this(1) _ a(6) this(2)] obtain s2 where f:
      "palloc_free_page (s1\<lparr>mem := m'\<rparr>) a = Some s2" "palloc_ok s2" "user_pool s2 = user_pool s1"
      "pool_used (kernel_pool s2) = pool_used (kernel_pool s1) - page_range a 1"
      "\<And>x. unat (pg_no x) \<notin> page_range a 1 \<Longrightarrow> mem s2 x = m' x"
    unfolding palloc_free_page_def by (auto simp: gp)
  have keep: "mem s2 x = m' x" if "unat x < unat PHYS_BASE" for x
    using f(5) [of x] pool_page_neq_NULL [OF pool, of x] that a(7) by (auto simp: not_le)
  have "stack_ok (mem s2) sp PHYS_BASE args" by (rule stack_ok_cong [OF p(2) _ keep]) (use p(3) room in simp_all)
  moreover have "pool_used (kernel_pool s2) = pool_used (kernel_pool s)" using f(4) a(8,9) by auto
  ultimately show ?thesis using a p f by (auto simp: argument_push_def)
qed

section \<open>Properties\<close>

text \<open>C25: \<open>argument_parse\<close> always ends. It finds the blank-separated words of the command line: \<open>argc\<close> is
  their number, \<open>argv[i]\<close> points to the \<open>i\<close>th word, terminated in place inside the command line, and
  \<open>argv[argc]\<close> is null. It writes only the command line and the \<open>argc + 1\<close> entries of \<open>argv\<close>; with
  1024 words or more that is beyond the page the caller allocated for them.\<close>

theorem argument_parse_tokens:
  assumes "str_at m blank [0x20]" and "str_at m cmd_line xs" and "toks = tokenize (\<lambda>x. x = 0x20) xs"
    and "aligned4 argv" and "argv \<noteq> 0" and "unat argv + 4 * (length toks + 1) \<le> 2 ^ 32"
    and "str_range cmd_line (length xs) \<inter> blk argv (4 * (length toks + 1)) = {}"
    and "str_range blank 1 \<inter> blk argv (4 * (length toks + 1)) = {}"
    and "str_range blank 1 \<inter> str_range cmd_line (length xs) = {}"
  shows "\<exists>m'. argument_parse m blank cmd_line argv = Some (m', length toks) \<and>
     argv_ok m' argv 0 toks (str_range cmd_line (length xs)) \<and> load32 m' (argv + 4 * of_nat (length toks)) = 0 \<and>
     (\<forall>a. a \<notin> str_range cmd_line (length xs) \<and> a \<notin> blk argv (4 * (length toks + 1)) \<longrightarrow> m' a = m a)"
  using argument_parse_ok [OF assms(1,2) _ assms(4-6), unfolded list.set empty_iff insert_iff] assms(3,7-9)
    str_body_range [of cmd_line "length xs"] by fastforce

text \<open>The command line \<open>"ab  c"\<close> at \<open>0xc0101100\<close>, and the literal at \<open>0xc0300000\<close>.\<close>

definition demo_cmd :: memory where
  "demo_cmd a = (if a = 0xc0101100 then 0x61 else if a = 0xc0101101 then 0x62 else if a = 0xc0101102 then 0x20
     else if a = 0xc0101103 then 0x20 else if a = 0xc0101104 then 0x63 else if a = 0xc0300000 then 0x20 else 0)"

lemma blk_disjoint: "unat a + n \<le> unat b \<or> unat b + k \<le> unat a \<Longrightarrow> blk a n \<inter> blk b k = {}"
  by (auto simp: blk_def)

lemma demo_cmd_str: "str_at demo_cmd 0xc0300000 [0x20]" "str_at demo_cmd 0xc0101100 [0x61, 0x62, 0x20, 0x20, 0x63]"
  by (simp_all add: demo_cmd_def)

lemma demo_tokens: "tokenize (\<lambda>x. x = 0x20) [0x61, 0x62, 0x20, 0x20, 0x63 :: byte] = [[0x61, 0x62], [0x63]]"
  by (simp add: tokenize.simps)

theorem argument_parse_tokens_witness:
  "\<exists>m'. argument_parse demo_cmd 0xc0300000 0xc0101100 0xc0102000 = Some (m', 2) \<and>
     str_at m' (load32 m' 0xc0102000) [0x61, 0x62] \<and> str_at m' (load32 m' 0xc0102004) [0x63]"
proof -
  have l: "length [0x61, 0x62, 0x20, 0x20, 0x63 :: byte] = 5" "length [[0x61, 0x62], [0x63 :: byte]] = 2" by simp_all
  have r: "str_range 0xc0300000 1 = blk 0xc0300000 (1 + 1)" "str_range 0xc0101100 5 = blk 0xc0101100 (5 + 1)"
    by (rule str_range_blk, simp)+
  have d: "blk 0xc0101100 (5 + 1) \<inter> blk 0xc0102000 (4 * (2 + 1)) = {}" "blk 0xc0300000 (1 + 1) \<inter> blk 0xc0102000 (4 * (2 + 1)) = {}"
      "blk 0xc0300000 (1 + 1) \<inter> blk 0xc0101100 (5 + 1) = {}"
    by (intro blk_disjoint; simp)+
  have "aligned4 0xc0102000" by (simp add: aligned4_def)
  from argument_parse_tokens [OF demo_cmd_str demo_tokens [symmetric] this, unfolded l r, OF _ _ d]
  obtain m' where m': "argument_parse demo_cmd 0xc0300000 0xc0101100 0xc0102000 = Some (m', 2)"
    "argv_ok m' 0xc0102000 0 [[0x61, 0x62], [0x63]] (blk 0xc0101100 (5 + 1))" by auto
  have "\<forall>i<2. P i \<Longrightarrow> P 0 \<and> P (1 :: nat)" for P by simp
  from this [OF m'(2) [unfolded argv_ok_def l]] show ?thesis using m'(1) by auto
qed

text \<open>C26: for arguments found in used kernel pages and a free page for the scratch array, \<open>argument_push\<close>
  lays out the stack a C program expects below \<open>PHYS_BASE\<close>: an aligned stack pointer, a null return
  address, \<open>argc\<close>, the address of \<open>argv\<close>, the addresses of the strings with a null pointer after the
  last, and the strings with exactly the bytes of the arguments. The scratch page is given back.\<close>

theorem argument_push_stack:
  assumes "palloc_ok s" and "argv_ok (mem s) argv 0 args K" and "aligned4 argv"
    and "unat argv + 4 * length args < 2 ^ 32"
    and "\<forall>a \<in> K \<union> blk argv (4 * length args). unat (pg_no a) \<in> pool_used (kernel_pool s)"
    and "\<not> pool_pages (kernel_pool s) \<subseteq> pool_used (kernel_pool s)"
    and "length args < 1024" and "args_bytes args + 4 * (length args + 4) + 3 \<le> 4096"
  shows "\<exists>s' sp. argument_push s PHYS_BASE (length args) argv = Some (s', sp) \<and>
     stack_ok (mem s') sp PHYS_BASE args \<and> unat PHYS_BASE - 4096 \<le> unat sp \<and>
     palloc_ok s' \<and> pool_used (kernel_pool s') = pool_used (kernel_pool s) \<and> user_pool s' = user_pool s"
proof -
  have room: "args_bytes args + 4 * (length args + 4) + 3 < unat PHYS_BASE" using assms(8) by (simp add: PHYS_BASE_def)
  from argument_push_ok [OF assms(1-7) room] obtain s' sp where r:
    "argument_push s PHYS_BASE (length args) argv = Some (s', sp)" "stack_ok (mem s') sp PHYS_BASE args"
    "unat sp = 4 * ((unat PHYS_BASE - args_bytes args) div 4) - 4 * (length args + 4)"
    "palloc_ok s'" "pool_used (kernel_pool s') = pool_used (kernel_pool s)" "user_pool s' = user_pool s" by blast
  have "4 * ((unat PHYS_BASE - args_bytes args) div 4) + 3 \<ge> unat PHYS_BASE - args_bytes args" by simp
  then have "unat PHYS_BASE - 4096 \<le> unat sp" using r(3) assms(8) by linarith
  then show ?thesis using r by blast
qed

text \<open>One argument \<open>"ls"\<close> at \<open>0xc0101800\<close>, its address at \<open>0xc0101000\<close>.\<close>

definition demo_args :: memory where
  "demo_args a = (if a = 0xc0101001 then 0x18 else if a = 0xc0101002 then 0x10 else if a = 0xc0101003 then 0xc0
     else if a = 0xc0101800 then 0x6c else if a = 0xc0101801 then 0x73 else 0)"

theorem argument_push_stack_witness:
  "\<exists>s' sp. argument_push (demo_pmem\<lparr>mem := demo_args\<rparr>) PHYS_BASE 1 0xc0101000 = Some (s', sp) \<and>
     stack_ok (mem s') sp PHYS_BASE [[0x6c, 0x73]]"
proof -
  let ?s = "demo_pmem\<lparr>mem := demo_args\<rparr>" and ?args = "[[0x6c, 0x73 :: byte]]"
  have ld: "load32 demo_args 0xc0101000 = 0xc0101800" by (simp add: load32_def demo_args_def)
  have st: "str_at demo_args 0xc0101800 [0x6c, 0x73]" by (simp add: demo_args_def)
  have ok: "argv_ok (mem ?s) 0xc0101000 0 ?args (blk 0xc0101800 3)"
    using ld st str_at_blk [OF st] by (simp add: argv_ok_def numeral_3_eq_3)
  have page: "unat (pg_no a) = 786689" if "a \<in> blk 0xc0101800 3 \<union> blk 0xc0101000 (4 * length ?args)" for a
    using that by (auto simp: blk_def unat_pg_no)
  have used: "786689 \<in> pool_used (kernel_pool ?s)" using demo_page_used by (simp add: get_pool_def)
  have free: "786690 \<in> pool_pages (kernel_pool ?s)" "786690 \<notin> pool_used (kernel_pool ?s)"
    by (simp_all add: demo_pmem_def pool_pages_def demo_pool_first pool_used_def)
      (auto simp: bm_used_def demo_pool_def bm_bit_def image_iff bit_1_iff)
  have "aligned4 0xc0101000" by (simp add: aligned4_def)
  moreover have "palloc_ok ?s" using demo_pmem_ok by simp
  moreover have "\<forall>a \<in> blk 0xc0101800 3 \<union> blk 0xc0101000 (4 * length ?args). unat (pg_no a) \<in> pool_used (kernel_pool ?s)"
    using page used by simp
  moreover have "\<not> pool_pages (kernel_pool ?s) \<subseteq> pool_used (kernel_pool ?s)" using free by blast
  ultimately show ?thesis using argument_push_stack [OF _ ok] by (auto simp: args_bytes_def)
qed

end
