(* ===== verification/Stdlib.thy ===== *)
theory Stdlib
  imports Strings
begin

text \<open>
  \<open>lib/stdlib.c\<close>: \<open>atoi\<close>, heap sort and binary search. An array is the list of its elements; indices
  are 1-based where the code's are. An access outside the array has no result. The comparison
  function is an argument that returns a \<open>strcmp\<close>-type integer; its contract is the locale
  \<open>cmp_order\<close>.
\<close>

section \<open>Numbers\<close>

definition isspace :: "byte \<Rightarrow> bool" where
  "isspace c \<longleftrightarrow> c = 0x20 \<or> c = 0x0c \<or> c = 0x0a \<or> c = 0x0d \<or> c = 0x09 \<or> c = 0x0b"

definition isdigit :: "byte \<Rightarrow> bool" where
  "isdigit c \<longleftrightarrow> 0x30 \<le> c \<and> c \<le> 0x39"

partial_function (option) skip_space :: "memory \<Rightarrow> vaddr \<Rightarrow> vaddr option" where
  "skip_space m s = (if isspace (m s) then skip_space m (s + 1) else Some s)"

partial_function (option) parse_digits :: "memory \<Rightarrow> vaddr \<Rightarrow> 32 word \<Rightarrow> 32 word option" where
  "parse_digits m s v =
     (if isdigit (m s) then parse_digits m (s + 1) (v * 10 - (ucast (m s) - 0x30)) else Some v)"

text \<open>The value is an \<open>int\<close> in two's complement; it is accumulated as a negative number.\<close>

definition atoi :: "memory \<Rightarrow> vaddr \<Rightarrow> 32 word option" where
  "atoi m s = do {
     c_assert (s \<noteq> 0);
     s \<leftarrow> skip_space m s;
     let (negative, s) = (if m s = 0x2b then (False, s + 1)
                          else if m s = 0x2d then (True, s + 1) else (False, s));
     v \<leftarrow> parse_digits m s 0;
     Some (if \<not> negative then - v else v) }"

section \<open>Sorting\<close>

type_synonym 'a compare = "'a \<Rightarrow> 'a \<Rightarrow> int"

definition in_array :: "'a list \<Rightarrow> nat \<Rightarrow> bool" where
  "in_array arr i \<longleftrightarrow> 1 \<le> i \<and> i \<le> length arr"

text \<open>Swapping all the bytes of two elements swaps the elements.\<close>

definition do_swap :: "'a list \<Rightarrow> nat \<Rightarrow> nat \<Rightarrow> 'a list option" where
  "do_swap arr a_idx b_idx =
     (if in_array arr a_idx \<and> in_array arr b_idx
      then Some (arr[a_idx - 1 := arr ! (b_idx - 1), b_idx - 1 := arr ! (a_idx - 1)]) else None)"

definition do_compare :: "'a compare \<Rightarrow> 'a list \<Rightarrow> nat \<Rightarrow> nat \<Rightarrow> int option" where
  "do_compare compare arr a_idx b_idx =
     (if in_array arr a_idx \<and> in_array arr b_idx
      then Some (compare (arr ! (a_idx - 1)) (arr ! (b_idx - 1))) else None)"

text \<open>The larger of the child \<open>c\<close>, if it exists, and the largest element found so far.\<close>

definition pick_max :: "'a compare \<Rightarrow> 'a list \<Rightarrow> nat \<Rightarrow> nat \<Rightarrow> nat \<Rightarrow> nat option" where
  "pick_max compare arr cnt c mx =
     (if c \<le> cnt then do { r \<leftarrow> do_compare compare arr c mx; Some (if r > 0 then c else mx) } else Some mx)"

partial_function (option) heapify :: "'a compare \<Rightarrow> 'a list \<Rightarrow> nat \<Rightarrow> nat \<Rightarrow> 'a list option" where
  "heapify compare arr i cnt = do {
     let left = wrap32 (2 * i);
     let right = wrap32 (2 * i + 1);
     mx \<leftarrow> pick_max compare arr cnt left i;
     mx \<leftarrow> pick_max compare arr cnt right mx;
     if mx = i then Some arr
     else do { arr \<leftarrow> do_swap arr i mx; heapify compare arr mx cnt } }"

fun build_heap :: "'a compare \<Rightarrow> 'a list \<Rightarrow> nat \<Rightarrow> nat \<Rightarrow> 'a list option" where
  "build_heap compare arr cnt 0 = Some arr"
| "build_heap compare arr cnt (Suc i) = do {
     arr \<leftarrow> heapify compare arr (Suc i) cnt;
     build_heap compare arr cnt i }"

fun sort_heap :: "'a compare \<Rightarrow> 'a list \<Rightarrow> nat \<Rightarrow> 'a list option" where
  "sort_heap compare arr i =
     (if i > 1 then do {
        arr \<leftarrow> do_swap arr 1 i;
        arr \<leftarrow> heapify compare arr 1 (i - 1);
        sort_heap compare arr (i - 1) }
      else Some arr)"

declare sort_heap.simps [simp del]

definition sort_array :: "'a compare \<Rightarrow> 'a list \<Rightarrow> nat \<Rightarrow> 'a list option" where
  "sort_array compare arr cnt = do {
     arr \<leftarrow> build_heap compare arr cnt (cnt div 2);
     sort_heap compare arr cnt }"

text \<open>\<open>qsort\<close> passes its comparison function through \<open>compare_thunk\<close>.\<close>

definition compare_thunk :: "'a compare \<Rightarrow> 'a compare" where
  "compare_thunk compare a b = compare a b"

definition qsort :: "'a list \<Rightarrow> nat \<Rightarrow> 'a compare \<Rightarrow> 'a list option" where
  "qsort arr cnt compare = sort_array (compare_thunk compare) arr cnt"

section \<open>Searching\<close>

text \<open>Positions in the array as element numbers; \<open>None\<close> is the null pointer.\<close>

function binary_search_loop :: "'a compare \<Rightarrow> 'a \<Rightarrow> 'a list \<Rightarrow> nat \<Rightarrow> nat \<Rightarrow> nat option" where
  "binary_search_loop compare key arr first lst =
     (if first < lst then
        let rng = lst - first; middle = first + rng div 2; cmp = compare key (arr ! middle)
        in if cmp < 0 then binary_search_loop compare key arr first middle
           else if cmp > 0 then binary_search_loop compare key arr (middle + 1) lst
           else Some middle
      else None)"
  by pat_completeness auto
termination
  by (relation "measure (\<lambda>(c, k, a, first, lst). lst - first)") auto

declare binary_search_loop.simps [simp del]

definition binary_search :: "'a \<Rightarrow> 'a list \<Rightarrow> nat \<Rightarrow> 'a compare \<Rightarrow> nat option" where
  "binary_search key arr cnt compare = binary_search_loop compare key arr 0 cnt"

definition bsearch :: "'a \<Rightarrow> 'a list \<Rightarrow> nat \<Rightarrow> 'a compare \<Rightarrow> nat option" where
  "bsearch key arr cnt compare = binary_search key arr cnt (compare_thunk compare)"

section \<open>Converting digits\<close>

definition digit_val :: "byte \<Rightarrow> nat" where
  "digit_val d = unat d - 48"

fun dec_value :: "nat \<Rightarrow> byte list \<Rightarrow> nat" where
  "dec_value v [] = v"
| "dec_value v (d # ds) = dec_value (v * 10 + digit_val d) ds"

lemma isdigit_unat: "isdigit d \<Longrightarrow> ucast d - 0x30 = (of_nat (digit_val d) :: 32 word)"
proof -
  assume d: "isdigit d"
  then have "48 \<le> unat d" by (simp add: isdigit_def word_le_nat_alt)
  then have "of_nat (digit_val d) = (of_nat (unat d) - 48 :: 32 word)" by (simp add: digit_val_def of_nat_diff)
  then show ?thesis by (simp add: unsigned_ucast_eq)
qed

lemma parse_digits_str:
  "str_at m s (ds @ rest) \<Longrightarrow> \<forall>d\<in>set ds. isdigit d \<Longrightarrow> rest = [] \<or> \<not> isdigit (hd rest) \<Longrightarrow>
   parse_digits m s (- of_nat v) = Some (- of_nat (dec_value v ds))"
proof (induction ds arbitrary: s v)
  case Nil
  have "\<not> isdigit (m s)" using Nil by (cases rest) (auto simp: isdigit_def)
  then show ?case by (subst parse_digits.simps) simp
next
  case (Cons d ds)
  have "(- of_nat v) * 10 - (ucast d - 0x30) = (- of_nat (v * 10 + digit_val d) :: 32 word)"
    using isdigit_unat [of d] Cons.prems(2) by simp
  then show ?case using Cons.IH [of "s + 1" "v * 10 + digit_val d"] Cons.prems
    by (subst parse_digits.simps) (simp del: of_nat_add of_nat_mult)
qed

lemma skip_space_str:
  "str_at m s (ws @ rest) \<Longrightarrow> \<forall>w\<in>set ws. isspace w \<Longrightarrow> rest = [] \<or> \<not> isspace (hd rest) \<Longrightarrow>
   skip_space m s = Some (s + of_nat (length ws))"
proof (induction ws arbitrary: s)
  case Nil
  have "\<not> isspace (m s)" using Nil by (cases rest) (auto simp: isspace_def)
  then show ?case by (subst skip_space.simps) simp
next
  case (Cons w ws)
  then show ?case by (subst skip_space.simps) (simp add: algebra_simps)
qed

lemma atoi_str:
  assumes "str_at m s (ws @ sg @ ds @ rest)" and "\<forall>w\<in>set ws. isspace w" and "sg \<in> {[], [0x2b], [0x2d]}"
    and "\<forall>d\<in>set ds. isdigit d" and "rest = [] \<or> \<not> isdigit (hd rest)" and "ds \<noteq> []"
  shows "atoi m s = Some (if sg = [0x2d] then - of_nat (dec_value 0 ds) else of_nat (dec_value 0 ds))"
proof -
  have nsp: "\<not> isspace (hd ds)" "hd ds \<noteq> 0x2b" "hd ds \<noteq> 0x2d"
    using assms(4,6) by (cases ds; auto simp: isdigit_def isspace_def word_le_nat_alt)+
  have "sg @ ds @ rest = [] \<or> \<not> isspace (hd (sg @ ds @ rest))"
    using assms(3,6) nsp(1) by (cases ds) (auto simp: isspace_def)
  from skip_space_str [OF assms(1,2) this] have sk: "skip_space m s = Some (s + of_nat (length ws))" .
  let ?p = "s + of_nat (length ws)"
  have st: "str_at m ?p (sg @ ds @ rest)" by (rule str_at_drop [OF assms(1)])
  have pd: "parse_digits m p 0 = Some (- of_nat (dec_value 0 ds))" if "str_at m p (ds @ rest)" for p
    using parse_digits_str [OF that assms(4,5), of 0] by simp
  have s0: "s \<noteq> 0" by (rule str_at_nonnull [OF assms(1)])
  consider "sg = []" | "sg = [0x2b]" | "sg = [0x2d]" using assms(3) by blast
  then show ?thesis
  proof cases
    case 1
    then have "m ?p = hd ds" using st assms(6) by (cases ds) auto
    then show ?thesis using 1 st pd nsp sk s0 by (simp add: atoi_def)
  next
    case 2
    then show ?thesis using st pd sk s0 by (simp add: atoi_def)
  next
    case 3
    then show ?thesis using st pd sk s0 by (simp add: atoi_def)
  qed
qed

section \<open>The contract of comparison functions\<close>

locale cmp_order =
  fixes cmp :: "'a compare"
  assumes anti: "cmp a b > 0 \<longleftrightarrow> cmp b a < 0"
    and trans: "cmp a b \<le> 0 \<Longrightarrow> cmp b c \<le> 0 \<Longrightarrow> cmp a c \<le> 0"
begin

lemma refl: "cmp a a = 0"
  using anti [of a a] by linarith

lemma total: "cmp a b \<le> 0 \<or> cmp b a \<le> 0"
  using anti [of a b] by linarith

text \<open>1-based access, and the heap property of the positions from \<open>lo\<close> on.\<close>

definition at :: "'a list \<Rightarrow> nat \<Rightarrow> 'a" where
  "at arr k = arr ! (k - 1)"

definition heap_from :: "'a list \<Rightarrow> nat \<Rightarrow> nat \<Rightarrow> bool" where
  "heap_from arr n lo \<longleftrightarrow> (\<forall>c\<le>n. lo \<le> c div 2 \<longrightarrow> cmp (at arr c) (at arr (c div 2)) \<le> 0)"

text \<open>The same, except that the element at \<open>i\<close> may be smaller than its children.\<close>

definition heap_exc :: "'a list \<Rightarrow> nat \<Rightarrow> nat \<Rightarrow> nat \<Rightarrow> bool" where
  "heap_exc arr n lo i \<longleftrightarrow>
     (\<forall>c\<le>n. lo \<le> c div 2 \<and> c div 2 \<noteq> i \<longrightarrow> cmp (at arr c) (at arr (c div 2)) \<le> 0) \<and>
     (\<forall>c\<le>n. c div 2 = i \<and> lo \<le> i div 2 \<longrightarrow> cmp (at arr c) (at arr (i div 2)) \<le> 0)"

definition swap :: "'a list \<Rightarrow> nat \<Rightarrow> nat \<Rightarrow> 'a list" where
  "swap arr a b = arr[a - 1 := arr ! (b - 1), b - 1 := arr ! (a - 1)]"

lemma do_swap_eq: "in_array arr a \<Longrightarrow> in_array arr b \<Longrightarrow> do_swap arr a b = Some (swap arr a b)"
  by (simp add: do_swap_def swap_def)

lemma at_swap:
  "in_array arr a \<Longrightarrow> in_array arr b \<Longrightarrow> 1 \<le> k \<Longrightarrow>
   at (swap arr a b) k = (if k = a then at arr b else if k = b then at arr a else at arr k)"
  by (auto simp: at_def swap_def in_array_def nth_list_update)

lemma length_swap [simp]: "length (swap arr a b) = length arr"
  by (simp add: swap_def)

lemma in_array_swap [simp]: "in_array (swap arr a b) k = in_array arr k"
  by (simp add: in_array_def)

lemma mset_swap_at: "in_array arr a \<Longrightarrow> in_array arr b \<Longrightarrow> mset (swap arr a b) = mset arr"
  unfolding swap_def in_array_def by (rule mset_swap) linarith+

lemma mset_take_swap:
  "1 \<le> a \<Longrightarrow> a \<le> n \<Longrightarrow> 1 \<le> b \<Longrightarrow> b \<le> n \<Longrightarrow> n \<le> length arr \<Longrightarrow> mset (take n (swap arr a b)) = mset (take n arr)"
proof -
  assume a: "1 \<le> a" "a \<le> n" "1 \<le> b" "b \<le> n" "n \<le> length arr"
  then have "take n (swap arr a b) = swap (take n arr) a b" by (simp add: swap_def take_update_swap)
  then show ?thesis using mset_swap_at [of "take n arr" a b] a by (simp add: in_array_def)
qed

lemma drop_swap: "1 \<le> a \<Longrightarrow> a \<le> n \<Longrightarrow> 1 \<le> b \<Longrightarrow> b \<le> n \<Longrightarrow> drop n (swap arr a b) = drop n arr"
  by (simp add: swap_def)

lemma pick_max_eq:
  "1 \<le> c \<Longrightarrow> 1 \<le> mx \<Longrightarrow> mx \<le> cnt \<Longrightarrow> cnt \<le> length arr \<Longrightarrow>
   pick_max cmp arr cnt c mx = Some (if c \<le> cnt \<and> cmp (at arr c) (at arr mx) > 0 then c else mx)"
  by (simp add: pick_max_def do_compare_def in_array_def at_def)

text \<open>One round of sifting down keeps the exception in one place.\<close>

lemma heap_exc_swap:
  assumes ex: "heap_exc arr n lo i" and i: "1 \<le> lo" "lo \<le> i" "i \<le> n" "n \<le> length arr"
    and mx: "mx = 2 * i \<or> mx = 2 * i + 1" "mx \<le> n" "cmp (at arr i) (at arr mx) \<le> 0"
    and best: "\<And>c. c \<le> n \<Longrightarrow> c div 2 = i \<Longrightarrow> cmp (at arr c) (at arr mx) \<le> 0"
  shows "heap_exc (swap arr i mx) n lo mx"
proof -
  have ia: "in_array arr i" "in_array arr mx" using i mx by (auto simp: in_array_def)
  note sw = at_swap [OF ia]
  have mi: "mx div 2 = i" "mx \<noteq> i" using mx(1) i by auto
  have 1: "cmp (at (swap arr i mx) c) (at (swap arr i mx) (c div 2)) \<le> 0"
    if c: "c \<le> n" "lo \<le> c div 2" "c div 2 \<noteq> mx" for c
  proof -
    have c1: "1 \<le> c" "1 \<le> c div 2" using c i by auto
    then have ne: "c \<noteq> c div 2" by simp
    consider "c div 2 = i" | "c div 2 \<noteq> i" "c = i" | "c div 2 \<noteq> i" "c \<noteq> i" by blast
    then show ?thesis
    proof cases
      case 1
      then show ?thesis using sw [OF c1(1)] sw [OF c1(2)] mx(3) best [OF c(1) 1] ne mi by auto
    next
      case 2
      have "cmp (at arr mx) (at arr (i div 2)) \<le> 0" using ex c 2 mx(2) mi unfolding heap_exc_def by simp
      then show ?thesis using sw [OF c1(1)] sw [OF c1(2)] 2 c(3) by simp
    next
      case 3
      then have "c \<noteq> mx" using mi by auto
      then show ?thesis using sw [OF c1(1)] sw [OF c1(2)] 3 c ex unfolding heap_exc_def by simp
    qed
  qed
  moreover have "cmp (at (swap arr i mx) c) (at (swap arr i mx) (mx div 2)) \<le> 0"
    if c: "c \<le> n" "c div 2 = mx" for c
  proof -
    have "1 \<le> c" "c \<noteq> i" "c \<noteq> mx" "1 \<le> i" using c mi i by auto
    moreover have "lo \<le> c div 2" "c div 2 \<noteq> i" using c mi i mx(1) by auto
    then have "cmp (at arr c) (at arr (c div 2)) \<le> 0" using ex c(1) unfolding heap_exc_def by blast
    then have "cmp (at arr c) (at arr mx) \<le> 0" using c(2) by simp
    ultimately show ?thesis using sw [of c] sw [of i] mi by simp
  qed
  ultimately show ?thesis by (simp add: heap_exc_def)
qed

lemma heap_exc_done:
  assumes "heap_exc arr n lo i" and "\<And>c. c \<le> n \<Longrightarrow> c div 2 = i \<Longrightarrow> cmp (at arr c) (at arr i) \<le> 0"
  shows "heap_from arr n lo"
  using assms unfolding heap_exc_def heap_from_def by metis

lemma heapify_ok:
  assumes "heap_exc arr n lo i" and "1 \<le> lo" and "lo \<le> i" and "i \<le> n" and "n \<le> length arr" and "n < 2 ^ 31"
  shows "\<exists>arr'. heapify cmp arr i n = Some arr' \<and> heap_from arr' n lo \<and> length arr' = length arr \<and>
     mset (take n arr') = mset (take n arr) \<and> drop n arr' = drop n arr"
  using assms
proof (induction "n - i" arbitrary: arr i rule: less_induct)
  case less
  let ?l = "2 * i" and ?r = "2 * i + 1"
  have w: "wrap32 ?l = ?l" "wrap32 ?r = ?r" using less.prems(4,6) by simp_all
  define m1 where "m1 = (if ?l \<le> n \<and> cmp (at arr ?l) (at arr i) > 0 then ?l else i)"
  define mx where "mx = (if ?r \<le> n \<and> cmp (at arr ?r) (at arr m1) > 0 then ?r else m1)"
  have i1: "1 \<le> i" using less.prems(2,3) by simp
  have m1: "1 \<le> m1" "m1 \<le> n" using i1 less.prems(4) by (auto simp: m1_def)
  have p1: "pick_max cmp arr n ?l i = Some m1"
    using pick_max_eq [of ?l i n arr] i1 less.prems(4,5) by (simp add: m1_def)
  have p2: "pick_max cmp arr n ?r m1 = Some mx"
    using pick_max_eq [of ?r m1 n arr] m1 less.prems(5) by (simp add: mx_def)
  have run: "heapify cmp arr i n =
      (if mx = i then Some arr else do { arr \<leftarrow> do_swap arr i mx; heapify cmp arr mx n })"
    by (subst heapify.simps) (simp only: Let_def w p1 p2 Option.bind.simps)
  have kids: "c = ?l \<or> c = ?r" if "c div 2 = i" for c using that by auto
  have le1: "cmp (at arr i) (at arr m1) \<le> 0" "?l \<le> n \<Longrightarrow> cmp (at arr ?l) (at arr m1) \<le> 0"
    using anti [of "at arr ?l" "at arr i"] refl by (auto simp: m1_def not_less)
  have le2: "cmp (at arr m1) (at arr mx) \<le> 0" "?r \<le> n \<Longrightarrow> cmp (at arr ?r) (at arr mx) \<le> 0"
    using anti [of "at arr ?r" "at arr m1"] refl by (auto simp: mx_def not_less)
  have best: "cmp (at arr c) (at arr mx) \<le> 0" if "c \<le> n" "c div 2 = i" for c
    using kids [OF that(2)] le2 le1(2) that(1) trans by blast
  show ?case
  proof (cases "mx = i")
    case True
    then show ?thesis using run heap_exc_done [OF less.prems(1)] best by auto
  next
    case False
    then have mx: "mx = ?l \<or> mx = ?r" "mx \<le> n" "i < mx" using i1 by (auto simp: mx_def m1_def split: if_splits)
    have ia: "in_array arr i" "in_array arr mx" using i1 mx less.prems(4,5) by (auto simp: in_array_def)
    have le: "cmp (at arr i) (at arr mx) \<le> 0" using trans le1(1) le2(1) by blast
    have ex: "heap_exc (swap arr i mx) n lo mx"
      by (rule heap_exc_swap [OF less.prems(1-5) mx(1,2) le best])
    have "\<exists>arr'. heapify cmp (swap arr i mx) mx n = Some arr' \<and> heap_from arr' n lo \<and>
        length arr' = length (swap arr i mx) \<and>
        mset (take n arr') = mset (take n (swap arr i mx)) \<and> drop n arr' = drop n (swap arr i mx)"
      using less.hyps [OF _ ex] mx less.prems by simp
    then show ?thesis
      using run False do_swap_eq [OF ia] mset_take_swap [of i n mx arr] drop_swap [of i n mx arr] i1 mx less.prems(4,5)
      by auto
  qed
qed

lemma heap_exc_weaken: "heap_from arr n (Suc i) \<Longrightarrow> 1 \<le> i \<Longrightarrow> heap_exc arr n i i"
  unfolding heap_from_def heap_exc_def by auto

lemma build_heap_ok:
  assumes "heap_from arr n (Suc i)" and "n \<le> length arr" and "n < 2 ^ 31" and "i \<le> n"
  shows "\<exists>arr'. build_heap cmp arr n i = Some arr' \<and> heap_from arr' n 1 \<and> length arr' = length arr \<and>
     mset (take n arr') = mset (take n arr) \<and> drop n arr' = drop n arr"
  using assms
proof (induction i arbitrary: arr)
  case (Suc i)
  obtain arr1 where a1: "heapify cmp arr (Suc i) n = Some arr1" "heap_from arr1 n (Suc i)" "length arr1 = length arr"
     "mset (take n arr1) = mset (take n arr)" "drop n arr1 = drop n arr"
    using heapify_ok [OF heap_exc_weaken [OF Suc.prems(1)]] Suc.prems(2-4) by auto
  show ?case using Suc.IH [OF a1(2)] Suc.prems a1 by auto
qed simp

lemma heap_root_max:
  assumes "heap_from arr n 1" and "1 \<le> c" and "c \<le> n"
  shows "cmp (at arr c) (at arr 1) \<le> 0"
  using assms(2,3)
proof (induction c rule: less_induct)
  case (less c)
  show ?case
  proof (cases "c = 1")
    case False
    then have c: "1 \<le> c div 2" "c div 2 < c" using less.prems by auto
    have "cmp (at arr c) (at arr (c div 2)) \<le> 0" using assms(1) less.prems c unfolding heap_from_def by auto
    moreover have "cmp (at arr (c div 2)) (at arr 1) \<le> 0" using less.IH [OF c(2,1)] less.prems c by simp
    ultimately show ?thesis by (rule trans)
  qed (simp add: refl)
qed

text \<open>The last \<open>length arr - i\<close> elements are in place, the first \<open>i\<close> are a heap of smaller ones.\<close>

definition partly_sorted :: "'a list \<Rightarrow> nat \<Rightarrow> bool" where
  "partly_sorted arr i \<longleftrightarrow>
     i \<le> length arr \<and> heap_from arr i 1 \<and> sorted_wrt (\<lambda>x y. cmp x y \<le> 0) (drop i arr) \<and>
     (\<forall>x\<in>set (take i arr). \<forall>y\<in>set (drop i arr). cmp x y \<le> 0)"

lemma set_take_max:
  assumes "heap_from arr i 1" and "i \<le> length arr" and "x \<in> set (take i arr)"
  shows "cmp x (at arr 1) \<le> 0"
proof -
  obtain k where "k < i" "x = arr ! k" using assms(2,3) by (auto simp: in_set_conv_nth)
  then show ?thesis using heap_root_max [OF assms(1), of "Suc k"] by (simp add: at_def)
qed

lemma sort_step:
  assumes ps: "partly_sorted arr i" and i: "1 < i" "i < 2 ^ 31"
  shows "\<exists>arr'. heapify cmp (swap arr 1 i) 1 (i - 1) = Some arr' \<and> partly_sorted arr' (i - 1) \<and>
     length arr' = length arr \<and> mset arr' = mset arr"
proof -
  let ?b = "swap arr 1 i"
  have hp: "heap_from arr i 1" and len: "i \<le> length arr" using ps by (simp_all add: partly_sorted_def)
  have ia: "in_array arr 1" "in_array arr i" using i len by (simp_all add: in_array_def)
  have "heap_exc ?b (i - 1) 1 1"
    unfolding heap_exc_def
  proof (intro conjI allI impI)
    fix c assume c: "c \<le> i - 1" "1 \<le> c div 2 \<and> c div 2 \<noteq> 1"
    then have ne: "c \<noteq> 1" "c \<noteq> i" "c div 2 \<noteq> i" "1 \<le> c" using i by auto
    have "cmp (at arr c) (at arr (c div 2)) \<le> 0" using hp c i unfolding heap_from_def by auto
    then show "cmp (at ?b c) (at ?b (c div 2)) \<le> 0" using at_swap [OF ia] ne c(2) by simp
  qed simp
  moreover have "1 \<le> i - 1" "i - 1 \<le> length ?b" "i - 1 < 2 ^ 31" using i len by auto
  ultimately obtain arr' where h: "heapify cmp ?b 1 (i - 1) = Some arr'" "heap_from arr' (i - 1) 1"
     "length arr' = length ?b" "mset (take (i - 1) arr') = mset (take (i - 1) ?b)" "drop (i - 1) arr' = drop (i - 1) ?b"
    using heapify_ok [of ?b "i - 1" 1 1] by blast
  have top: "?b ! (i - 1) = at arr 1" using at_swap [OF ia, of i] i by (simp add: at_def)
  have dr: "drop (i - 1) ?b = at arr 1 # drop i arr"
    using Cons_nth_drop_Suc [of "i - 1" ?b] drop_swap [of 1 i i arr] i len top by simp
  have tk: "set (take (i - 1) arr') \<subseteq> set (take i arr)"
  proof -
    have "set (take (i - 1) arr') = set (take (i - 1) ?b)" using mset_eq_setD [OF h(4)] .
    also have "\<dots> \<subseteq> set (take i ?b)" by (rule set_take_subset_set_take) simp
    also have "\<dots> = set (take i arr)" using mset_eq_setD [OF mset_take_swap [of 1 i i arr]] i len by simp
    finally show ?thesis .
  qed
  have mx: "cmp x (at arr 1) \<le> 0" if "x \<in> set (take i arr)" for x by (rule set_take_max [OF hp len that])
  have "at arr 1 \<in> set (take i arr)" using i len by (auto simp: at_def in_set_conv_nth intro!: exI [of _ 0])
  then have "partly_sorted arr' (i - 1)"
    using ps h(2,3) tk mx len unfolding partly_sorted_def h(5) dr by auto
  moreover have "mset arr' = mset arr"
  proof -
    have "mset arr' = mset (take (i - 1) arr') + mset (drop (i - 1) arr')" by (metis append_take_drop_id mset_append)
    also have "\<dots> = mset ?b" unfolding h(4,5) by (metis append_take_drop_id mset_append)
    finally show ?thesis using mset_swap_at [OF ia] by simp
  qed
  ultimately show ?thesis using h(1,3) by auto
qed

lemma sort_heap_ok:
  "partly_sorted arr i \<Longrightarrow> i < 2 ^ 31 \<Longrightarrow>
   \<exists>arr'. sort_heap cmp arr i = Some arr' \<and> sorted_wrt (\<lambda>x y. cmp x y \<le> 0) arr' \<and> mset arr' = mset arr"
proof (induction i arbitrary: arr rule: less_induct)
  case (less i)
  show ?case
  proof (cases "1 < i")
    case True
    have ia: "in_array arr 1" "in_array arr i" using less.prems True by (auto simp: partly_sorted_def in_array_def)
    obtain arr1 where a: "heapify cmp (swap arr 1 i) 1 (i - 1) = Some arr1" "partly_sorted arr1 (i - 1)" "mset arr1 = mset arr"
      using sort_step [OF less.prems(1) True less.prems(2)] by blast
    have run: "sort_heap cmp arr i = sort_heap cmp arr1 (i - 1)"
      using True do_swap_eq [OF ia] a(1) by (subst sort_heap.simps) simp
    show ?thesis using less.IH [of "i - 1" arr1] True a(2,3) less.prems(2) unfolding run by auto
  next
    case False
    then have "sorted_wrt (\<lambda>x y. cmp x y \<le> 0) (take i arr)" by (cases arr; cases i) auto
    then have "sorted_wrt (\<lambda>x y. cmp x y \<le> 0) (take i arr @ drop i arr)"
      using less.prems(1) unfolding sorted_wrt_append partly_sorted_def by blast
    then show ?thesis using False by (subst sort_heap.simps) simp
  qed
qed

lemma sort_array_ok:
  assumes "length arr < 2 ^ 31"
  shows "\<exists>arr'. sort_array cmp arr (length arr) = Some arr' \<and> sorted_wrt (\<lambda>x y. cmp x y \<le> 0) arr' \<and> mset arr' = mset arr"
proof -
  let ?n = "length arr"
  have "c div 2 \<le> ?n div 2" if "c \<le> ?n" for c using that by (rule div_le_mono)
  then have "heap_from arr ?n (Suc (?n div 2))" unfolding heap_from_def by fastforce
  from build_heap_ok [OF this] assms obtain arr1 where a: "build_heap cmp arr ?n (?n div 2) = Some arr1"
     "heap_from arr1 ?n 1" "length arr1 = ?n" "mset (take ?n arr1) = mset (take ?n arr)" by auto
  then have "partly_sorted arr1 ?n" by (simp add: partly_sorted_def)
  from sort_heap_ok [OF this assms] show ?thesis using a by (auto simp: sort_array_def)
qed

lemma binary_search_ok:
  assumes "sorted_wrt (\<lambda>x y. cmp x y \<le> 0) arr"
  shows "hi \<le> length arr \<Longrightarrow> (\<And>k. k < lo \<Longrightarrow> k < length arr \<Longrightarrow> cmp key (arr ! k) \<noteq> 0) \<Longrightarrow>
     (\<And>k. hi \<le> k \<Longrightarrow> k < length arr \<Longrightarrow> cmp key (arr ! k) \<noteq> 0) \<Longrightarrow>
     (case binary_search_loop cmp key arr lo hi of
        Some i \<Rightarrow> i < length arr \<and> cmp key (arr ! i) = 0
      | None \<Rightarrow> \<forall>k<length arr. cmp key (arr ! k) \<noteq> 0)"
proof (induction "hi - lo" arbitrary: lo hi rule: less_induct)
  case less
  show ?case
  proof (cases "lo < hi")
    case True
    let ?m = "lo + (hi - lo) div 2"
    have m: "lo \<le> ?m" "?m < hi" using True by auto
    have mono: "cmp (arr ! j) (arr ! k) \<le> 0" if "j \<le> k" "k < length arr" for j k
      using assms that refl [of "arr ! k"] by (cases "j = k") (auto simp: sorted_wrt_iff_nth_less)
    consider "cmp key (arr ! ?m) < 0" | "cmp key (arr ! ?m) > 0" | "cmp key (arr ! ?m) = 0" by linarith
    then show ?thesis
    proof cases
      case 1
      have "cmp key (arr ! k) \<noteq> 0" if "?m \<le> k" "k < length arr" for k
      proof
        assume "cmp key (arr ! k) = 0"
        then have "cmp (arr ! k) key \<le> 0" using anti [of "arr ! k" key] by linarith
        then have "cmp (arr ! ?m) key \<le> 0" using trans mono [OF that] by blast
        then show False using 1 anti [of "arr ! ?m" key] by linarith
      qed
      then show ?thesis using less.hyps [of ?m lo] less.prems m 1 True by (subst binary_search_loop.simps) (simp add: Let_def)
    next
      case 2
      have "cmp key (arr ! k) \<noteq> 0" if "k < Suc ?m" "k < length arr" for k
      proof
        assume "cmp key (arr ! k) = 0"
        moreover have "cmp (arr ! k) (arr ! ?m) \<le> 0" using mono [of k ?m] that m less.prems(1) by simp
        ultimately have "cmp key (arr ! ?m) \<le> 0" using trans [of key "arr ! k" "arr ! ?m"] by simp
        then show False using 2 by simp
      qed
      then show ?thesis using less.hyps [of hi "Suc ?m"] less.prems m 2 True by (subst binary_search_loop.simps) (simp add: Let_def)
    next
      case 3
      then show ?thesis using True m less.prems(1) by (subst binary_search_loop.simps) (simp add: Let_def)
    qed
  next
    case False
    then have "cmp key (arr ! k) \<noteq> 0" if "k < length arr" for k
      using less.prems(2,3) [of k] that by (cases "k < lo") auto
    then show ?thesis using False by (subst binary_search_loop.simps) simp
  qed
qed

end

section \<open>The order of strings\<close>

text \<open>What \<open>strcmp\<close> computes, as a comparison of byte lists.\<close>

definition str_cmp :: "byte list compare" where
  "str_cmp xs ys = (if xs = ys then 0 else if (xs, ys) \<in> lexord byte_less then -1 else 1)"

lemma strcmp_str_cmp: "str_at m p xs \<Longrightarrow> str_at m q ys \<Longrightarrow> strcmp m p q = Some (str_cmp xs ys)"
  by (simp add: strcmp_str str_cmp_def)

lemma lexord_byte:
  "(xs, ys) \<in> lexord byte_less \<Longrightarrow> (ys, xs) \<notin> lexord byte_less"
  "xs \<noteq> ys \<Longrightarrow> (xs, ys) \<notin> lexord byte_less \<Longrightarrow> (ys, xs) \<in> lexord byte_less"
  "(xs, ys) \<in> lexord byte_less \<Longrightarrow> (ys, zs) \<in> lexord byte_less \<Longrightarrow> (xs, zs) \<in> lexord byte_less"
proof -
  have "asym byte_less" by (rule asymI) (auto simp: byte_less_def)
  then show "(xs, ys) \<in> lexord byte_less \<Longrightarrow> (ys, xs) \<notin> lexord byte_less" by (rule lexord_asymmetric)
  have "\<forall>a b. (a, b) \<in> byte_less \<or> a = b \<or> (b, a) \<in> byte_less" by (auto simp: byte_less_def)
  from lexord_linear [OF this] show "xs \<noteq> ys \<Longrightarrow> (xs, ys) \<notin> lexord byte_less \<Longrightarrow> (ys, xs) \<in> lexord byte_less" by blast
  have "trans byte_less" by (rule transI) (auto simp: byte_less_def)
  then show "(xs, ys) \<in> lexord byte_less \<Longrightarrow> (ys, zs) \<in> lexord byte_less \<Longrightarrow> (xs, zs) \<in> lexord byte_less"
    by (meson lexord_trans)
qed

lemma str_cmp_le: "str_cmp xs ys \<le> 0 \<longleftrightarrow> xs = ys \<or> (xs, ys) \<in> lexord byte_less"
  by (simp add: str_cmp_def)

interpretation str_order: cmp_order str_cmp
proof
  fix a b c
  show "0 < str_cmp a b \<longleftrightarrow> str_cmp b a < 0" 
    using lexord_byte(1) [of b a] lexord_byte(2) [of a b] unfolding str_cmp_def by (cases "a = b") simp_all
  show "str_cmp a b \<le> 0 \<Longrightarrow> str_cmp b c \<le> 0 \<Longrightarrow> str_cmp a c \<le> 0" 
    using lexord_byte(3) [of a b c] unfolding str_cmp_le by blast
qed

section \<open>Properties\<close>

text \<open>C27: \<open>qsort\<close> ends and sorts any array with fewer than \<open>2 ^ 31\<close> elements, keeping its elements, for every
  comparison function that keeps the documented contract; \<open>bsearch\<close> on the sorted array then finds a
  matching element exactly when there is one.\<close>

theorem qsort_bsearch:
  assumes "cmp_order compare" and "length arr < 2 ^ 31"
  shows "\<exists>arr'. qsort arr (length arr) compare = Some arr' \<and> mset arr' = mset arr \<and>
      sorted_wrt (\<lambda>x y. compare x y \<le> 0) arr' \<and>
      (\<forall>key. case bsearch key arr' (length arr) compare of
         Some i \<Rightarrow> i < length arr \<and> compare key (arr' ! i) = 0
       | None \<Rightarrow> \<forall>x\<in>set arr. compare key x \<noteq> 0)"
proof -
  have th: "compare_thunk compare = compare" by (simp add: fun_eq_iff compare_thunk_def)
  obtain arr' where a: "sort_array compare arr (length arr) = Some arr'" "mset arr' = mset arr"
     "sorted_wrt (\<lambda>x y. compare x y \<le> 0) arr'"
    using cmp_order.sort_array_ok [OF assms] by blast
  have len: "length arr' = length arr" "set arr' = set arr" using mset_eq_length [OF a(2)] mset_eq_setD [OF a(2)] by auto
  have "case bsearch key arr' (length arr) compare of
         Some i \<Rightarrow> i < length arr \<and> compare key (arr' ! i) = 0
       | None \<Rightarrow> \<forall>x\<in>set arr. compare key x \<noteq> 0" for key
    using cmp_order.binary_search_ok [OF assms(1) a(3), of "length arr" 0 key] len
    by (auto simp: bsearch_def binary_search_def th all_set_conv_all_nth simp flip: len(2) split: option.splits)
  then show ?thesis using a by (auto simp: qsort_def th)
qed

theorem qsort_bsearch_witness:
  "cmp_order str_cmp \<and>
   (\<exists>arr'. qsort [[3], [1, 2], [1]] 3 str_cmp = Some arr' \<and> mset arr' = {#[3], [1, 2], [1]#} \<and>
      sorted_wrt (\<lambda>x y. str_cmp x y \<le> 0) arr')"
  using str_order.cmp_order_axioms qsort_bsearch [OF str_order.cmp_order_axioms, of "[[3], [1, 2], [1]]"]
  by (auto simp: numeral_3_eq_3)

text \<open>C28: \<open>atoi\<close> skips white space, takes an optional sign and the longest run of digits after it, and
  returns their decimal value modulo \<open>2 ^ 32\<close> with that sign; in particular every \<open>int\<close> that fits is
  converted exactly, the most negative one included.\<close>

theorem atoi_decimal:
  assumes "str_at m s (ws @ sg @ ds @ rest)" and "\<forall>w\<in>set ws. isspace w" and "sg \<in> {[], [0x2b], [0x2d]}"
    and "\<forall>d\<in>set ds. isdigit d" and "rest = [] \<or> \<not> isdigit (hd rest)" and "ds \<noteq> []"
  shows "atoi m s = Some (if sg = [0x2d] then - of_nat (dec_value 0 ds) else of_nat (dec_value 0 ds))"
  by (rule atoi_str [OF assms])

text \<open>The text \<open>" -42x"\<close>.\<close>

definition demo_number :: memory where
  "demo_number a = (if a = 100 then 0x20 else if a = 101 then 0x2d else if a = 102 then 0x34
     else if a = 103 then 0x32 else if a = 104 then 0x78 else 0)"

theorem atoi_decimal_witness: "atoi demo_number 100 = Some (- 42)"
proof -
  have "str_at demo_number 100 ([0x20] @ [0x2d] @ [0x34, 0x32] @ [0x78])" by (simp add: demo_number_def)
  from atoi_decimal [OF this] show ?thesis by (simp add: isspace_def isdigit_def digit_val_def)
qed

end
