(* ===== verification/Stdio.thy ===== *)
theory Stdio
  imports Stdlib "HOL-Library.Sublist"
begin

unbundle bit_operations_syntax

text \<open>
  \<open>lib/stdio.c\<close>: the formatting engine behind \<open>printf\<close> and \<open>snprintf\<close>. A format string is the list
  of its characters (the terminating null character stands past its end, so \<open>peek []\<close> is 0), and
  stepping past the terminator has no result. A \<open>va_list\<close> is the list of the 32-bit argument slots still
  unread; reading past the last one has no result. Every function that the source gives an \<open>output\<close>
  callback returns the characters it passes to it, in order. Strings printed by \<open>%s\<close> are read from
  the memory \<open>m\<close> of the call.
\<close>

section \<open>Conversions\<close>

definition MINUS :: "32 word" where "MINUS = 1"
definition PLUS :: "32 word" where "PLUS = 2"
definition SPACE :: "32 word" where "SPACE = 4"
definition POUND :: "32 word" where "POUND = 8"
definition ZERO :: "32 word" where "ZERO = 16"
definition GROUP :: "32 word" where "GROUP = 32"

lemmas flag_defs = MINUS_def PLUS_def SPACE_def POUND_def ZERO_def GROUP_def

datatype arg_type = T_CHAR | T_SHORT | T_INT | T_INTMAX | T_LONG | T_LONGLONG | T_PTRDIFFT | T_SIZET

text \<open>\<open>width\<close> and \<open>precision\<close> are \<open>int\<close>s in two's complement.\<close>

record printf_conversion =
  flags :: "32 word"
  width :: "32 word"
  precision :: "32 word"
  type_of :: arg_type

record integer_base =
  ib_base :: nat
  ib_digits :: "byte list"
  ib_x :: byte
  ib_group :: nat

definition lit :: "string \<Rightarrow> byte list" where
  "lit s = map of_char s"

definition base_d :: integer_base where
  "base_d = \<lparr> ib_base = 10, ib_digits = lit ''0123456789'', ib_x = 0, ib_group = 3 \<rparr>"

definition base_o :: integer_base where
  "base_o = \<lparr> ib_base = 8, ib_digits = lit ''01234567'', ib_x = 0, ib_group = 3 \<rparr>"

definition base_x :: integer_base where
  "base_x = \<lparr> ib_base = 16, ib_digits = lit ''0123456789abcdef'', ib_x = of_char (CHR ''x''), ib_group = 4 \<rparr>"

definition base_X :: integer_base where
  "base_X = \<lparr> ib_base = 16, ib_digits = lit ''0123456789ABCDEF'', ib_x = of_char (CHR ''X''), ib_group = 4 \<rparr>"

definition has :: "printf_conversion \<Rightarrow> 32 word \<Rightarrow> bool" where
  "has c f \<longleftrightarrow> flags c AND f \<noteq> 0"

section \<open>Variable arguments\<close>

type_synonym va_list = "32 word list"

fun va_arg32 :: "va_list \<Rightarrow> (32 word \<times> va_list) option" where
  "va_arg32 (a # args) = Some (a, args)"
| "va_arg32 [] = None"

fun va_arg64 :: "va_list \<Rightarrow> (64 word \<times> va_list) option" where
  "va_arg64 (lo # hi # args) = Some (push_bit 32 (ucast hi) OR ucast lo, args)"
| "va_arg64 _ = None"

section \<open>Parsing a conversion\<close>

fun peek :: "byte list \<Rightarrow> byte" where
  "peek [] = 0"
| "peek (c # cs) = c"

definition is_char :: "byte \<Rightarrow> char \<Rightarrow> bool" where
  "is_char b c \<longleftrightarrow> b = of_char c"

fun parse_flags :: "32 word \<Rightarrow> byte list \<Rightarrow> 32 word \<times> byte list" where
  "parse_flags fl (c # cs) =
     (if is_char c CHR ''-'' then parse_flags (fl OR MINUS) cs
      else if is_char c CHR ''+'' then parse_flags (fl OR PLUS) cs
      else if is_char c CHR '' '' then parse_flags (fl OR SPACE) cs
      else if is_char c CHR ''#'' then parse_flags (fl OR POUND) cs
      else if is_char c CHR ''0'' then parse_flags (fl OR ZERO) cs
      else if c = 0x27 then parse_flags (fl OR GROUP) cs
      else (fl, c # cs))"
| "parse_flags fl [] = (fl, [])"

definition fix_flags :: "32 word \<Rightarrow> 32 word" where
  "fix_flags fl = (let fl = (if fl AND MINUS \<noteq> 0 then fl AND NOT ZERO else fl)
                   in if fl AND PLUS \<noteq> 0 then fl AND NOT SPACE else fl)"

fun parse_number :: "32 word \<Rightarrow> byte list \<Rightarrow> 32 word \<times> byte list" where
  "parse_number v (c # cs) =
     (if isdigit c then parse_number (v * 10 + ucast c - 0x30) cs else (v, c # cs))"
| "parse_number v [] = (v, [])"

definition parse_width :: "32 word \<Rightarrow> byte list \<Rightarrow> va_list \<Rightarrow> (32 word \<times> 32 word \<times> byte list \<times> va_list) option" where
  "parse_width fl fmt args = do {
     (w, fmt, args) \<leftarrow> (if is_char (peek fmt) CHR ''*''
       then do { (w, args) \<leftarrow> va_arg32 args; Some (w, tl fmt, args) }
       else (case parse_number 0 fmt of (w, fmt) \<Rightarrow> Some (w, fmt, args)));
     Some (if sint w < 0 then (fl OR MINUS, - w, fmt, args) else (fl, w, fmt, args)) }"

definition parse_precision :: "32 word \<Rightarrow> byte list \<Rightarrow> va_list \<Rightarrow> (32 word \<times> 32 word \<times> byte list \<times> va_list) option" where
  "parse_precision fl fmt args = do {
     (p, fmt, args) \<leftarrow> (if is_char (peek fmt) CHR ''.'' then do {
         let fmt = tl fmt;
         (p, fmt, args) \<leftarrow> (if is_char (peek fmt) CHR ''*''
           then do { (p, args) \<leftarrow> va_arg32 args; Some (p, tl fmt, args) }
           else (case parse_number 0 fmt of (p, fmt) \<Rightarrow> Some (p, fmt, args)));
         Some (if sint p < 0 then - 1 else p, fmt, args) }
       else Some (- 1, fmt, args));
     Some (if sint p \<ge> 0 then fl AND NOT ZERO else fl, p, fmt, args) }"

definition parse_type :: "byte list \<Rightarrow> arg_type \<times> byte list" where
  "parse_type fmt =
     (let c = peek fmt; rest = tl fmt in
      if is_char c CHR ''h'' then (if is_char (peek rest) CHR ''h'' then (T_CHAR, tl rest) else (T_SHORT, rest))
      else if is_char c CHR ''j'' then (T_INTMAX, rest)
      else if is_char c CHR ''l'' then (if is_char (peek rest) CHR ''l'' then (T_LONGLONG, tl rest) else (T_LONG, rest))
      else if is_char c CHR ''t'' then (T_PTRDIFFT, rest)
      else if is_char c CHR ''z'' then (T_SIZET, rest)
      else (T_INT, fmt))"

definition parse_conversion :: "byte list \<Rightarrow> va_list \<Rightarrow> (printf_conversion \<times> byte list \<times> va_list) option" where
  "parse_conversion fmt args = do {
     let (fl, fmt) = parse_flags 0 fmt;
     (fl, w, fmt, args) \<leftarrow> parse_width (fix_flags fl) fmt args;
     (fl, p, fmt, args) \<leftarrow> parse_precision fl fmt args;
     let (t, fmt) = parse_type fmt;
     Some (\<lparr> flags = fl, width = w, precision = p, type_of = t \<rparr>, fmt, args) }"

section \<open>Formatting\<close>

text \<open>\<open>buf\<close> has room for 64 characters; a write past it has no result.\<close>

definition put_buf :: "byte list \<Rightarrow> byte \<Rightarrow> byte list option" where
  "put_buf buf ch = (if length buf < 64 then Some (buf @ [ch]) else None)"

partial_function (option) digit_loop :: "integer_base \<Rightarrow> printf_conversion \<Rightarrow> nat \<Rightarrow> nat \<Rightarrow> byte list \<Rightarrow> byte list option" where
  "digit_loop b c val digit_cnt buf =
     (if val > 0 then do {
        buf \<leftarrow> (if has c GROUP \<and> digit_cnt > 0 \<and> digit_cnt mod ib_group b = 0
                then put_buf buf (of_char CHR '','') else Some buf);
        buf \<leftarrow> put_buf buf (ib_digits b ! (val mod ib_base b));
        digit_loop b c (val div ib_base b) (digit_cnt + 1) buf }
      else Some buf)"

text \<open>The zeros that match the precision; the last argument counts the free places below \<open>sizeof buf - 1\<close>.\<close>

fun pad_zeros :: "int \<Rightarrow> byte list \<Rightarrow> nat \<Rightarrow> byte list" where
  "pad_zeros prec buf 0 = buf"
| "pad_zeros prec buf (Suc n) =
     (if int (length buf) < prec then pad_zeros prec (buf @ [of_char CHR ''0'']) n else buf)"

definition output_dup :: "byte \<Rightarrow> nat \<Rightarrow> byte list" where
  "output_dup ch cnt = replicate cnt ch"

text \<open>The sign character, or 0 for none.\<close>

definition sign_char :: "bool \<Rightarrow> bool \<Rightarrow> printf_conversion \<Rightarrow> byte" where
  "sign_char is_signed negative c =
     (if is_signed then
        if has c PLUS then (if negative then of_char CHR ''-'' else of_char CHR ''+'')
        else if has c SPACE then (if negative then of_char CHR ''-'' else of_char CHR '' '')
        else if negative then of_char CHR ''-'' else 0
      else 0)"

definition integer_digits :: "nat \<Rightarrow> integer_base \<Rightarrow> printf_conversion \<Rightarrow> byte list option" where
  "integer_digits val b c = do {
     buf \<leftarrow> digit_loop b c val 0 [];
     let prec = (if sint (precision c) < 0 then 1 else sint (precision c));
     let buf = pad_zeros prec buf (63 - length buf);
     if has c POUND \<and> ib_base b = 8 \<and> (buf = [] \<or> last buf \<noteq> of_char CHR ''0'')
     then put_buf buf (of_char CHR ''0'') else Some buf }"

definition format_integer :: "nat \<Rightarrow> bool \<Rightarrow> bool \<Rightarrow> integer_base \<Rightarrow> printf_conversion \<Rightarrow> byte list option" where
  "format_integer val is_signed negative b c = do {
     let sign = sign_char is_signed negative c;
     let x = (if has c POUND \<and> val \<noteq> 0 then ib_x b else 0);
     buf \<leftarrow> integer_digits val b c;
     let pad_cnt = width c - of_nat (length buf) - (if x \<noteq> 0 then 2 else 0) - (if sign \<noteq> 0 then 1 else 0);
     let pad_cnt = (if sint pad_cnt < 0 then 0 else unat pad_cnt);
     Some ((if flags c AND (MINUS OR ZERO) = 0 then output_dup (of_char CHR '' '') pad_cnt else []) @
           (if sign \<noteq> 0 then [sign] else []) @
           (if x \<noteq> 0 then [of_char CHR ''0'', x] else []) @
           (if has c ZERO then output_dup (of_char CHR ''0'') pad_cnt else []) @
           rev buf @
           (if has c MINUS then output_dup (of_char CHR '' '') pad_cnt else [])) }"

text \<open>The characters of a string are given by their positions.\<close>

definition format_string :: "(nat \<Rightarrow> byte) \<Rightarrow> 32 word \<Rightarrow> printf_conversion \<Rightarrow> byte list" where
  "format_string str len c =
     (if sint (width c) > sint len \<and> \<not> has c MINUS then output_dup (of_char CHR '' '') (unat (width c - len)) else []) @
     map str [0..<nat (sint len)] @
     (if sint (width c) > sint len \<and> has c MINUS then output_dup (of_char CHR '' '') (unat (width c - len)) else [])"

section \<open>The conversions of \<open>__vprintf\<close>\<close>

definition signed_arg :: "arg_type \<Rightarrow> va_list \<Rightarrow> (64 word \<times> va_list) option" where
  "signed_arg t args = (case t of
     T_CHAR \<Rightarrow> do { (v, args) \<leftarrow> va_arg32 args; Some (scast (ucast v :: 8 word), args) }
   | T_SHORT \<Rightarrow> do { (v, args) \<leftarrow> va_arg32 args; Some (scast (ucast v :: 16 word), args) }
   | T_INT \<Rightarrow> do { (v, args) \<leftarrow> va_arg32 args; Some (scast v, args) }
   | T_INTMAX \<Rightarrow> va_arg64 args
   | T_LONG \<Rightarrow> do { (v, args) \<leftarrow> va_arg32 args; Some (scast v, args) }
   | T_LONGLONG \<Rightarrow> va_arg64 args
   | T_PTRDIFFT \<Rightarrow> do { (v, args) \<leftarrow> va_arg32 args; Some (scast v, args) }
   | T_SIZET \<Rightarrow> do { (v, args) \<leftarrow> va_arg32 args;
       let val = (ucast v :: 64 word);
       Some (if sint val > 0x7fffffff then val - 0xffffffff - 1 else val, args) })"

definition unsigned_arg :: "arg_type \<Rightarrow> va_list \<Rightarrow> (64 word \<times> va_list) option" where
  "unsigned_arg t args = (case t of
     T_CHAR \<Rightarrow> do { (v, args) \<leftarrow> va_arg32 args; Some (ucast (ucast v :: 8 word), args) }
   | T_SHORT \<Rightarrow> do { (v, args) \<leftarrow> va_arg32 args; Some (ucast (ucast v :: 16 word), args) }
   | T_INT \<Rightarrow> do { (v, args) \<leftarrow> va_arg32 args; Some (ucast v, args) }
   | T_INTMAX \<Rightarrow> va_arg64 args
   | T_LONG \<Rightarrow> do { (v, args) \<leftarrow> va_arg32 args; Some (ucast v, args) }
   | T_LONGLONG \<Rightarrow> va_arg64 args
   | T_PTRDIFFT \<Rightarrow> do { (v, args) \<leftarrow> va_arg32 args; Some (scast v AND (push_bit 1 0x7fffffff OR 1), args) }
   | T_SIZET \<Rightarrow> do { (v, args) \<leftarrow> va_arg32 args; Some (ucast v, args) })"

definition convert_signed :: "printf_conversion \<Rightarrow> va_list \<Rightarrow> (byte list \<times> va_list) option" where
  "convert_signed c args = do {
     (val, args) \<leftarrow> signed_arg (type_of c) args;
     out \<leftarrow> format_integer (unat (if sint val < 0 then - val else val)) True (sint val < 0) base_d c;
     Some (out, args) }"

definition convert_unsigned :: "byte \<Rightarrow> printf_conversion \<Rightarrow> va_list \<Rightarrow> (byte list \<times> va_list) option" where
  "convert_unsigned ch c args = do {
     (val, args) \<leftarrow> unsigned_arg (type_of c) args;
     let b = (if is_char ch CHR ''o'' then base_o else if is_char ch CHR ''u'' then base_d
              else if is_char ch CHR ''x'' then base_x else base_X);
     out \<leftarrow> format_integer (unat val) False False b c;
     Some (out, args) }"

definition convert_char :: "printf_conversion \<Rightarrow> va_list \<Rightarrow> (byte list \<times> va_list) option" where
  "convert_char c args = do {
     (v, args) \<leftarrow> va_arg32 args;
     Some (format_string (\<lambda>_. ucast v) 1 c, args) }"

definition convert_string :: "memory \<Rightarrow> printf_conversion \<Rightarrow> va_list \<Rightarrow> (byte list \<times> va_list) option" where
  "convert_string m c args = do {
     (s, args) \<leftarrow> va_arg32 args;
     let maxlen = unat (precision c);
     Some (if s = 0
           then (format_string (\<lambda>i. lit ''(null)'' ! i) (of_nat (min 6 maxlen)) c, args)
           else (format_string (\<lambda>i. m (s + of_nat i)) (of_nat (strnlen m s maxlen)) c, args)) }"

definition convert_pointer :: "printf_conversion \<Rightarrow> va_list \<Rightarrow> (byte list \<times> va_list) option" where
  "convert_pointer c args = do {
     (p, args) \<leftarrow> va_arg32 args;
     out \<leftarrow> format_integer (unat p) False False base_x (c\<lparr> flags := POUND \<rparr>);
     Some (out, args) }"

text \<open>The loop of \<open>__vprintf\<close>; after a conversion at the terminator of the format the source steps past
  the terminator, which has no result.\<close>

partial_function (option) vprintf_loop :: "memory \<Rightarrow> byte list \<Rightarrow> va_list \<Rightarrow> byte list option" where
  "vprintf_loop m fmt args =
     (case fmt of [] \<Rightarrow> Some []
      | ch # rest \<Rightarrow>
        if \<not> is_char ch CHR ''%'' then do { out \<leftarrow> vprintf_loop m rest args; Some (ch # out) }
        else if is_char (peek rest) CHR ''%'' then do { out \<leftarrow> vprintf_loop m (tl rest) args; Some (of_char CHR ''%'' # out) }
        else do {
          (c, fmt, args) \<leftarrow> parse_conversion rest args;
          let ch = peek fmt;
          (out, args) \<leftarrow>
            (if is_char ch CHR ''d'' \<or> is_char ch CHR ''i'' then convert_signed c args
             else if is_char ch CHR ''o'' \<or> is_char ch CHR ''u'' \<or> is_char ch CHR ''x'' \<or> is_char ch CHR ''X''
             then convert_unsigned ch c args
             else if is_char ch CHR ''c'' then convert_char c args
             else if is_char ch CHR ''s'' then convert_string m c args
             else if is_char ch CHR ''p'' then convert_pointer c args
             else if is_char ch CHR ''f'' \<or> is_char ch CHR ''e'' \<or> is_char ch CHR ''E'' \<or> is_char ch CHR ''g'' \<or>
                     is_char ch CHR ''G'' \<or> is_char ch CHR ''n''
             then do { out \<leftarrow> vprintf_loop m (lit ''<<no %%%c in kernel>>'') [ucast ch]; Some (out, args) }
             else do { out \<leftarrow> vprintf_loop m (lit ''<<no %%%c conversion>>'') [ucast ch]; Some (out, args) });
          if fmt = [] then None
          else do { rest \<leftarrow> vprintf_loop m (tl fmt) args; Some (out @ rest) } })"

section \<open>Printing into a buffer\<close>

record vsnprintf_aux =
  aux_p :: vaddr
  aux_length :: "32 word"
  aux_max_length :: "32 word"

definition vsnprintf_helper :: "byte \<Rightarrow> memory \<times> vsnprintf_aux \<Rightarrow> memory \<times> vsnprintf_aux" where
  "vsnprintf_helper ch s = (case s of (m, aux) \<Rightarrow>
     let len = aux_length aux; aux = aux\<lparr> aux_length := len + 1 \<rparr> in
     if sint len < sint (aux_max_length aux)
     then (m(aux_p aux := ch), aux\<lparr> aux_p := aux_p aux + 1 \<rparr>) else (m, aux))"

definition vsnprintf :: "memory \<Rightarrow> vaddr \<Rightarrow> nat \<Rightarrow> byte list \<Rightarrow> va_list \<Rightarrow> (memory \<times> 32 word) option" where
  "vsnprintf m buffer buf_size fmt args = do {
     out \<leftarrow> vprintf_loop m fmt args;
     let aux = \<lparr> aux_p = buffer, aux_length = 0, aux_max_length = of_nat (if buf_size > 0 then buf_size - 1 else 0) \<rparr>;
     let (m, aux) = fold vsnprintf_helper out (m, aux);
     let m = (if buf_size > 0 then m(aux_p aux := 0) else m);
     Some (m, aux_length aux) }"

definition snprintf :: "memory \<Rightarrow> vaddr \<Rightarrow> nat \<Rightarrow> byte list \<Rightarrow> va_list \<Rightarrow> (memory \<times> 32 word) option" where
  "snprintf m buffer buf_size fmt args = vsnprintf m buffer buf_size fmt args"

section \<open>Printing to the console\<close>

text \<open>The characters that \<open>vprintf\<close> writes and the count that it returns.\<close>

definition vprintf :: "memory \<Rightarrow> byte list \<Rightarrow> va_list \<Rightarrow> (byte list \<times> 32 word) option" where
  "vprintf m fmt args = do { out \<leftarrow> vprintf_loop m fmt args; Some (out, of_nat (length out)) }"

definition printf :: "memory \<Rightarrow> byte list \<Rightarrow> va_list \<Rightarrow> byte list option" where
  "printf m fmt args = do { (out, n) \<leftarrow> vprintf m fmt args; Some out }"

definition isprint :: "byte \<Rightarrow> bool" where
  "isprint c \<longleftrightarrow> 32 \<le> c \<and> c < 127"

fun concat_opt :: "('a \<Rightarrow> 'b list option) \<Rightarrow> 'a list \<Rightarrow> 'b list option" where
  "concat_opt f [] = Some []"
| "concat_opt f (x # xs) = do { a \<leftarrow> f x; b \<leftarrow> concat_opt f xs; Some (a @ b) }"

text \<open>One line of a dump: the positions \<open>start\<close> up to \<open>en\<close> show the bytes at \<open>buf\<close>.\<close>

definition hex_line :: "memory \<Rightarrow> nat \<Rightarrow> vaddr \<Rightarrow> nat \<Rightarrow> nat \<Rightarrow> bool \<Rightarrow> byte list option" where
  "hex_line m ofs buf start en ascii = do {
     a \<leftarrow> printf m (lit ''%08jx  '') [of_nat (ofs div 16 * 16), 0];
     b \<leftarrow> concat_opt (\<lambda>i. printf m (lit ''   '') []) [0..<start];
     c \<leftarrow> concat_opt (\<lambda>i. printf m (lit ''%02hhx%c'')
            [ucast (m (buf + of_nat (i - start))), if i = 16 div 2 - 1 then of_char CHR ''-'' else of_char CHR '' '']) [start..<en];
     d \<leftarrow> (if ascii then do {
         p \<leftarrow> concat_opt (\<lambda>i. printf m (lit ''   '') []) [en..<16];
         q \<leftarrow> printf m (lit ''|'') [];
         r \<leftarrow> concat_opt (\<lambda>i. printf m (lit '' '') []) [0..<start];
         s \<leftarrow> concat_opt (\<lambda>i. let x = m (buf + of_nat (i - start)) in
                printf m (lit ''%c'') [if isprint x then ucast x else of_char CHR ''.'']) [start..<en];
         t \<leftarrow> concat_opt (\<lambda>i. printf m (lit '' '') []) [en..<16];
         u \<leftarrow> printf m (lit ''|'') [];
         Some (p @ q @ r @ s @ t @ u) } else Some []);
     e \<leftarrow> printf m [0x0a] [];
     Some (a @ b @ c @ d @ e) }"

function hex_dump :: "memory \<Rightarrow> nat \<Rightarrow> vaddr \<Rightarrow> nat \<Rightarrow> bool \<Rightarrow> byte list option" where
  "hex_dump m ofs buf sz ascii =
     (if sz > 0 then
        let start = ofs mod 16; en = (if 16 - start > sz then start + sz else 16); n = en - start
        in do {
          l \<leftarrow> hex_line m ofs buf start en ascii;
          rest \<leftarrow> hex_dump m (wrap32 (ofs + n)) (buf + of_nat n) (sz - n) ascii;
          Some (l @ rest) }
      else Some [])"
  by pat_completeness auto
termination
proof (relation "measure (\<lambda>(m, ofs, buf, sz, ascii). sz)", goal_cases)
  case (2 m ofs buf sz ascii start en n l)
  have "ofs mod 16 < 16" by simp
  with 2 show ?case by auto
qed auto

declare hex_dump.simps [simp del]

text \<open>The names of the factors are string literals; \<open>addr\<close> gives their addresses.\<close>

fun scale_size :: "nat \<Rightarrow> string \<Rightarrow> string list \<Rightarrow> nat \<times> string" where
  "scale_size sz f [] = (sz, f)"
| "scale_size sz f (g # gs) = (if sz \<ge> 1024 then scale_size (sz div 1024) g gs else (sz, f))"

definition print_human_readable_size :: "memory \<Rightarrow> (string \<Rightarrow> vaddr) \<Rightarrow> nat \<Rightarrow> byte list option" where
  "print_human_readable_size m addr sz =
     (if sz = 1 then printf m (lit ''1 byte'') []
      else let (n, f) = scale_size sz ''bytes'' [''kB'', ''MB'', ''GB'', ''TB'']
           in printf m (lit ''%llu %s'') [of_nat n, of_nat (n div 2 ^ 32), addr f])"

section \<open>Integers fit the buffer\<close>

lemma put_buf_Some [simp]: "length buf < 64 \<Longrightarrow> put_buf buf ch = Some (buf @ [ch])"
  by (simp add: put_buf_def)

lemma digit_loop_fits:
  "8 \<le> ib_base b \<Longrightarrow> val < 8 ^ k \<Longrightarrow> length buf + 2 * k \<le> 63 \<Longrightarrow>
   \<exists>buf'. digit_loop b c val cnt buf = Some buf' \<and> length buf' \<le> 63"
proof (induction k arbitrary: val cnt buf)
  case 0
  then show ?case by (subst digit_loop.simps) simp
next
  case (Suc k)
  have "val div ib_base b \<le> val div 8" using Suc.prems(1) by (rule div_le_mono2 [rotated]) simp
  also have "\<dots> < 8 ^ k" using Suc.prems(2) by (simp add: less_mult_imp_div_less mult.commute)
  finally have v: "val div ib_base b < 8 ^ k" .
  have len: "length buf < 64" "Suc (length buf) < 64" using Suc.prems(3) by auto
  show ?case
  proof (cases "val = 0")
    case True
    then show ?thesis using Suc.prems(3) by (subst digit_loop.simps) simp
  next
    case False
    let ?b = "if has c GROUP \<and> cnt > 0 \<and> cnt mod ib_group b = 0 then buf @ [of_char CHR '','' :: byte] else buf"
    have "\<exists>buf'. digit_loop b c (val div ib_base b) (cnt + 1) (?b @ [ib_digits b ! (val mod ib_base b)]) = Some buf' \<and>
        length buf' \<le> 63"
      by (rule Suc.IH [OF Suc.prems(1) v]) (use Suc.prems(3) in auto)
    then show ?thesis using False len by (subst digit_loop.simps) auto
  qed
qed

lemma pad_zeros_length: "length buf + n \<le> 63 \<Longrightarrow> length (pad_zeros prec buf n) \<le> 63"
  by (induction prec buf n rule: pad_zeros.induct) auto

lemma integer_digits_fit:
  assumes "8 \<le> ib_base b" "val < 2 ^ 64"
  shows "\<exists>buf. integer_digits val b c = Some buf \<and> length buf \<le> 64"
proof -
  have "val < 8 ^ 22" using assms(2) by simp
  from digit_loop_fits [OF assms(1) this, of "[]" c 0]
  obtain buf where "digit_loop b c val 0 [] = Some buf" "length buf \<le> 63" by auto
  moreover from this have "length (pad_zeros prec buf (63 - length buf)) < 64"
      "length (pad_zeros prec buf (63 - length buf)) \<le> 64" "length (pad_zeros prec buf (63 - length buf)) \<le> 63" for prec
    using pad_zeros_length [of buf "63 - length buf" prec] by auto
  ultimately show ?thesis by (simp add: integer_digits_def Let_def)
qed

section \<open>Decimal numbers\<close>

fun rev_digits :: "nat \<Rightarrow> byte list" where
  "rev_digits v = (if v = 0 then [] else (0x30 + of_nat (v mod 10)) # rev_digits (v div 10))"

declare rev_digits.simps [simp del]

lemma rev_digits_0 [simp]: "rev_digits 0 = []"
  by (subst rev_digits.simps) simp

lemma digit_byte: "v < 10 \<Longrightarrow> isdigit (0x30 + of_nat v) \<and> digit_val (0x30 + of_nat v) = v"
proof -
  assume "v < 10"
  then have "unat (0x30 + of_nat v :: byte) = 48 + v" by (simp add: unat_word_ariths unat_of_nat)
  with \<open>v < 10\<close> show ?thesis by (simp add: isdigit_def digit_val_def word_le_nat_alt)
qed

lemma base_d_digit: "v < 10 \<Longrightarrow> ib_digits base_d ! v = 0x30 + of_nat v"
proof -
  assume "v < 10"
  then have "v \<in> {0, 1, 2, 3, 4, 5, 6, 7, 8, 9}" by auto
  then show ?thesis by (auto simp: base_d_def lit_def)
qed

lemma rev_digits_isdigit: "\<forall>d\<in>set (rev_digits v). isdigit d"
proof (induction v rule: rev_digits.induct)
  case (1 v)
  then show ?case using digit_byte [of "v mod 10"] by (subst rev_digits.simps) auto
qed

lemma dec_value_snoc: "dec_value a (ds @ [d]) = dec_value a ds * 10 + digit_val d"
  by (induction ds arbitrary: a) auto

lemma dec_value_rev_digits: "dec_value 0 (rev (rev_digits v)) = v"
proof (induction v rule: rev_digits.induct)
  case (1 v)
  then show ?case using digit_byte [of "v mod 10"] by (subst rev_digits.simps) (simp add: dec_value_snoc)
qed

lemma rev_digits_length: "v < 10 ^ k \<Longrightarrow> length (rev_digits v) \<le> k"
proof (induction k arbitrary: v)
  case 0
  then show ?case by (subst rev_digits.simps) simp
next
  case (Suc k)
  then have "v div 10 < 10 ^ k" by (simp add: less_mult_imp_div_less mult.commute)
  from Suc.IH [OF this] show ?case by (subst rev_digits.simps) simp
qed

lemma digit_loop_decimal:
  "\<not> has c GROUP \<Longrightarrow> length buf + length (rev_digits v) \<le> 64 \<Longrightarrow>
   digit_loop base_d c v cnt buf = Some (buf @ rev_digits v)"
proof (induction v arbitrary: cnt buf rule: rev_digits.induct)
  case (1 v)
  have b: "ib_base base_d = 10" by (simp add: base_d_def)
  show ?case
  proof (cases "v = 0")
    case True
    then show ?thesis by (subst digit_loop.simps, subst rev_digits.simps) simp
  next
    case False
    have r: "rev_digits v = (0x30 + of_nat (v mod 10)) # rev_digits (v div 10)"
      using False by (subst rev_digits.simps) simp
    have l: "length buf < 64" using "1.prems"(2) by (simp add: r)
    have "digit_loop base_d c (v div 10) (cnt + 1) (buf @ [0x30 + of_nat (v mod 10)]) =
        Some ((buf @ [0x30 + of_nat (v mod 10)]) @ rev_digits (v div 10))"
      by (rule "1.IH" [OF False "1.prems"(1)]) (use "1.prems"(2) in \<open>simp add: r\<close>)
    then show ?thesis using False l "1.prems"(1) base_d_digit [of "v mod 10"]
      by (subst digit_loop.simps) (simp add: b r)
  qed
qed

definition decimal :: "nat \<Rightarrow> byte list" where
  "decimal v = (if v = 0 then [0x30] else rev (rev_digits v))"

lemma decimal_digits: "\<forall>d\<in>set (decimal v). isdigit d" "dec_value 0 (decimal v) = v" "decimal v \<noteq> []"
proof -
  show "\<forall>d\<in>set (decimal v). isdigit d" using rev_digits_isdigit [of v] by (simp add: decimal_def isdigit_def)
  show "dec_value 0 (decimal v) = v" using dec_value_rev_digits [of v] by (simp add: decimal_def digit_val_def)
  show "decimal v \<noteq> []" by (subst decimal_def, subst rev_digits.simps) simp
qed

lemma decimal_length: "v < 10 ^ Suc k \<Longrightarrow> length (decimal v) \<le> Suc k"
  using rev_digits_length [of v "Suc k"] by (simp add: decimal_def)

text \<open>The conversion that a plain \<open>%d\<close> or \<open>%u\<close> describes.\<close>

definition plain :: printf_conversion where
  "plain = \<lparr> flags = 0, width = 0, precision = - 1, type_of = T_INT \<rparr>"

lemma pad_zeros_one: "pad_zeros 1 (rev_digits v) n = (if v = 0 \<and> n > 0 then [0x30] else rev_digits v)"
proof (cases "v = 0")
  case True
  then show ?thesis by (cases n; cases "n - 1") auto
next
  case False
  then have "rev_digits v \<noteq> []" by (subst rev_digits.simps) simp
  then show ?thesis using False by (cases n; cases "rev_digits v") auto
qed

lemma integer_digits_plain: "v < 10 ^ 20 \<Longrightarrow> integer_digits v base_d plain = Some (rev (decimal v))"
proof -
  assume v: "v < 10 ^ 20"
  have l: "length (rev_digits v) \<le> 20" by (rule rev_digits_length [OF v])
  have "digit_loop base_d plain v 0 [] = Some ([] @ rev_digits v)"
    by (rule digit_loop_decimal) (use l in \<open>auto simp: has_def plain_def\<close>)
  then show ?thesis using l
    by (auto simp: integer_digits_def plain_def has_def pad_zeros_one decimal_def)
qed

lemma neg_pad: "1 \<le> k \<Longrightarrow> k < 2 ^ 31 \<Longrightarrow> sint (- of_nat k :: 32 word) < 0"
proof -
  assume k: "1 \<le> k" "k < 2 ^ 31"
  have "(- of_nat k :: 32 word) = word_of_int (- int k)" by simp
  then have "sint (- of_nat k :: 32 word) = (- int k + 2 ^ 31) mod 2 ^ 32 - 2 ^ 31"
    using int_word_sint [of "- int k", where 'a = 32] by (simp del: of_int_minus)
  also have "\<dots> = - int k" using k by (subst mod_pos_pos_trivial) auto
  finally show ?thesis using k by simp
qed

lemma format_integer_plain:
  assumes "v < 10 ^ 20"
  shows "format_integer v True neg base_d plain = Some ((if neg then [0x2d] else []) @ decimal v)"
    and "format_integer v False neg base_d plain = Some (decimal v)"
proof -
  have l: "1 \<le> length (decimal v)" "length (decimal v) \<le> 20"
    using decimal_digits(3) [of v] decimal_length [of v 19] assms by (cases "decimal v", auto)
  have "sint (- (of_nat (length (decimal v)) :: 32 word)) < 0" by (rule neg_pad) (use l in auto)
  moreover have "sint (- of_nat (length (decimal v) + 1) :: 32 word) < 0" by (rule neg_pad) (use l in auto)
  then have "sint (- (of_nat (length (decimal v)) :: 32 word) - 1) < 0"
    by (simp only: of_nat_add of_nat_1 minus_add_distrib diff_conv_add_uminus)
  moreover have "flags plain = 0" "width plain = 0" "ib_x base_d = 0" by (simp_all add: plain_def base_d_def)
  ultimately show "format_integer v True neg base_d plain = Some ((if neg then [0x2d] else []) @ decimal v)"
    "format_integer v False neg base_d plain = Some (decimal v)"
    by (auto simp: format_integer_def integer_digits_plain [OF assms] sign_char_def has_def output_dup_def)
qed

lemma vprintf_loop_d: "vprintf_loop m (lit ''%d'') [v] =
   Some ((if sint v < 0 then [0x2d] else []) @ decimal (nat \<bar>sint v\<bar>))"
proof -
  have r: "- (2 ^ 31) \<le> sint v" "sint v < 2 ^ 31" using sint_ge [of v] sint_lt [of v] by auto
  let ?w = "scast v :: 64 word"
  have s: "sint ?w = sint v" by (rule sint_up_scast) (simp add: is_up)
  have u: "unat (if sint ?w < 0 then - ?w else ?w) = nat \<bar>sint v\<bar>"
  proof -
    have w: "?w = word_of_int (sint v)" by (rule scast_eq)
    have "(if sint v < 0 then - ?w else ?w) = word_of_int \<bar>sint v\<bar>" by (cases "sint v < 0") (simp_all only: w abs_if of_int_minus if_True if_False simp_thms)
    moreover have "unat (word_of_int \<bar>sint v\<bar> :: 64 word) = nat \<bar>sint v\<bar>"
      using r by (simp add: unsigned_of_int take_bit_int_eq_self)
    ultimately show ?thesis by (simp add: s)
  qed
  have f: "nat \<bar>sint v\<bar> < 10 ^ 20" using r by auto
  have p: "parse_conversion [0x64] [v] = Some (plain, [0x64], [v])"
    by (simp add: parse_conversion_def fix_flags_def parse_width_def parse_precision_def parse_type_def is_char_def
        plain_def isdigit_def)
  have t: "type_of plain = T_INT" by (simp add: plain_def)
  have c: "convert_signed plain [v] = Some ((if sint v < 0 then [0x2d] else []) @ decimal (nat \<bar>sint v\<bar>), [])"
    using u format_integer_plain(1) [OF f, of "sint v < 0"]
    by (simp add: convert_signed_def signed_arg_def s t)
  show ?thesis using p c by (subst vprintf_loop.simps) (simp add: lit_def is_char_def vprintf_loop.simps [of m "[]"])
qed

section \<open>Printing into a buffer\<close>

text \<open>Memory with the bytes \<open>xs\<close> written from \<open>p\<close> on.\<close>

fun write_bytes :: "memory \<Rightarrow> vaddr \<Rightarrow> byte list \<Rightarrow> memory" where
  "write_bytes m p [] = m"
| "write_bytes m p (x # xs) = write_bytes (m(p := x)) (p + 1) xs"

lemma sint_nat: "n < 2 ^ 31 \<Longrightarrow> sint (of_nat n :: 32 word) = int n"
proof -
  assume n: "n < 2 ^ 31"
  have "sint (of_nat n :: 32 word) = (int n + 2 ^ 31) mod 2 ^ 32 - 2 ^ 31"
    using int_word_sint [of "int n", where 'a = 32] by simp
  also have "\<dots> = int n" using n by (subst mod_pos_pos_trivial) auto
  finally show ?thesis .
qed

definition aux_at :: "vaddr \<Rightarrow> nat \<Rightarrow> nat \<Rightarrow> vsnprintf_aux" where
  "aux_at p k mx = \<lparr> aux_p = p, aux_length = of_nat k, aux_max_length = of_nat mx \<rparr>"

lemma helper_step:
  "k < 2 ^ 31 \<Longrightarrow> mx < 2 ^ 31 \<Longrightarrow> vsnprintf_helper x (m, aux_at p k mx) =
     (if k < mx then (m(p := x), aux_at (p + 1) (Suc k) mx) else (m, aux_at p (Suc k) mx))"
proof -
  assume "k < 2 ^ 31" "mx < 2 ^ 31"
  then have c: "sint (of_nat k :: 32 word) < sint (of_nat mx :: 32 word) \<longleftrightarrow> k < mx"
    by (simp only: sint_nat of_nat_less_iff)
  have "(of_nat k :: 32 word) + 1 = of_nat (Suc k)" by simp
  then show ?thesis unfolding vsnprintf_helper_def aux_at_def
    by (simp only: prod.case Let_def vsnprintf_aux.simps c split: if_split)
qed

lemma helper_run:
  "k + length out < 2 ^ 31 \<Longrightarrow> mx < 2 ^ 31 \<Longrightarrow>
   fold vsnprintf_helper out (m, aux_at p k mx) =
     (write_bytes m p (take (mx - k) out), aux_at (p + of_nat (min (mx - k) (length out))) (k + length out) mx)"
proof (induction out arbitrary: k m p)
  case (Cons x out)
  have l: "Suc k + length out < 2 ^ 31" and k: "k < 2 ^ 31" using Cons.prems(1) by auto
  note IH = Cons.IH [OF l Cons.prems(2)]
  show ?case
  proof (cases "k < mx")
    case True
    then have "mx - k = Suc (mx - Suc k)" by simp
    then show ?thesis using True by (simp add: helper_step [OF k Cons.prems(2)] IH add.assoc fun_upd_def)
  next
    case False
    then show ?thesis by (simp add: helper_step [OF k Cons.prems(2)] IH)
  qed
qed simp

lemma write_bytes_other: "(\<And>i. i < length xs \<Longrightarrow> a \<noteq> p + of_nat i) \<Longrightarrow> write_bytes m p xs a = m a"
proof (induction xs arbitrary: m p)
  case (Cons x xs)
  have "a \<noteq> p" using Cons.prems [of 0] by simp
  moreover have "a \<noteq> p + 1 + of_nat i" if "i < length xs" for i using Cons.prems [of "Suc i"] that by (simp add: add.assoc)
  ultimately show ?case using Cons.IH [of "p + 1" "m(p := x)"] by (simp add: fun_upd_def)
qed simp

lemma off_neq: "i < j \<Longrightarrow> j < 2 ^ 32 \<Longrightarrow> p + of_nat i \<noteq> (p + of_nat j :: vaddr)"
proof
  assume a: "i < j" "j < 2 ^ 32" "p + of_nat i = (p + of_nat j :: vaddr)"
  then have "unat (of_nat i :: vaddr) = unat (of_nat j :: vaddr)" by simp
  then show False using a(1,2) unfolding unat_of_nat by (simp add: take_bit_nat_eq_self)
qed

lemma write_bytes_at:
  "length xs \<le> 2 ^ 32 \<Longrightarrow> i < length xs \<Longrightarrow> write_bytes m p xs (p + of_nat i) = xs ! i"
proof (induction xs arbitrary: m p i)
  case (Cons x xs)
  show ?case
  proof (cases i)
    case 0
    have "p \<noteq> p + 1 + of_nat j" if "j < length xs" for j
      using off_neq [of 0 "Suc j" p] that Cons.prems(1) by (simp add: add.assoc)
    then show ?thesis using write_bytes_other [of xs p "p + 1" "m(p := x)"] 0 by (simp add: fun_upd_def)
  next
    case (Suc j)
    then show ?thesis using Cons.IH [of j "m(p := x)" "p + 1"] Cons.prems by (simp add: add.assoc fun_upd_def)
  qed
qed simp

text \<open>What \<open>vsnprintf\<close> does with the characters \<open>out\<close> that the format produces.\<close>

lemma vsnprintf_run:
  assumes "vprintf_loop m fmt args = Some out" "length out < 2 ^ 31" "0 < sz" "sz \<le> 2 ^ 31"
  shows "vsnprintf m buffer sz fmt args =
    Some ((write_bytes m buffer (take (sz - 1) out))(buffer + of_nat (min (sz - 1) (length out)) := 0), of_nat (length out))"
proof -
  have "fold vsnprintf_helper out (m, aux_at buffer 0 (sz - 1)) =
    (write_bytes m buffer (take (sz - 1 - 0) out), aux_at (buffer + of_nat (min (sz - 1 - 0) (length out))) (0 + length out) (sz - 1))"
    by (rule helper_run) (use assms in auto)
  then show ?thesis using assms(1,3) by (simp add: vsnprintf_def aux_at_def)
qed

lemma vsnprintf_spec:
  assumes "vprintf_loop m fmt args = Some out" "length out < 2 ^ 31" "0 < sz" "sz \<le> 2 ^ 31"
  obtains m' where "vsnprintf m buffer sz fmt args = Some (m', of_nat (length out))"
    and "\<And>a. (\<And>i. i < sz \<Longrightarrow> a \<noteq> buffer + of_nat i) \<Longrightarrow> m' a = m a"
    and "\<And>i. i < min (sz - 1) (length out) \<Longrightarrow> m' (buffer + of_nat i) = out ! i"
    and "m' (buffer + of_nat (min (sz - 1) (length out))) = 0"
proof -
  let ?xs = "take (sz - 1) out" and ?n = "min (sz - 1) (length out)"
  let ?m = "(write_bytes m buffer ?xs)(buffer + of_nat ?n := 0)"
  have "?m a = m a" if a: "\<And>i. i < sz \<Longrightarrow> a \<noteq> buffer + of_nat i" for a
  proof -
    have "write_bytes m buffer ?xs a = m a" by (rule write_bytes_other, rule a) auto
    moreover have "a \<noteq> buffer + of_nat ?n" by (rule a) (use assms(3) in auto)
    ultimately show ?thesis by simp
  qed
  moreover have "?m (buffer + of_nat i) = out ! i" if i: "i < ?n" for i
  proof -
    have "buffer + of_nat i \<noteq> buffer + of_nat ?n" by (rule off_neq [OF i]) (use assms(4) in auto)
    then show ?thesis using write_bytes_at [of ?xs i m buffer] i assms(2) by auto
  qed
  ultimately show ?thesis using that [OF vsnprintf_run [OF assms, of buffer]] by (metis fun_upd_same)
qed

lemma str_at_bytes:
  "p \<noteq> 0 \<Longrightarrow> unat p + length xs < 2 ^ 32 \<Longrightarrow> (\<And>i. i < length xs \<Longrightarrow> m (p + of_nat i) = xs ! i \<and> xs ! i \<noteq> 0) \<Longrightarrow>
   m (p + of_nat (length xs)) = 0 \<Longrightarrow> str_at m p xs"
proof (induction xs arbitrary: p)
  case (Cons x xs)
  have n: "p + 1 \<noteq> 0"
  proof
    assume "p + 1 = 0"
    then have "p = - 1" by (simp add: eq_neg_iff_add_eq_0)
    then have "unat p = 2 ^ 32 - 1" by (simp add: unsigned_minus_1_eq_mask mask_eq_exp_minus_1)
    then show False using Cons.prems(2) by simp
  qed
  have "str_at m (p + 1) xs"
    using Cons.prems(2,4) Cons.prems(3) [of "Suc i" for i] n unat_Suc [OF n] by (intro Cons.IH) (auto simp: add.assoc)
  then show ?case using Cons.prems(1) Cons.prems(3) [of 0] by simp
qed simp

lemma abs_sint: "(of_nat (nat \<bar>sint v\<bar>) :: 32 word) = (if sint v < 0 then - v else v)"
proof -
  have "(of_nat (nat \<bar>sint v\<bar>) :: 32 word) = of_int \<bar>sint v\<bar>" by (simp only: of_nat_nat abs_ge_zero)
  also have "\<dots> = (if sint v < 0 then - v else v)" by (cases "sint v < 0") (simp_all add: abs_if)
  finally show ?thesis .
qed

section \<open>Properties\<close>



text \<open>C32: the digits, commas and zeros of an integer conversion never overflow the 64-byte buffer of
  \<open>format_integer\<close>, whatever the value, base, flags, width and precision: the conversion always returns.\<close>

theorem format_integer_fits:
  "b \<in> {base_d, base_o, base_x, base_X} \<Longrightarrow> val < 2 ^ 64 \<Longrightarrow>
   \<exists>buf out. integer_digits val b c = Some buf \<and> length buf \<le> 64 \<and>
     format_integer val is_signed negative b c = Some out \<and> sublist (rev buf) out"
proof -
  assume b: "b \<in> {base_d, base_o, base_x, base_X}" and v: "val < 2 ^ 64"
  have "8 \<le> ib_base b" using b by (auto simp: base_d_def base_o_def base_x_def base_X_def)
  from integer_digits_fit [OF this v, of c] obtain buf where buf: "integer_digits val b c = Some buf" "length buf \<le> 64" by blast
  obtain xs ys where "format_integer val is_signed negative b c = Some (xs @ rev buf @ ys)"
    unfolding format_integer_def Let_def buf(1) Option.bind.simps by (metis append.assoc)
  then show ?thesis using buf by (auto simp: sublist_def)
qed

theorem format_integer_fits_witness:
  "\<exists>buf out. integer_digits (2 ^ 64 - 1) base_o (plain\<lparr> flags := GROUP OR POUND \<rparr>) = Some buf \<and> length buf \<le> 64 \<and>
     format_integer (2 ^ 64 - 1) False False base_o (plain\<lparr> flags := GROUP OR POUND \<rparr>) = Some out"
  using format_integer_fits [of base_o "2 ^ 64 - 1" "plain\<lparr> flags := GROUP OR POUND \<rparr>" False False] by auto

text \<open>C33: printing an \<open>int\<close> with \<open>%d\<close> into a buffer of at least 12 bytes and reading it back with \<open>atoi\<close> gives the
  number that was printed.\<close>

theorem snprintf_atoi:
  assumes "12 \<le> sz" and "sz \<le> 2 ^ 31" and "buffer \<noteq> 0" and "unat buffer + sz \<le> 2 ^ 32"
  shows "\<exists>m' n. snprintf m buffer sz (lit ''%d'') [v] = Some (m', n) \<and> unat n \<le> 11 \<and> atoi m' buffer = Some v"
proof -
  define sg :: "byte list" where "sg = (if sint v < 0 then [0x2d] else [])"
  define ds where "ds = decimal (nat \<bar>sint v\<bar>)"
  note ds = decimal_digits [of "nat \<bar>sint v\<bar>", folded ds_def]
  have run: "vprintf_loop m (lit ''%d'') [v] = Some (sg @ ds)" by (simp only: vprintf_loop_d sg_def ds_def)
  have r: "- (2 ^ 31) \<le> sint v" "sint v < 2 ^ 31" using sint_ge [of v] sint_lt [of v] by auto
  then have "length ds \<le> Suc 9" unfolding ds_def by (intro decimal_length) auto
  then have len: "length (sg @ ds) \<le> 11" by (simp add: sg_def)
  have nz: "(sg @ ds) ! i \<noteq> 0" if "i < length (sg @ ds)" for i
  proof -
    have "(sg @ ds) ! i \<in> set (sg @ ds)" by (rule nth_mem [OF that])
    then show ?thesis using ds(1) by (auto simp: isdigit_def sg_def split: if_splits)
  qed
  have len': "length (sg @ ds) < 2 ^ 31" "0 < sz" using len assms(1) by auto
  obtain m' where m': "vsnprintf m buffer sz (lit ''%d'') [v] = Some (m', of_nat (length (sg @ ds)))"
      "\<And>i. i < min (sz - 1) (length (sg @ ds)) \<Longrightarrow> m' (buffer + of_nat i) = (sg @ ds) ! i"
      "m' (buffer + of_nat (min (sz - 1) (length (sg @ ds)))) = 0"
    using vsnprintf_spec [OF run len' assms(2), of buffer] by metis
  have mn: "min (sz - 1) (length (sg @ ds)) = length (sg @ ds)" using len assms(1) by linarith
  have "str_at m' buffer (sg @ ds)"
  proof (rule str_at_bytes [OF assms(3)])
    show "unat buffer + length (sg @ ds) < 2 ^ 32" using len assms(1,4) by linarith
    show "m' (buffer + of_nat i) = (sg @ ds) ! i \<and> (sg @ ds) ! i \<noteq> 0" if "i < length (sg @ ds)" for i
      using m'(2) [of i] nz that by (simp only: mn simp_thms)
    show "m' (buffer + of_nat (length (sg @ ds))) = 0" using m'(3) by (simp only: mn)
  qed
  then have "atoi m' buffer = Some (if sg = [0x2d] then - of_nat (dec_value 0 ds) else of_nat (dec_value 0 ds))"
    using atoi_str [of m' buffer "[]" sg ds "[]"] ds by (simp add: sg_def)
  also have "\<dots> = Some v" using abs_sint [of v] by (auto simp: ds(2) sg_def)
  finally have "atoi m' buffer = Some v" .
  moreover have "unat (of_nat (length (sg @ ds)) :: 32 word) \<le> 11"
    using len unfolding unat_of_nat by (simp add: take_bit_nat_eq_self)
  ultimately show ?thesis using m'(1) unfolding snprintf_def by blast
qed

theorem snprintf_atoi_witness:
  "\<exists>m' n. snprintf (\<lambda>_. 7) 100 12 (lit ''%d'') [- 2147483648] = Some (m', n) \<and> atoi m' 100 = Some (- 2147483648)"
  using snprintf_atoi [of 12 100 "\<lambda>_. 7" "- 2147483648"] by auto

end
