(* ===== verification/Arith.thy ===== *)
theory Arith
  imports Prelude "HOL-Library.Signed_Division"
begin

text \<open>
  \<open>lib/arithmetic.c\<close>: 64-bit division built from the 32-bit \<open>divl\<close> instruction. A trapping
  instruction (a zero divisor, a quotient that does not fit) has no result.
\<close>

section \<open>Division\<close>

definition divl :: "64 word \<Rightarrow> 32 word \<Rightarrow> 32 word option" where
  "divl n d = (if d = 0 \<or> 2 ^ 32 \<le> unat n div unat d then None else Some (of_nat (unat n div unat d)))"

definition nlz :: "32 word \<Rightarrow> nat" where
  "nlz x =
     (let (n, x) = (if x \<le> 0x0000FFFF then (16, push_bit 16 x) else (0, x));
          (n, x) = (if x \<le> 0x00FFFFFF then (n + 8, push_bit 8 x) else (n, x));
          (n, x) = (if x \<le> 0x0FFFFFFF then (n + 4, push_bit 4 x) else (n, x));
          (n, x) = (if x \<le> 0x3FFFFFFF then (n + 2, push_bit 2 x) else (n, x))
      in if x \<le> 0x7FFFFFFF then n + 1 else n)"

definition udiv64 :: "64 word \<Rightarrow> 64 word \<Rightarrow> 64 word option" where
  "udiv64 n d =
     (if drop_bit 32 d = 0 then
        let b = (push_bit 32 1 :: 64 word); n1 = (ucast (drop_bit 32 n) :: 32 word); n0 = (ucast n :: 32 word);
            d0 = (ucast d :: 32 word)
        in if d0 = 0 then None
           else do { q \<leftarrow> divl (b * ucast (n1 mod d0) + ucast n0) d0; Some (ucast q + b * ucast (n1 div d0)) }
      else if n < d then Some 0
      else do {
        let d1 = (ucast (drop_bit 32 d) :: 32 word);
        let s = nlz d1;
        q \<leftarrow> divl (drop_bit 1 n) (ucast (drop_bit 32 (push_bit s d)));
        let q = (ucast (drop_bit (31 - s) q) :: 64 word);
        Some (if n - (q - 1) * d < d then q - 1 else q) })"

definition umod64 :: "64 word \<Rightarrow> 64 word \<Rightarrow> 32 word option" where
  "umod64 n d = do { q \<leftarrow> udiv64 n d; Some (ucast (n - d * q)) }"

text \<open>Signed numbers are words read in two's complement; \<open>0 \<le>s\<close> is the sign test.\<close>

definition sdiv64 :: "64 word \<Rightarrow> 64 word \<Rightarrow> 64 word option" where
  "sdiv64 n d = do {
     let n_abs = (if 0 \<le> sint n then n else - n);
     let d_abs = (if 0 \<le> sint d then d else - d);
     q_abs \<leftarrow> udiv64 n_abs d_abs;
     Some (if (sint n < 0) = (sint d < 0) then q_abs else - q_abs) }"

definition smod64 :: "64 word \<Rightarrow> 64 word \<Rightarrow> 32 word option" where
  "smod64 n d = do { q \<leftarrow> sdiv64 n d; Some (ucast (n - d * q)) }"

definition divdi3 :: "64 word \<Rightarrow> 64 word \<Rightarrow> 64 word option" where
  "divdi3 n d = sdiv64 n d"

definition moddi3 :: "64 word \<Rightarrow> 64 word \<Rightarrow> 64 word option" where
  "moddi3 n d = map_option scast (smod64 n d)"

definition udivdi3 :: "64 word \<Rightarrow> 64 word \<Rightarrow> 64 word option" where
  "udivdi3 n d = udiv64 n d"

definition umoddi3 :: "64 word \<Rightarrow> 64 word \<Rightarrow> 64 word option" where
  "umoddi3 n d = map_option ucast (umod64 n d)"

section \<open>Leading zeros\<close>

lemma push_bit_unat: "unat (x :: 32 word) * 2 ^ k < 2 ^ 32 \<Longrightarrow> unat (push_bit k x) = unat x * 2 ^ k"
  unfolding unsigned_push_bit_eq by (simp add: push_bit_eq_mult take_bit_nat_eq_self)

text \<open>One step of the search: if the top \<open>k\<close> bits are clear, shift them out.\<close>

definition shift_step :: "nat \<Rightarrow> nat \<times> 32 word \<Rightarrow> nat \<times> 32 word" where
  "shift_step k p = (if unat (snd p) < 2 ^ (32 - k) then (fst p + k, push_bit k (snd p)) else p)"

lemma shift_step:
  assumes "unat (snd p) = X * 2 ^ fst p" and "2 ^ (32 - 2 * k) \<le> unat (snd p)" and "k \<le> 16"
  shows "unat (snd (shift_step k p)) = X * 2 ^ fst (shift_step k p)" and "2 ^ (32 - k) \<le> unat (snd (shift_step k p))"
proof -
  have e: "(2 :: nat) ^ (32 - k) * 2 ^ k = 2 ^ 32" "(2 :: nat) ^ (32 - 2 * k) * 2 ^ k = 2 ^ (32 - k)"
    using assms(3) by (simp_all flip: power_add)
  have "unat (push_bit k (snd p)) = unat (snd p) * 2 ^ k" if "unat (snd p) < 2 ^ (32 - k)"
    using mult_strict_right_mono [OF that, of "2 ^ k"] e(1) by (intro push_bit_unat) simp
  then show "unat (snd (shift_step k p)) = X * 2 ^ fst (shift_step k p)" "2 ^ (32 - k) \<le> unat (snd (shift_step k p))"
    using assms(1) mult_right_mono [OF assms(2), of "2 ^ k"] e(2) by (auto simp: shift_step_def power_add)
qed

lemma nlz_steps:
  "nlz x = (let p = shift_step 2 (shift_step 4 (shift_step 8 (shift_step 16 (0, x))))
            in if unat (snd p) < 2 ^ 31 then fst p + 1 else fst p)"
proof -
  have "w \<le> 0x0000FFFF \<longleftrightarrow> unat w < 2 ^ 16" "w \<le> 0x00FFFFFF \<longleftrightarrow> unat w < 2 ^ 24" "w \<le> 0x0FFFFFFF \<longleftrightarrow> unat w < 2 ^ 28"
    "w \<le> 0x3FFFFFFF \<longleftrightarrow> unat w < 2 ^ 30" "w \<le> 0x7FFFFFFF \<longleftrightarrow> unat w < 2 ^ 31" for w :: "32 word"
    by (auto simp: word_le_nat_alt)
  then show ?thesis unfolding nlz_def shift_step_def Let_def by (simp split: prod.split)
qed

lemma nlz_bounds:
  assumes "x \<noteq> 0"
  shows "2 ^ 31 \<le> unat x * 2 ^ nlz x" and "unat x * 2 ^ nlz x < 2 ^ 32"
proof -
  define p where "p = shift_step 2 (shift_step 4 (shift_step 8 (shift_step 16 (0, x))))"
  have "unat (snd (0 :: nat, x)) = unat x * 2 ^ fst (0 :: nat, x)" "2 ^ (32 - 2 * 16) \<le> unat (snd (0 :: nat, x))"
    using assms unat_gt_0 [of x] by simp_all
  note a = shift_step [OF this, simplified]
  note b = shift_step [OF a(1), of 8, simplified, OF a(2) [simplified]]
  note c = shift_step [OF b(1), of 4, simplified, OF b(2) [simplified]]
  note d = shift_step [OF c(1), of 2, simplified, OF c(2) [simplified]]
  have p: "unat (snd p) = unat x * 2 ^ fst p" "2 ^ 30 \<le> unat (snd p)" using d by (simp_all add: p_def)
  have "unat (snd p) < 2 ^ 32" using unsigned_less [of "snd p"] by simp
  then show "2 ^ 31 \<le> unat x * 2 ^ nlz x" and "unat x * 2 ^ nlz x < 2 ^ 32"
    using p unfolding nlz_steps p_def [symmetric] Let_def by (auto simp: mult.assoc)
qed

section \<open>The quotient\<close>

text \<open>The estimate of the quotient is right or one too large.\<close>

lemma estimate:
  fixes n d k :: nat
  assumes n: "n < 2 ^ 64" and k: "1 \<le> k" "k \<le> 32" and d: "2 ^ 31 \<le> d div 2 ^ k"
  shows "n div (d div 2 ^ k * 2 ^ k) = n div d \<or> n div (d div 2 ^ k * 2 ^ k) = n div d + 1"
proof -
  define D where "D = d div 2 ^ k * 2 ^ k"
  define r where "r = d mod 2 ^ k"
  have dD: "d = D + r" unfolding D_def r_def by (rule div_mult_mod_eq [symmetric])
  have r: "r \<le> 2 ^ k - 1" by (simp add: r_def less_Suc_eq_le [symmetric])
  have Dlow: "2 ^ (31 + k) \<le> D" using mult_right_mono [OF d, of "2 ^ k"] by (simp add: D_def power_add)
  have Dpos: "0 < D" using Dlow by (metis gr0I not_le zero_less_numeral zero_less_power)
  let ?Q = "n div d"
  have "n div d \<le> n div D" using dD Dpos by (intro div_le_mono2) auto
  moreover have "n div D \<le> ?Q + 1"
  proof -
    have "?Q * D \<le> ?Q * d" using dD by simp
    also have "\<dots> \<le> n" by simp
    finally have "?Q * D < 2 ^ 64" using n by simp
    then have "?Q * 2 ^ (31 + k) < 2 ^ 64" using Dlow by (meson le_less_trans mult_le_mono2)
    also have "(2 :: nat) ^ 64 = 2 ^ (33 - k) * 2 ^ (31 + k)" using k by (simp flip: power_add)
    finally have "?Q < 2 ^ (33 - k)" by (rule mult_less_cancel2 [THEN iffD1, THEN conjunct2])
    then have Q: "?Q + 1 \<le> 2 ^ (33 - k)" by simp
    have *: "(?Q + 1) * r \<le> D"
    proof (cases "k = 1")
      case True
      then have "r \<le> 1" "?Q + 1 \<le> 2 ^ 32" "2 ^ 32 \<le> D" using r Q Dlow by simp_all
      then show ?thesis by (metis le_trans mult.right_neutral mult_le_mono2)
    next
      case False
      have "(?Q + 1) * r \<le> 2 ^ (33 - k) * 2 ^ k" using Q r by (intro mult_mono) auto
      also have "\<dots> = 2 ^ 33" using k by (simp flip: power_add)
      also have "(2 :: nat) ^ 33 \<le> 2 ^ (31 + k)" using k False by (intro power_increasing) auto
      finally show ?thesis using Dlow by simp
    qed
    have "0 < d" using dD Dpos by simp
    then have "n < (?Q + 1) * d" by (metis Suc_eq_plus1 dividend_less_times_div mult.commute mult_Suc_right)
    also have "\<dots> = (?Q + 1) * D + (?Q + 1) * r" by (simp add: dD algebra_simps)
    also have "\<dots> \<le> (?Q + 1) * D + D" using * by simp
    finally have "n < (?Q + 2) * D" by simp
    then have "n div D < ?Q + 2" by (simp add: less_mult_imp_div_less)
    then show ?thesis by simp
  qed
  ultimately show ?thesis unfolding D_def by linarith
qed

lemma unat64: "unat (w :: 64 word) < 2 ^ 64"
  using unsigned_less [of w] by simp

lemma unat_high: "unat (ucast (drop_bit 32 n) :: 32 word) = unat (n :: 64 word) div 2 ^ 32"
proof -
  have "unat n div 2 ^ 32 < 2 ^ 32" using unat64 [of n] by (simp add: less_mult_imp_div_less)
  then show ?thesis by (simp add: unsigned_ucast_eq drop_bit_eq_div unat_div take_bit_nat_eq_self)
qed

lemma unat_low: "unat (ucast n :: 32 word) = unat (n :: 64 word) mod 2 ^ 32"
  by (simp add: unsigned_ucast_eq take_bit_eq_mod)

lemma ucast_up: "unat (ucast (w :: 32 word) :: 64 word) = unat w"
proof -
  have "unat w < 2 ^ 32" using unsigned_less [of w] by simp
  then show ?thesis by (simp add: unsigned_ucast_eq take_bit_nat_eq_self)
qed

lemma unat_shifted: "unat (push_bit 32 1 :: 64 word) = 2 ^ 32"
  by (simp add: push_bit_eq_mult)

lemma drop_bit_high: "drop_bit 32 (d :: 64 word) = 0 \<longleftrightarrow> unat d < 2 ^ 32"
  by (simp add: word_unat_eq_iff drop_bit_eq_div unat_div div_eq_0_iff)

lemma split_div:
  fixes a b c d :: nat
  assumes "0 < d"
  shows "(b * a + c) div d = (b * (a mod d) + c) div d + b * (a div d)"
proof -
  have "b * a = b * (d * (a div d)) + b * (a mod d)" by (metis distrib_left mult_div_mod_eq)
  then have "b * a + c = (b * (a mod d) + c) + d * (b * (a div d))" by (simp add: mult.left_commute)
  then show ?thesis using assms by (simp only: div_mult_self2 neq0_conv add.commute)
qed

lemma udiv64_small:
  assumes "unat d < 2 ^ 32" and "d \<noteq> 0"
  shows "udiv64 n d = Some (n div d)"
proof -
  let ?nh = "unat n div 2 ^ 32" and ?nl = "unat n mod 2 ^ 32" and ?d = "unat d"
  let ?dw = "ucast d :: 32 word"
  have d: "unat ?dw = ?d" "0 < ?d" using assms unat_low [of d] unat_gt_0 [of d] by simp_all
  then have d0: "?dw \<noteq> 0" by auto
  have n1: "?nh < 2 ^ 32" using unat64 [of n] by (simp add: less_mult_imp_div_less)
  have mx: "2 ^ 32 * (?nh mod ?d) + ?nl < 2 ^ 32 * ?d"
  proof -
    have "?nh mod ?d + 1 \<le> ?d" using d(2) by (simp add: Suc_leI)
    then have "2 ^ 32 * (?nh mod ?d + 1) \<le> 2 ^ 32 * ?d" by (rule mult_le_mono2)
    moreover have "?nl < 2 ^ 32" by simp
    ultimately show ?thesis by simp
  qed
  let ?x = "push_bit 32 1 * ucast ((ucast (drop_bit 32 n) :: 32 word) mod ?dw) + ucast (ucast n :: 32 word) :: 64 word"
  have x: "unat ?x = 2 ^ 32 * (?nh mod ?d) + ?nl"
  proof -
    have "2 ^ 32 * ?d < 2 ^ 64" using assms(1) by simp
    then show ?thesis using mx
      unfolding unat_word_ariths ucast_up unat_shifted unat_mod unat_high d(1) unfolding unat_low by simp
  qed
  let ?q = "(2 ^ 32 * (?nh mod ?d) + ?nl) div ?d"
  have q: "?q < 2 ^ 32" using mx by (simp add: less_mult_imp_div_less)
  have dv: "divl ?x ?dw = Some (of_nat ?q)" unfolding divl_def x d(1) using q d0 by simp
  have sum: "ucast (of_nat ?q :: 32 word) + push_bit 32 1 * ucast ((ucast (drop_bit 32 n) :: 32 word) div ?dw) = (n div d :: 64 word)"
  proof (rule word_unat_eq_iff [THEN iffD2])
    have e: "unat n div ?d = ?q + 2 ^ 32 * (?nh div ?d)"
      using split_div [OF d(2), of "2 ^ 32" ?nh ?nl] by (simp add: mult_div_mod_eq)
    have "unat n div ?d < 2 ^ 64" by (rule le_less_trans [OF div_le_dividend unat64])
    then have "?q + 2 ^ 32 * (?nh div ?d) < 2 ^ 64" unfolding e .
    then show "unat (ucast (of_nat ?q :: 32 word) + push_bit 32 1 * ucast ((ucast (drop_bit 32 n) :: 32 word) div ?dw) :: 64 word) = unat (n div d)"
      unfolding unat_div e unat_word_ariths ucast_up unat_shifted unat_high d(1) unat_of_nat using q
      by (simp add: take_bit_nat_eq_self)
  qed
  have hi: "drop_bit 32 d = 0" using assms(1) drop_bit_high by blast
  show ?thesis unfolding udiv64_def Let_def using d0 hi
    by (simp only: if_True if_False dv Option.bind.simps sum simp_thms)
qed

text \<open>A divisor of 33 bits or more: the estimate is corrected by at most one.\<close>

lemma large_divisor:
  fixes d :: "64 word"
  assumes "\<not> unat d < 2 ^ 32"
  defines "s \<equiv> nlz (ucast (drop_bit 32 d))"
  shows "s \<le> 31" and "unat (ucast (drop_bit 32 (push_bit s d)) :: 32 word) = unat d div 2 ^ (32 - s)"
    and "2 ^ 31 \<le> unat d div 2 ^ (32 - s)"
proof -
  let ?h = "unat d div 2 ^ 32"
  have h: "unat (ucast (drop_bit 32 d) :: 32 word) = ?h" by (rule unat_high)
  have hpos: "0 < ?h" using assms(1) by (simp add: div_greater_zero_iff)
  then have "(ucast (drop_bit 32 d) :: 32 word) \<noteq> 0" using h by auto
  note b = nlz_bounds [OF this, folded s_def, unfolded h]
  show s: "s \<le> 31"
  proof (rule ccontr)
    assume "\<not> s \<le> 31"
    then have "(2 :: nat) ^ 32 \<le> 2 ^ s" by (intro power_increasing) auto
    then have "2 ^ 32 \<le> ?h * 2 ^ s" using hpos by (metis One_nat_def Suc_leI le_trans mult_le_mono mult_1)
    then show False using b(2) by simp
  qed
  have e: "(2 :: nat) ^ (32 - s) * 2 ^ s = 2 ^ 32" using s by (simp flip: power_add)
  have bound: "unat d * 2 ^ s < 2 ^ 64"
  proof -
    have "?h * 2 ^ s + 2 ^ s \<le> 2 ^ 32"
    proof -
      have "2 ^ s dvd (2 :: nat) ^ 32" using s by (intro le_imp_power_dvd) simp
      then obtain c where c: "(2 :: nat) ^ 32 = 2 ^ s * c" by (elim dvdE)
      have "?h < c" using b(2) unfolding c by (metis mult.commute mult_less_cancel1)
      then have "(?h + 1) * 2 ^ s \<le> c * 2 ^ s" by (intro mult_le_mono1) simp
      then show ?thesis unfolding c by (simp add: algebra_simps)
    qed
    moreover have "unat d < (?h + 1) * 2 ^ 32" by (simp add: dividend_less_div_times algebra_simps)
    then have "unat d * 2 ^ s < (?h + 1) * 2 ^ 32 * 2 ^ s" by simp
    ultimately have "unat d * 2 ^ s < (?h * 2 ^ s + 2 ^ s) * 2 ^ 32" by (simp add: algebra_simps)
    also have "\<dots> \<le> 2 ^ 32 * 2 ^ 32" using \<open>?h * 2 ^ s + 2 ^ s \<le> 2 ^ 32\<close> by (rule mult_le_mono1)
    finally show ?thesis by simp
  qed
  have "unat (push_bit s d) = unat d * 2 ^ s"
    unfolding unsigned_push_bit_eq using bound by (simp add: push_bit_eq_mult take_bit_nat_eq_self)
  then show v: "unat (ucast (drop_bit 32 (push_bit s d)) :: 32 word) = unat d div 2 ^ (32 - s)"
    unfolding unat_high e [symmetric] by simp
  have "?h * 2 ^ s * 2 ^ (32 - s) \<le> unat d" using e by (metis div_times_less_eq_dividend mult.assoc mult.commute)
  then have "?h * 2 ^ s \<le> unat d div 2 ^ (32 - s)" by (simp add: less_eq_div_iff_mult_less_eq)
  then show "2 ^ 31 \<le> unat d div 2 ^ (32 - s)" using b(1) by simp
qed

text \<open>The correction.\<close>

lemma correct_estimate:
  fixes n d q :: "64 word"
  assumes "unat d \<le> unat n" and "d \<noteq> 0" and "unat q = unat n div unat d \<or> unat q = unat n div unat d + 1"
  shows "(if n - (q - 1) * d < d then q - 1 else q) = n div d"
proof -
  let ?Q = "unat n div unat d"
  have d: "0 < unat d" using assms(2) unat_gt_0 [of d] by simp
  have Q1: "1 \<le> ?Q" using assms(1) d by (simp add: Suc_leI div_greater_zero_iff)
  have nd: "unat (n div d) = ?Q" by (rule unat_div)
  have prod: "unat (of_nat k * d) = k * unat d" if "k \<le> ?Q" for k
  proof -
    have "k * unat d \<le> ?Q * unat d" using that by simp
    also have "\<dots> \<le> unat n" by simp
    finally have "k * unat d < 2 ^ 64" using unat64 [of n] by simp
    moreover from this have "k < 2 ^ 64" using d by (metis le_less_trans mult_le_mono2 Suc_leI mult.right_neutral One_nat_def)
    ultimately show ?thesis unfolding unat_word_ariths unat_of_nat by (simp add: take_bit_nat_eq_self)
  qed
  have sub: "unat (n - of_nat k * d) = unat n - k * unat d" if "k \<le> ?Q" for k
  proof -
    have "k * unat d \<le> ?Q * unat d" using that by simp
    also have "\<dots> \<le> unat n" by simp
    finally show ?thesis using prod [OF that] by (simp add: unat_sub_if_size)
  qed
  have qw: "q = of_nat (unat q)" by simp
  from assms(3) show ?thesis
  proof
    assume q: "unat q = ?Q"
    have "q - 1 = of_nat (?Q - 1)" using q Q1 qw by (metis of_nat_1 of_nat_diff)
    then have "unat (n - (q - 1) * d) = unat n - (?Q - 1) * unat d" using sub [of "?Q - 1"] by simp
    moreover have "unat d \<le> unat n - (?Q - 1) * unat d"
    proof -
      have "unat d + (?Q - 1) * unat d = ?Q * unat d" using mult_Suc [of "?Q - 1" "unat d"] Q1 by simp
      also have "\<dots> \<le> unat n" by simp
      finally show ?thesis by linarith
    qed
    ultimately have "\<not> n - (q - 1) * d < d" by (simp add: word_less_nat_alt)
    then show ?thesis using q nd by (simp add: word_unat_eq_iff)
  next
    assume q: "unat q = ?Q + 1"
    have q1: "q - 1 = of_nat ?Q" using q qw by (metis add_diff_cancel_right' of_nat_1 of_nat_add)
    then have "unat (n - (q - 1) * d) = unat n - ?Q * unat d" using sub [of ?Q] by simp
    also have "\<dots> = unat n mod unat d" by (simp add: minus_div_mult_eq_mod)
    finally have "n - (q - 1) * d < d" using d by (simp add: word_less_nat_alt)
    moreover have "q - 1 = n div d" using q1 nd by (metis word_unat_eq_iff of_nat_unat ucast_id)
    ultimately show ?thesis by simp
  qed
qed

lemma udiv64_large:
  assumes "\<not> unat d < 2 ^ 32"
  shows "udiv64 n d = Some (n div d)"
proof (cases "n < d")
  case True
  then have "n div d = 0" by (simp add: word_unat_eq_iff unat_div word_less_nat_alt)
  then show ?thesis using True assms drop_bit_high [of d] by (simp add: udiv64_def)
next
  case False
  define s where "s = nlz (ucast (drop_bit 32 d))"
  let ?v = "ucast (drop_bit 32 (push_bit s d)) :: 32 word" and ?V = "unat d div 2 ^ (32 - s)"
  note l = large_divisor [OF assms, folded s_def]
  have v0: "?v \<noteq> 0" using l(2,3) by auto
  let ?q = "unat n div 2 div ?V"
  have "unat n div 2 < 2 ^ 32 * 2 ^ 31" using unat64 [of n] by (simp add: less_mult_imp_div_less)
  also have "\<dots> \<le> 2 ^ 32 * ?V" using l(3) by (rule mult_le_mono2)
  finally have q32: "?q < 2 ^ 32" by (rule less_mult_imp_div_less)
  have n1: "unat (drop_bit 1 n) = unat n div 2" by (simp add: drop_bit_eq_div unat_div)
  have dv: "divl (drop_bit 1 n) ?v = Some (of_nat ?q)" unfolding divl_def n1 l(2) using v0 q32 by simp
  let ?w = "ucast (drop_bit (31 - s) (of_nat ?q :: 32 word)) :: 64 word"
  have "unat ?w = ?q div 2 ^ (31 - s)"
    unfolding ucast_up unsigned_drop_bit_eq unat_of_nat using q32 by (simp add: drop_bit_eq_div take_bit_nat_eq_self)
  also have "\<dots> = unat n div (2 * ?V * 2 ^ (31 - s))" by (simp add: div_mult2_eq)
  also have "2 * ?V * 2 ^ (31 - s) = ?V * 2 ^ (32 - s)"
  proof -
    have "32 - s = Suc (31 - s)" using l(1) by simp
    then show ?thesis by simp
  qed
  finally have w: "unat ?w = unat n div (?V * 2 ^ (32 - s))" .
  have est: "unat ?w = unat n div unat d \<or> unat ?w = unat n div unat d + 1"
    unfolding w by (rule estimate [OF unat64 _ _ l(3)]) (use l(1) in simp_all)
  have "d \<noteq> 0" using assms by auto
  from correct_estimate [OF _ this est] False
  have ce: "(if n - (?w - 1) * d < d then ?w - 1 else ?w) = n div d" by (simp add: word_less_nat_alt not_less)
  have hi: "drop_bit 32 d \<noteq> 0" using assms drop_bit_high by blast
  show ?thesis unfolding udiv64_def Let_def s_def [symmetric] using hi False
    by (simp only: if_False dv Option.bind.simps ce simp_thms)
qed

lemma udiv64_div: "d \<noteq> 0 \<Longrightarrow> udiv64 n d = Some (n div d)"
  using udiv64_small [of d n] udiv64_large [of d n] by blast

lemma umod64_mod: "d \<noteq> 0 \<Longrightarrow> umod64 n d = Some (ucast (n mod d))"
  by (simp add: umod64_def udiv64_div minus_mult_div_eq_mod)

section \<open>Signs\<close>

lemma abs_word: "unat (if 0 \<le> sint n then n else - n) = nat \<bar>sint (n :: 64 word)\<bar>"
proof -
  have r: "- (2 ^ 63) \<le> sint n" "sint n < 2 ^ 63" using sint_greater_eq [of n] sint_less [of n] by simp_all
  have "uint n = uint (word_of_int (sint n) :: 64 word)" by (rule arg_cong [where f = uint]) simp
  also have "\<dots> = sint n mod 2 ^ 64" unfolding uint_word_of_int by simp
  finally have u: "uint n = sint n mod 2 ^ 64" .
  show ?thesis
  proof (cases "0 \<le> sint n")
    case True
    then have "uint n = sint n" using u r by simp
    then show ?thesis using True by (simp add: unat_eq_nat_uint)
  next
    case False
    have "uint (- n) = (- sint n) mod 2 ^ 64" unfolding uint_word_ariths u by (simp add: mod_minus_eq)
    also have "\<dots> = - sint n" using False r by simp
    finally show ?thesis using False by (simp add: unat_eq_nat_uint)
  qed
qed

lemma sdiv64_sdiv:
  assumes "d \<noteq> 0"
  shows "sdiv64 n d = Some (word_of_int (sint n sdiv sint d))"
proof -
  let ?n = "if 0 \<le> sint n then n else - n" and ?d = "if 0 \<le> sint d then d else - d"
  have d0: "?d \<noteq> 0" using assms by simp
  have "unat (?n div ?d) = nat \<bar>sint n\<bar> div nat \<bar>sint d\<bar>" unfolding unat_div abs_word ..
  then have "int (unat (?n div ?d)) = \<bar>sint n\<bar> div \<bar>sint d\<bar>" by (simp only: zdiv_int nat_0_le abs_ge_zero)
  then have "word_of_int (int (unat (?n div ?d))) = (word_of_int (\<bar>sint n\<bar> div \<bar>sint d\<bar>) :: 64 word)" by (rule arg_cong)
  then have q: "?n div ?d = word_of_int (\<bar>sint n\<bar> div \<bar>sint d\<bar>)"
    by (simp only: of_int_of_nat_eq of_nat_unat ucast_id of_int_uint)
  have sd: "sint d \<noteq> 0"
  proof
    assume "sint d = 0"
    then have "word_of_int (sint d) = (0 :: 64 word)" by (simp only: of_int_0)
    then show False using assms by simp
  qed
  have "sint n sdiv sint d = (if (sint n < 0) = (sint d < 0) then \<bar>sint n\<bar> div \<bar>sint d\<bar> else - (\<bar>sint n\<bar> div \<bar>sint d\<bar>))"
    using sd by (auto simp: signed_divide_int_def sgn_if)
  then show ?thesis unfolding sdiv64_def Let_def udiv64_div [OF d0] Option.bind.simps q by simp
qed

section \<open>Properties\<close>

text \<open>C29: for a nonzero divisor the 64-bit routines never trap. The unsigned quotient is exact; the signed
  quotient is the one rounded towards zero (modulo \<open>2 ^ 64\<close>, which matters only for the most
  negative number divided by \<open>-1\<close>).\<close>

theorem division_exact:
  assumes "d \<noteq> 0"
  shows "udivdi3 n d = Some (n div d) \<and> divdi3 n d = Some (word_of_int (sint n sdiv sint d))"
  using assms by (simp add: udivdi3_def divdi3_def udiv64_div sdiv64_sdiv)

theorem division_exact_witness:
  "udivdi3 0xfedcba9876543210 0x123456789a = Some (0xfedcba9876543210 div 0x123456789a)"
  using division_exact [of "0x123456789a" "0xfedcba9876543210"] by simp

text \<open>C30: the unsigned remainder is computed in 32 bits: it is right exactly when the true remainder is below
  \<open>2 ^ 32\<close>, and wrong for every larger one.\<close>

theorem remainder_truncated:
  assumes "d \<noteq> 0"
  shows "umoddi3 n d = Some (of_nat (unat (n mod d) mod 2 ^ 32)) \<and>
         (umoddi3 n d = Some (n mod d) \<longleftrightarrow> unat (n mod d) < 2 ^ 32)"
proof -
  have u: "umoddi3 n d = Some (ucast (ucast (n mod d) :: 32 word))"
    using assms by (simp add: umoddi3_def umod64_mod)
  have e: "unat (ucast (ucast (n mod d) :: 32 word) :: 64 word) = unat (n mod d) mod 2 ^ 32"
    unfolding ucast_up unat_low ..
  then have "ucast (ucast (n mod d) :: 32 word) = (of_nat (unat (n mod d) mod 2 ^ 32) :: 64 word)"
    by (metis of_nat_unat ucast_id)
  moreover have "ucast (ucast (n mod d) :: 32 word) = (n mod d :: 64 word) \<longleftrightarrow> unat (n mod d) mod 2 ^ 32 = unat (n mod d)"
    unfolding word_unat_eq_iff e ..
  moreover have "unat (n mod d) mod 2 ^ 32 = unat (n mod d) \<longleftrightarrow> unat (n mod d) < 2 ^ 32"
    by (metis mod_less mod_less_divisor zero_less_numeral zero_less_power)
  ultimately show ?thesis unfolding u by simp
qed

theorem remainder_truncated_witness:
  "umoddi3 0x100000000 0x200000000 = Some 0 \<and> umoddi3 0x100000000 0x200000000 \<noteq> Some (0x100000000 mod 0x200000000)"
  using remainder_truncated [of "0x200000000" "0x100000000"] by simp

end
