(* ===== verification/Inode.thy ===== *)
theory Inode
  imports Slots "HOL-Library.Signed_Division"
begin

text \<open>
  \<open>devices/block.c\<close>, \<open>filesys/inode.c\<close>, \<open>filesys/file.c\<close> and \<open>filesys/free-map.c\<close>: the block device, inodes,
  open files and the free map, over one state \<open>fs\<close>. In-memory inodes and open files are kept in stores indexed
  by their addresses. The contents of a caller's buffer are lists of bytes. \<open>alloc_fails\<close> tells, for each
  coming call of the memory allocator, whether it returns a null pointer (once the list is used up the calls
  succeed). Offsets are the signed integers of the source; a negative file position has no result.
\<close>

type_synonym byte = "8 word"

section \<open>Block devices\<close>

datatype block_type = BLOCK_KERNEL | BLOCK_FILESYS | BLOCK_SCRATCH | BLOCK_SWAP | BLOCK_RAW | BLOCK_FOREIGN

text \<open>\<open>sectors\<close> is what the driver behind the device stores.\<close>

record block =
  dev_type :: block_type
  dev_size :: nat
  sectors :: "nat \<Rightarrow> byte list"
  read_cnt :: "64 word"
  write_cnt :: "64 word"

definition BLOCK_SECTOR_SIZE :: nat where
  "BLOCK_SECTOR_SIZE = 512"

definition check_sector :: "block \<Rightarrow> nat \<Rightarrow> unit option" where
  "check_sector b sec = (if sec \<ge> dev_size b then None else Some ())"

definition block_read :: "block \<Rightarrow> nat \<Rightarrow> (byte list \<times> block) option" where
  "block_read b sec = do {
     check_sector b sec;
     Some (sectors b sec, b\<lparr> read_cnt := read_cnt b + 1 \<rparr>) }"

definition block_write :: "block \<Rightarrow> nat \<Rightarrow> byte list \<Rightarrow> block option" where
  "block_write b sec buffer = do {
     check_sector b sec;
     c_assert (dev_type b \<noteq> BLOCK_FOREIGN);
     Some (b\<lparr> sectors := (sectors b)(sec := buffer), write_cnt := write_cnt b + 1 \<rparr>) }"

definition block_size :: "block \<Rightarrow> nat" where
  "block_size b = dev_size b"

section \<open>Inodes, files and their state\<close>

record inode_disk =
  start :: nat
  len :: int
  magic :: nat

record inode =
  sector :: nat
  open_cnt :: int
  removed :: bool
  deny_write_cnt :: int
  data :: inode_disk

record open_file =
  f_inode :: ptr
  f_pos :: int
  deny_write :: bool

record dir =
  d_inode :: ptr
  d_pos :: int

record fs =
  dev :: block
  open_inodes :: "ptr list"
  inodes :: "ptr \<rightharpoonup> inode"
  files :: "ptr \<rightharpoonup> open_file"
  dirs :: "ptr \<rightharpoonup> dir"
  free_map :: bitmap
  free_map_file :: ptr
  next_ptr :: ptr
  alloc_fails :: "bool list"

definition fs_malloc :: "fs \<Rightarrow> ptr \<times> fs" where
  "fs_malloc s =
     (if alloc_fails s \<noteq> [] \<and> hd (alloc_fails s) then (NULL, s\<lparr> alloc_fails := tl (alloc_fails s) \<rparr>)
      else (next_ptr s, s\<lparr> next_ptr := next_ptr s + 1, alloc_fails := tl (alloc_fails s) \<rparr>))"

definition dev_read :: "fs \<Rightarrow> nat \<Rightarrow> (byte list \<times> fs) option" where
  "dev_read s sec = do { (bs, b) \<leftarrow> block_read (dev s) sec; Some (bs, s\<lparr> dev := b \<rparr>) }"

definition dev_write :: "fs \<Rightarrow> nat \<Rightarrow> byte list \<Rightarrow> fs option" where
  "dev_write s sec bs = do { b \<leftarrow> block_write (dev s) sec bs; Some (s\<lparr> dev := b \<rparr>) }"

text \<open>32-bit numbers on disk, least significant byte first, unsigned and signed.\<close>

definition enc32 :: "nat \<Rightarrow> byte list" where
  "enc32 n = [of_nat n, of_nat (n div 2 ^ 8), of_nat (n div 2 ^ 16), of_nat (n div 2 ^ 24)]"

definition dec32 :: "byte list \<Rightarrow> nat" where
  "dec32 bs = unat (bs ! 0) + 2 ^ 8 * unat (bs ! 1) + 2 ^ 16 * unat (bs ! 2) + 2 ^ 24 * unat (bs ! 3)"

definition as_off :: "nat \<Rightarrow> int" where
  "as_off n = (int n + 2 ^ 31) mod 2 ^ 32 - 2 ^ 31"

definition INODE_MAGIC :: nat where
  "INODE_MAGIC = 0x494e4f44"

definition enc_inode :: "inode_disk \<Rightarrow> byte list" where
  "enc_inode d = enc32 (start d) @ enc32 (nat (len d mod 2 ^ 32)) @ enc32 (magic d) @ replicate 500 0"

definition dec_inode :: "byte list \<Rightarrow> inode_disk" where
  "dec_inode bs = \<lparr> start = dec32 bs, len = as_off (dec32 (drop 4 bs)), magic = dec32 (drop 8 bs) \<rparr>"

definition bytes_to_sectors :: "int \<Rightarrow> nat" where
  "bytes_to_sectors sz = nat (as_off (nat ((sz + 511) mod 2 ^ 32)) sdiv 512 mod 2 ^ 32)"

definition byte_to_sector :: "inode \<Rightarrow> int \<Rightarrow> nat option" where
  "byte_to_sector ino pos =
     (if pos < 0 then None
      else if pos < len (data ino) then Some (wrap32 (start (data ino) + nat pos div BLOCK_SECTOR_SIZE))
      else Some SIZE_MAX)"

definition inode_init :: "fs \<Rightarrow> fs" where
  "inode_init s = s\<lparr> open_inodes := [] \<rparr>"

definition inode_length :: "inode \<Rightarrow> int" where
  "inode_length ino = len (data ino)"

section \<open>Reading and writing inodes\<close>

text \<open>\<open>bounce\<close> tells whether the bounce buffer has been allocated.\<close>

definition need_bounce :: "fs \<Rightarrow> bool \<Rightarrow> bool \<times> fs" where
  "need_bounce s bounce = (if bounce then (True, s) else case fs_malloc s of (p, s) \<Rightarrow> (p \<noteq> NULL, s))"

definition chunk_of :: "inode \<Rightarrow> int \<Rightarrow> int \<Rightarrow> int" where
  "chunk_of ino sz offset =
     (let sector_ofs = offset mod 512; inode_left = inode_length ino - offset; sector_left = 512 - sector_ofs;
          min_left = (if inode_left < sector_left then inode_left else sector_left)
      in if sz < min_left then sz else min_left)"

function read_loop :: "fs \<Rightarrow> inode \<Rightarrow> bool \<Rightarrow> int \<Rightarrow> int \<Rightarrow> (byte list \<times> fs) option" where
  "read_loop s ino bounce sz offset =
     (if sz > 0 then do {
        sector_idx \<leftarrow> byte_to_sector ino offset;
        let sector_ofs = offset mod 512;
        let chunk_size = chunk_of ino sz offset;
        if chunk_size \<le> 0 then Some ([], s)
        else if sector_ofs = 0 \<and> chunk_size = 512 then do {
          (bs, s) \<leftarrow> dev_read s sector_idx;
          (rest, s) \<leftarrow> read_loop s ino bounce (sz - chunk_size) (offset + chunk_size);
          Some (bs @ rest, s) }
        else case need_bounce s bounce of (have_bounce, s) \<Rightarrow>
          if \<not> have_bounce then Some ([], s)
          else do {
            (bs, s) \<leftarrow> dev_read s sector_idx;
            (rest, s) \<leftarrow> read_loop s ino True (sz - chunk_size) (offset + chunk_size);
            Some (take (nat chunk_size) (drop (nat sector_ofs) bs) @ rest, s) } }
      else Some ([], s))"
  by pat_completeness auto
termination
  by (relation "measure (\<lambda>(s, ino, bounce, sz, offset). nat sz)") auto

declare read_loop.simps [simp del]

definition inode_read_at :: "fs \<Rightarrow> ptr \<Rightarrow> int \<Rightarrow> int \<Rightarrow> (byte list \<times> fs) option" where
  "inode_read_at s p sz offset = do { ino \<leftarrow> inodes s p; read_loop s ino False sz offset }"

function write_loop :: "fs \<Rightarrow> inode \<Rightarrow> bool \<Rightarrow> byte list \<Rightarrow> int \<Rightarrow> int \<Rightarrow> int \<Rightarrow> (int \<times> fs) option" where
  "write_loop s ino bounce buffer sz offset written =
     (if sz > 0 then do {
        sector_idx \<leftarrow> byte_to_sector ino offset;
        let sector_ofs = offset mod 512;
        let sector_left = 512 - sector_ofs;
        let chunk_size = chunk_of ino sz offset;
        let chunk = take (nat chunk_size) (drop (nat written) buffer);
        if chunk_size \<le> 0 then Some (written, s)
        else if sector_ofs = 0 \<and> chunk_size = 512 then do {
          s \<leftarrow> dev_write s sector_idx chunk;
          write_loop s ino bounce buffer (sz - chunk_size) (offset + chunk_size) (written + chunk_size) }
        else case need_bounce s bounce of (have_bounce, s) \<Rightarrow>
          if \<not> have_bounce then Some (written, s)
          else do {
            (bs, s) \<leftarrow> (if sector_ofs > 0 \<or> chunk_size < sector_left then dev_read s sector_idx
                       else Some (replicate 512 0, s));
            s \<leftarrow> dev_write s sector_idx
                   (take (nat sector_ofs) bs @ chunk @ drop (nat sector_ofs + nat chunk_size) bs);
            write_loop s ino True buffer (sz - chunk_size) (offset + chunk_size) (written + chunk_size) } }
      else Some (written, s))"
  by pat_completeness auto
termination
  by (relation "measure (\<lambda>(s, ino, bounce, buffer, sz, offset, written). nat sz)") auto

declare write_loop.simps [simp del]

text \<open>The buffer must hold the \<open>sz\<close> bytes.\<close>

definition inode_write_at :: "fs \<Rightarrow> ptr \<Rightarrow> byte list \<Rightarrow> int \<Rightarrow> int \<Rightarrow> (int \<times> fs) option" where
  "inode_write_at s p buffer sz offset = do {
     ino \<leftarrow> inodes s p;
     if deny_write_cnt ino \<noteq> 0 then Some (0, s)
     else do {
       c_assert (sz \<le> int (length buffer));
       write_loop s ino False buffer sz offset 0 } }"

definition inode_deny_write :: "fs \<Rightarrow> ptr \<Rightarrow> fs option" where
  "inode_deny_write s p = do {
     ino \<leftarrow> inodes s p;
     let ino = ino\<lparr> deny_write_cnt := deny_write_cnt ino + 1 \<rparr>;
     c_assert (deny_write_cnt ino \<le> open_cnt ino);
     Some (s\<lparr> inodes := (inodes s)(p \<mapsto> ino) \<rparr>) }"

definition inode_allow_write :: "fs \<Rightarrow> ptr \<Rightarrow> fs option" where
  "inode_allow_write s p = do {
     ino \<leftarrow> inodes s p;
     c_assert (deny_write_cnt ino > 0);
     c_assert (deny_write_cnt ino \<le> open_cnt ino);
     Some (s\<lparr> inodes := (inodes s)(p \<mapsto> ino\<lparr> deny_write_cnt := deny_write_cnt ino - 1 \<rparr>) \<rparr>) }"

definition inode_get_inumber :: "inode \<Rightarrow> nat" where
  "inode_get_inumber ino = sector ino"

definition inode_reopen :: "fs \<Rightarrow> ptr \<Rightarrow> (ptr \<times> fs) option" where
  "inode_reopen s p =
     (if p \<noteq> NULL then do {
        ino \<leftarrow> inodes s p;
        Some (p, s\<lparr> inodes := (inodes s)(p \<mapsto> ino\<lparr> open_cnt := open_cnt ino + 1 \<rparr>) \<rparr>) }
      else Some (p, s))"

text \<open>The first of the open inodes that is kept in sector \<open>sec\<close>.\<close>

fun find_open :: "fs \<Rightarrow> nat \<Rightarrow> ptr list \<Rightarrow> ptr option option" where
  "find_open s sec [] = Some None"
| "find_open s sec (p # ps) = do {
     ino \<leftarrow> inodes s p;
     if sector ino = sec then Some (Some p) else find_open s sec ps }"

definition inode_open :: "fs \<Rightarrow> nat \<Rightarrow> (ptr \<times> fs) option" where
  "inode_open s sec = do {
     found \<leftarrow> find_open s sec (open_inodes s);
     case found of Some p \<Rightarrow> inode_reopen s p
     | None \<Rightarrow> (case fs_malloc s of (p, s) \<Rightarrow>
         if p = NULL then Some (NULL, s)
         else do {
           let s = s\<lparr> open_inodes := p # open_inodes s \<rparr>;
           (bs, s) \<leftarrow> dev_read s sec;
           Some (p, s\<lparr> inodes := (inodes s)(p \<mapsto> \<lparr> sector = sec, open_cnt = 1, removed = False,
                                              deny_write_cnt = 0, data = dec_inode bs \<rparr>) \<rparr>) }) }"

definition inode_remove :: "fs \<Rightarrow> ptr \<Rightarrow> fs option" where
  "inode_remove s p = do {
     c_assert (p \<noteq> NULL);
     ino \<leftarrow> inodes s p;
     Some (s\<lparr> inodes := (inodes s)(p \<mapsto> ino\<lparr> removed := True \<rparr>) \<rparr>) }"

section \<open>Positions in files\<close>

definition file_get_inode :: "fs \<Rightarrow> ptr \<Rightarrow> ptr option" where
  "file_get_inode s f = map_option f_inode (files s f)"

definition file_read_at :: "fs \<Rightarrow> ptr \<Rightarrow> int \<Rightarrow> int \<Rightarrow> (byte list \<times> fs) option" where
  "file_read_at s f sz file_ofs = do { fl \<leftarrow> files s f; inode_read_at s (f_inode fl) sz file_ofs }"

definition file_write_at :: "fs \<Rightarrow> ptr \<Rightarrow> byte list \<Rightarrow> int \<Rightarrow> int \<Rightarrow> (int \<times> fs) option" where
  "file_write_at s f buffer sz file_ofs = do { fl \<leftarrow> files s f; inode_write_at s (f_inode fl) buffer sz file_ofs }"

definition file_read :: "fs \<Rightarrow> ptr \<Rightarrow> int \<Rightarrow> (byte list \<times> fs) option" where
  "file_read s f sz = do {
     fl \<leftarrow> files s f;
     (bs, s) \<leftarrow> inode_read_at s (f_inode fl) sz (f_pos fl);
     Some (bs, s\<lparr> files := (files s)(f \<mapsto> fl\<lparr> f_pos := f_pos fl + int (length bs) \<rparr>) \<rparr>) }"

definition file_write :: "fs \<Rightarrow> ptr \<Rightarrow> byte list \<Rightarrow> int \<Rightarrow> (int \<times> fs) option" where
  "file_write s f buffer sz = do {
     fl \<leftarrow> files s f;
     (n, s) \<leftarrow> inode_write_at s (f_inode fl) buffer sz (f_pos fl);
     Some (n, s\<lparr> files := (files s)(f \<mapsto> fl\<lparr> f_pos := f_pos fl + n \<rparr>) \<rparr>) }"

definition file_deny_write :: "fs \<Rightarrow> ptr \<Rightarrow> fs option" where
  "file_deny_write s f = do {
     c_assert (f \<noteq> NULL);
     fl \<leftarrow> files s f;
     if \<not> deny_write fl then inode_deny_write (s\<lparr> files := (files s)(f \<mapsto> fl\<lparr> deny_write := True \<rparr>) \<rparr>) (f_inode fl)
     else Some s }"

definition file_allow_write :: "fs \<Rightarrow> ptr \<Rightarrow> fs option" where
  "file_allow_write s f = do {
     c_assert (f \<noteq> NULL);
     fl \<leftarrow> files s f;
     if deny_write fl then inode_allow_write (s\<lparr> files := (files s)(f \<mapsto> fl\<lparr> deny_write := False \<rparr>) \<rparr>) (f_inode fl)
     else Some s }"

definition file_length :: "fs \<Rightarrow> ptr \<Rightarrow> int option" where
  "file_length s f = do {
     c_assert (f \<noteq> NULL);
     fl \<leftarrow> files s f;
     map_option inode_length (inodes s (f_inode fl)) }"

definition file_seek :: "fs \<Rightarrow> ptr \<Rightarrow> int \<Rightarrow> fs option" where
  "file_seek s f new_pos = do {
     c_assert (f \<noteq> NULL);
     c_assert (new_pos \<ge> 0);
     fl \<leftarrow> files s f;
     Some (s\<lparr> files := (files s)(f \<mapsto> fl\<lparr> f_pos := new_pos \<rparr>) \<rparr>) }"

definition file_tell :: "fs \<Rightarrow> ptr \<Rightarrow> int option" where
  "file_tell s f = do { c_assert (f \<noteq> NULL); map_option f_pos (files s f) }"

section \<open>The free map\<close>

definition FREE_MAP_SECTOR :: nat where "FREE_MAP_SECTOR = 0"
definition ROOT_DIR_SECTOR :: nat where "ROOT_DIR_SECTOR = 1"

definition bitmap_bytes :: "bitmap \<Rightarrow> byte list" where
  "bitmap_bytes b = concat (map (\<lambda>w. enc32 (unat w)) (bits b))"

definition bitmap_file_size :: "bitmap \<Rightarrow> nat" where
  "bitmap_file_size b = byte_cnt (bit_cnt b)"

definition bitmap_write :: "fs \<Rightarrow> bitmap \<Rightarrow> ptr \<Rightarrow> (bool \<times> fs) option" where
  "bitmap_write s b f = do {
     let sz = int (byte_cnt (bit_cnt b));
     (n, s) \<leftarrow> file_write_at s f (bitmap_bytes b) sz 0;
     Some (n = sz, s) }"

text \<open>The words whose bytes are \<open>bs\<close>.\<close>

fun bytes_words :: "byte list \<Rightarrow> 32 word list" where
  "bytes_words (a # b # c # d # bs) = of_nat (dec32 [a, b, c, d]) # bytes_words bs"
| "bytes_words _ = []"

definition bitmap_read :: "fs \<Rightarrow> bitmap \<Rightarrow> ptr \<Rightarrow> (bool \<times> bitmap \<times> fs) option" where
  "bitmap_read s b f =
     (if bit_cnt b > 0 then do {
        let sz = int (byte_cnt (bit_cnt b));
        (bs, s) \<leftarrow> file_read_at s f sz 0;
        let b = b\<lparr> bits := bytes_words (bs @ drop (length bs) (bitmap_bytes b)) \<rparr>;
        b \<leftarrow> upd_elem b (elem_cnt (bit_cnt b) - 1) (\<lambda>w. and w (last_mask b));
        Some (int (length bs) = sz, b, s) }
      else Some (True, b, s))"

text \<open>\<open>ws\<close> is the uninitialised array that the allocator hands out, if any.\<close>

definition free_map_init :: "fs \<Rightarrow> 32 word list option \<Rightarrow> fs option" where
  "free_map_init s ws = (case fs_malloc s of (p, s) \<Rightarrow> do {
     b \<leftarrow> bitmap_create (block_size (dev s)) (p \<noteq> NULL) ws;
     b \<leftarrow> b;
     b \<leftarrow> bitmap_mark b FREE_MAP_SECTOR;
     b \<leftarrow> bitmap_mark b ROOT_DIR_SECTOR;
     Some (s\<lparr> free_map := b \<rparr>) })"

definition free_map_allocate :: "fs \<Rightarrow> nat \<Rightarrow> (nat option \<times> fs) option" where
  "free_map_allocate s cnt = do {
     (sec, b) \<leftarrow> bitmap_scan_and_flip (free_map s) 0 cnt False;
     let s = s\<lparr> free_map := b \<rparr>;
     if sec \<noteq> BITMAP_ERROR \<and> free_map_file s \<noteq> NULL then do {
       (ok, s) \<leftarrow> bitmap_write s (free_map s) (free_map_file s);
       if \<not> ok then do {
         b \<leftarrow> bitmap_set_multiple (free_map s) sec cnt False;
         Some (None, s\<lparr> free_map := b \<rparr>) }
       else Some (Some sec, s) }
     else Some (if sec = BITMAP_ERROR then None else Some sec, s) }"

definition free_map_release :: "fs \<Rightarrow> nat \<Rightarrow> nat \<Rightarrow> fs option" where
  "free_map_release s sec cnt = do {
     al \<leftarrow> bitmap_all (free_map s) sec cnt;
     c_assert al;
     b \<leftarrow> bitmap_set_multiple (free_map s) sec cnt False;
     let s = s\<lparr> free_map := b \<rparr>;
     (ok, s) \<leftarrow> bitmap_write s (free_map s) (free_map_file s);
     Some s }"

section \<open>Creating and closing inodes\<close>

fun zero_sectors :: "fs \<Rightarrow> nat \<Rightarrow> nat \<Rightarrow> fs option" where
  "zero_sectors s sec 0 = Some s"
| "zero_sectors s sec (Suc n) = do {
     s \<leftarrow> dev_write s sec (replicate 512 0);
     zero_sectors s (wrap32 (sec + 1)) n }"

definition inode_create :: "fs \<Rightarrow> nat \<Rightarrow> int \<Rightarrow> (bool \<times> fs) option" where
  "inode_create s sec flen = do {
     c_assert (flen \<ge> 0);
     let (p, s) = fs_malloc s;
     if p \<noteq> NULL then do {
       let sects = bytes_to_sectors flen;
       (st, s) \<leftarrow> free_map_allocate s sects;
       (case st of Some st \<Rightarrow> do {
          s \<leftarrow> dev_write s sec (enc_inode \<lparr> start = st, len = flen, magic = INODE_MAGIC \<rparr>);
          s \<leftarrow> zero_sectors s st sects;
          Some (True, s) }
        | None \<Rightarrow> Some (False, s)) }
     else Some (False, s) }"

definition inode_close :: "fs \<Rightarrow> ptr \<Rightarrow> fs option" where
  "inode_close s p =
     (if p = NULL then Some s
      else do {
        ino \<leftarrow> inodes s p;
        let ino = ino\<lparr> open_cnt := open_cnt ino - 1 \<rparr>;
        let s = s\<lparr> inodes := (inodes s)(p \<mapsto> ino) \<rparr>;
        if open_cnt ino = 0 then do {
          let s = s\<lparr> open_inodes := remove1 p (open_inodes s) \<rparr>;
          s \<leftarrow> (if removed ino then do {
                  s \<leftarrow> free_map_release s (sector ino) 1;
                  free_map_release s (start (data ino)) (bytes_to_sectors (len (data ino))) }
                else Some s);
          Some (s\<lparr> inodes := (inodes s)(p := None) \<rparr>) }
        else Some s })"

section \<open>Opening and closing files\<close>

definition file_open :: "fs \<Rightarrow> ptr \<Rightarrow> (ptr \<times> fs) option" where
  "file_open s p = (case fs_malloc s of (f, s) \<Rightarrow>
     if p \<noteq> NULL \<and> f \<noteq> NULL
     then Some (f, s\<lparr> files := (files s)(f \<mapsto> \<lparr> f_inode = p, f_pos = 0, deny_write = False \<rparr>) \<rparr>)
     else do { s \<leftarrow> inode_close s p; Some (NULL, s) })"

definition file_reopen :: "fs \<Rightarrow> ptr \<Rightarrow> (ptr \<times> fs) option" where
  "file_reopen s f = do {
     fl \<leftarrow> files s f;
     (p, s) \<leftarrow> inode_reopen s (f_inode fl);
     file_open s p }"

definition file_close :: "fs \<Rightarrow> ptr \<Rightarrow> fs option" where
  "file_close s f =
     (if f \<noteq> NULL then do {
        s \<leftarrow> file_allow_write s f;
        fl \<leftarrow> files s f;
        s \<leftarrow> inode_close s (f_inode fl);
        Some (s\<lparr> files := (files s)(f := None) \<rparr>) }
      else Some s)"

definition free_map_open :: "fs \<Rightarrow> fs option" where
  "free_map_open s = do {
     (p, s) \<leftarrow> inode_open s FREE_MAP_SECTOR;
     (f, s) \<leftarrow> file_open s p;
     let s = s\<lparr> free_map_file := f \<rparr>;
     c_assert (f \<noteq> NULL);
     (ok, b, s) \<leftarrow> bitmap_read s (free_map s) f;
     c_assert ok;
     Some (s\<lparr> free_map := b \<rparr>) }"

definition free_map_close :: "fs \<Rightarrow> fs option" where
  "free_map_close s = file_close s (free_map_file s)"

definition free_map_create :: "fs \<Rightarrow> fs option" where
  "free_map_create s = do {
     (ok, s) \<leftarrow> inode_create s FREE_MAP_SECTOR (int (bitmap_file_size (free_map s)));
     c_assert ok;
     (p, s) \<leftarrow> inode_open s FREE_MAP_SECTOR;
     (f, s) \<leftarrow> file_open s p;
     let s = s\<lparr> free_map_file := f \<rparr>;
     c_assert (f \<noteq> NULL);
     (ok, s) \<leftarrow> bitmap_write s (free_map s) f;
     c_assert ok;
     Some s }"

section \<open>The device as an array of bytes\<close>

definition disk_byte :: "fs \<Rightarrow> nat \<Rightarrow> byte" where
  "disk_byte s a = sectors (dev s) (a div 512) ! (a mod 512)"

definition disk_ok :: "fs \<Rightarrow> bool" where
  "disk_ok s \<longleftrightarrow> (\<forall>sec < dev_size (dev s). length (sectors (dev s) sec) = 512) \<and> dev_size (dev s) < 2 ^ 32 \<and>
     dev_type (dev s) \<noteq> BLOCK_FOREIGN \<and> alloc_fails s = [] \<and> next_ptr s \<noteq> NULL"

text \<open>What reading and writing sectors leaves as it was.\<close>

definition keeps :: "fs \<Rightarrow> fs \<Rightarrow> bool" where
  "keeps s s' \<longleftrightarrow> dev_size (dev s') = dev_size (dev s) \<and> dev_type (dev s') = dev_type (dev s) \<and>
     open_inodes s' = open_inodes s \<and> inodes s' = inodes s \<and> files s' = files s \<and> dirs s' = dirs s \<and>
     free_map s' = free_map s \<and> free_map_file s' = free_map_file s"

definition quiet :: "fs \<Rightarrow> fs \<Rightarrow> bool" where
  "quiet s s' \<longleftrightarrow> keeps s s' \<and> sectors (dev s') = sectors (dev s)"

lemma keeps_refl [simp]: "keeps s s"
  by (simp add: keeps_def)

lemma keeps_trans: "keeps s s' \<Longrightarrow> keeps s' s'' \<Longrightarrow> keeps s s''"
  by (simp add: keeps_def)

lemma quiet_refl [simp]: "quiet s s"
  by (simp add: quiet_def)

lemma quiet_trans: "quiet s s' \<Longrightarrow> quiet s' s'' \<Longrightarrow> quiet s s''"
  using keeps_trans by (auto simp: quiet_def)

lemma quiet_byte: "quiet s s' \<Longrightarrow> disk_byte s' a = disk_byte s a"
  by (simp add: quiet_def disk_byte_def)

lemma fs_malloc_ok:
  assumes "disk_ok s"
  obtains p s' where "fs_malloc s = (p, s')" "p \<noteq> NULL" "quiet s s'" "disk_ok s'"
  using assms by (auto simp: fs_malloc_def disk_ok_def quiet_def keeps_def NULL_def)

lemma need_bounce_ok:
  assumes "disk_ok s"
  obtains s' where "need_bounce s b = (True, s')" "quiet s s'" "disk_ok s'"
proof (cases b)
  case True
  then show ?thesis using that [of s] assms by (simp add: need_bounce_def)
next
  case False
  obtain p s' where "fs_malloc s = (p, s')" "p \<noteq> NULL" "quiet s s'" "disk_ok s'" using fs_malloc_ok [OF assms] .
  then show ?thesis using that [of s'] False by (simp add: need_bounce_def)
qed

lemma dev_read_ok:
  assumes "disk_ok s" "sec < dev_size (dev s)"
  obtains s' where "dev_read s sec = Some (sectors (dev s) sec, s')" "quiet s s'" "disk_ok s'"
  using assms by (auto simp: dev_read_def block_read_def check_sector_def disk_ok_def quiet_def keeps_def)

lemma dev_write_ok:
  assumes "disk_ok s" "sec < dev_size (dev s)" "length bs = 512"
  obtains s' where "dev_write s sec bs = Some s'" "keeps s s'" "disk_ok s'"
    "\<And>a. disk_byte s' a = (if a div 512 = sec then bs ! (a mod 512) else disk_byte s a)"
  using assms by (auto simp: dev_write_def block_write_def check_sector_def disk_ok_def keeps_def disk_byte_def)

lemma same_sector:
  assumes "A mod 512 + c \<le> (512 :: nat)"
  shows "A \<le> a \<and> a < A + c \<longleftrightarrow> a div 512 = A div 512 \<and> A mod 512 \<le> a mod 512 \<and> a mod 512 < A mod 512 + c"
    and "a div 512 = A div 512 \<Longrightarrow> a - A = a mod 512 - A mod 512"
proof -
  define q r q' r' where d: "q = a div 512" "r = a mod 512" "q' = A div 512" "r' = A mod 512"
  have a: "q = a div 512" "r = a mod 512" "a = 512 * q + r" "r < 512" by (simp_all add: d)
  have A: "q' = A div 512" "r' = A mod 512" "A = 512 * q' + r'" "r' < 512" by (simp_all add: d)
  have c: "r' + c \<le> 512" using assms A(2) by simp
  have "512 * q' + r' \<le> 512 * q + r \<and> 512 * q + r < 512 * q' + r' + c \<longleftrightarrow> q = q' \<and> r' \<le> r \<and> r < r' + c"
  proof -
    consider "q < q'" | "q = q'" | "q' < q" by linarith
    then show ?thesis
    proof cases
      case 1
      then have "512 * Suc q \<le> 512 * q'" by simp
      then show ?thesis using 1 a(4) by simp
    next
      case 3
      then have "512 * Suc q' \<le> 512 * q" by simp
      then show ?thesis using 3 c by simp
    qed simp
  qed
  then show "A \<le> a \<and> a < A + c \<longleftrightarrow> a div 512 = A div 512 \<and> A mod 512 \<le> a mod 512 \<and> a mod 512 < A mod 512 + c"
    unfolding a(1) [symmetric] a(2) [symmetric] A(1) [symmetric] A(2) [symmetric] a(3) [symmetric] A(3) [symmetric] .
  show "a div 512 = A div 512 \<Longrightarrow> a - A = a mod 512 - A mod 512"
    unfolding a(1) [symmetric] a(2) [symmetric] A(1) [symmetric] A(2) [symmetric] by (subst a(3), subst A(3)) simp
qed

lemma sector_slice:
  assumes "length (sectors (dev s) (a div 512)) = 512" "a mod 512 + c \<le> 512"
  shows "take c (drop (a mod 512) (sectors (dev s) (a div 512))) = map (disk_byte s) [a..<a + c]"
proof (rule nth_equalityI)
  fix i assume "i < length (take c (drop (a mod 512) (sectors (dev s) (a div 512))))"
  then have i: "i < c" "a mod 512 + i < 512" using assms by auto
  have "a mod 512 + Suc i \<le> 512" using i by simp
  note ss = same_sector [OF this, of "a + i"]
  have d: "(a + i) div 512 = a div 512" "a mod 512 \<le> (a + i) mod 512" using ss(1) by auto
  then have "(a + i) mod 512 = a mod 512 + i" using ss(2) by linarith
  with d show "take c (drop (a mod 512) (sectors (dev s) (a div 512))) ! i = map (disk_byte s) [a..<a + c] ! i"
    using i assms by (simp add: disk_byte_def)
qed (use assms in auto)

section \<open>Reading and writing inodes\<close>

text \<open>The data sectors of an inode of \<open>L\<close> bytes lie on the device.\<close>

definition ino_ok :: "fs \<Rightarrow> inode \<Rightarrow> nat \<Rightarrow> bool" where
  "ino_ok s ino L \<longleftrightarrow> len (data ino) = int L \<and> 512 * start (data ino) + L \<le> 512 * dev_size (dev s)"

lemma ino_ok_keeps: "keeps s s' \<Longrightarrow> ino_ok s' ino L = ino_ok s ino L"
  by (simp add: ino_ok_def keeps_def)

lemma quiet_keeps: "quiet s s' \<Longrightarrow> keeps s s'"
  by (simp add: quiet_def)

definition chunk_nat :: "nat \<Rightarrow> nat \<Rightarrow> nat \<Rightarrow> nat" where
  "chunk_nat L n off = min n (min (L - off) (512 - off mod 512))"

lemma chunk_of_nat:
  assumes "len (data ino) = int L" "off < L"
  shows "chunk_of ino (int n) (int off) = int (chunk_nat L n off)"
proof -
  have m: "int off mod 512 = int (off mod 512)" by (simp add: zmod_int)
  have "off mod 512 \<le> 512" by (rule less_imp_le_nat) simp
  then have y: "512 - int (off mod 512) = int (512 - off mod 512)" by (simp only: of_nat_diff of_nat_numeral)
  have x: "int L - int off = int (L - off)" using assms(2) by simp
  show ?thesis unfolding chunk_of_def inode_length_def chunk_nat_def Let_def assms(1) m x y by (auto simp: min_def)
qed

lemma chunk_of_end: "len (data ino) = int L \<Longrightarrow> L \<le> off \<Longrightarrow> chunk_of ino sz (int off) \<le> 0"
proof -
  assume a: "len (data ino) = int L" "L \<le> off"
  have "int off mod 512 < 512" by simp
  then have "int L - int off < 512 - int off mod 512" using a(2) by linarith
  then show ?thesis using a by (simp add: chunk_of_def inode_length_def Let_def)
qed

lemma byte_to_sector_ok:
  assumes "ino_ok s ino L" "off < L" "disk_ok s"
  shows "byte_to_sector ino (int off) = Some ((512 * start (data ino) + off) div 512)"
    and "(512 * start (data ino) + off) div 512 < dev_size (dev s)"
    and "(512 * start (data ino) + off) mod 512 = off mod 512"
proof -
  have lt: "512 * start (data ino) + off < 512 * dev_size (dev s)" using assms by (simp add: ino_ok_def)
  then show d: "(512 * start (data ino) + off) div 512 < dev_size (dev s)" by (simp add: less_mult_imp_div_less mult.commute)
  show "(512 * start (data ino) + off) mod 512 = off mod 512" by simp
  have e: "(512 * start (data ino) + off) div 512 = start (data ino) + off div 512" by simp
  have "start (data ino) + off div 512 < 2 ^ 32" using d assms(3) unfolding e disk_ok_def by linarith
  then show "byte_to_sector ino (int off) = Some ((512 * start (data ino) + off) div 512)"
    using assms(1,2) by (simp add: byte_to_sector_def ino_ok_def BLOCK_SECTOR_SIZE_def e)
qed

lemma int_mod_512: "int off mod 512 = int (off mod 512)"
  by (simp add: zmod_int)

lemma read_loop_ok:
  "disk_ok s \<Longrightarrow> ino_ok s ino L \<Longrightarrow>
   \<exists>s'. read_loop s ino b (int n) (int off) =
      Some (map (disk_byte s) [512 * start (data ino) + off..<512 * start (data ino) + off + min n (L - off)], s') \<and>
      quiet s s' \<and> disk_ok s'"
proof (induction n arbitrary: s b off rule: less_induct)
  case (less n)
  let ?A = "512 * start (data ino) + off"
  have L: "len (data ino) = int L" using less.prems(2) by (simp add: ino_ok_def)
  show ?case
  proof (cases "n = 0 \<or> L \<le> off")
    case True
    then show ?thesis using chunk_of_end [OF L, of off "int n"] L less.prems(1)
      by (subst read_loop.simps) (auto simp: byte_to_sector_def Let_def)
  next
    case False
    then have n: "0 < n" "off < L" by auto
    define c where "c = chunk_nat L n off"
    have c: "0 < c" "c \<le> n" "c \<le> L - off" "off mod 512 + c \<le> 512" using n by (auto simp: c_def chunk_nat_def)
    note sec = byte_to_sector_ok [OF less.prems(2) n(2) less.prems(1)]
    have lens: "length (sectors (dev s) (?A div 512)) = 512" using less.prems(1) sec(2) by (simp add: disk_ok_def)
    have slice: "take c (drop (off mod 512) (sectors (dev s) (?A div 512))) = map (disk_byte s) [?A..<?A + c]"
      using sector_slice [OF lens, of c] c(4) by (simp only: sec(3))
    have rest: "\<exists>s'. read_loop s1 ino b' (int n - int c) (int off + int c) =
        Some (map (disk_byte s) [?A + c..<?A + min n (L - off)], s') \<and> quiet s s' \<and> disk_ok s'"
      if q: "quiet s s1" "disk_ok s1" for s1 b'
    proof -
      have "ino_ok s1 ino L" using less.prems(2) ino_ok_keeps [OF quiet_keeps [OF q(1)]] by simp
      from less.IH [OF _ q(2) this, of "n - c" b' "off + c"] c n quiet_trans [OF q(1)] quiet_byte [OF q(1)]
      show ?thesis by (auto simp: of_nat_diff add.assoc min_def)
    qed
    have split: "[?A..<?A + min n (L - off)] = [?A..<?A + c] @ [?A + c..<?A + min n (L - off)]"
      using upt_add_eq_append [of ?A "?A + c" "min n (L - off) - c"] c by (simp add: add.assoc)
    show ?thesis
    proof (cases "off mod 512 = 0 \<and> c = 512")
      case True
      obtain s1 where s1: "dev_read s (?A div 512) = Some (sectors (dev s) (?A div 512), s1)" "quiet s s1" "disk_ok s1"
        using dev_read_ok [OF less.prems(1) sec(2)] .
      have "sectors (dev s) (?A div 512) = map (disk_byte s) [?A..<?A + c]" using slice True lens by simp
      then show ?thesis using rest [OF s1(2,3), of b] n s1(1) sec(1) True c
        by (subst read_loop.simps)
          (auto simp: chunk_of_nat [OF L n(2)] c_def [symmetric] split int_mod_512 simp del: upt_rec_numeral)
    next
      case False
      obtain s0 where s0: "need_bounce s b = (True, s0)" "quiet s s0" "disk_ok s0" using need_bounce_ok [OF less.prems(1)] .
      have "?A div 512 < dev_size (dev s0)" using sec(2) s0(2) by (simp add: quiet_def keeps_def)
      from dev_read_ok [OF s0(3) this] obtain s1 where
        s1: "dev_read s0 (?A div 512) = Some (sectors (dev s0) (?A div 512), s1)" "quiet s0 s1" "disk_ok s1" .
      have e: "sectors (dev s0) = sectors (dev s)" using s0(2) by (simp add: quiet_def)
      show ?thesis using rest [OF quiet_trans [OF s0(2) s1(2)] s1(3), of True] n s1(1) s0(1) sec(1) False c slice
        by (subst read_loop.simps)
          (auto simp: chunk_of_nat [OF L n(2)] c_def [symmetric] split int_mod_512 e simp del: upt_rec_numeral)
    qed
  qed
qed

text \<open>Memory with the bytes of \<open>chunk\<close> at \<open>A\<close>.\<close>

definition patched :: "(nat \<Rightarrow> byte) \<Rightarrow> nat \<Rightarrow> byte list \<Rightarrow> nat \<Rightarrow> byte" where
  "patched f A chunk a = (if A \<le> a \<and> a < A + length chunk then chunk ! (a - A) else f a)"

lemma patched_Nil [simp]: "patched f A [] = f"
  by (rule ext) (auto simp: patched_def)

lemma patched_twice:
  "patched (patched f A xs) (A + length xs) ys = patched f A (xs @ ys)"
  by (rule ext) (auto simp: patched_def nth_append)

text \<open>Writing a sector in which \<open>chunk\<close> replaces the bytes from \<open>A mod 512\<close> on.\<close>

lemma write_sector:
  assumes "disk_ok s" "A div 512 < dev_size (dev s)" "A mod 512 + length chunk \<le> 512"
  obtains s' where "dev_write s (A div 512) (take (A mod 512) (sectors (dev s) (A div 512)) @ chunk @
        drop (A mod 512 + length chunk) (sectors (dev s) (A div 512))) = Some s'"
    "keeps s s'" "disk_ok s'" "disk_byte s' = patched (disk_byte s) A chunk"
proof -
  let ?bs = "sectors (dev s) (A div 512)"
  let ?new = "take (A mod 512) ?bs @ chunk @ drop (A mod 512 + length chunk) ?bs"
  have l: "length ?bs = 512" using assms(1,2) by (simp add: disk_ok_def)
  have "length ?new = 512" using assms(3) l by simp
  from dev_write_ok [OF assms(1,2) this] obtain s' where s': "dev_write s (A div 512) ?new = Some s'" "keeps s s'" "disk_ok s'"
    "\<And>a. disk_byte s' a = (if a div 512 = A div 512 then ?new ! (a mod 512) else disk_byte s a)" by blast
  have "disk_byte s' a = patched (disk_byte s) A chunk a" for a
  proof (cases "a div 512 = A div 512")
    case True
    have "a mod 512 < 512" by simp
    have "?new ! r = (if A mod 512 \<le> r \<and> r < A mod 512 + length chunk then chunk ! (r - A mod 512) else ?bs ! r)"
      if "r < 512" for r using that l assms(3) by (auto simp: nth_append)
    from this [OF \<open>a mod 512 < 512\<close>] show ?thesis
      using True same_sector [OF assms(3), of a] s'(4) [of a] by (simp add: patched_def disk_byte_def)
  next
    case False
    then show ?thesis using same_sector(1) [OF assms(3), of a] s'(4) [of a] by (auto simp: patched_def)
  qed
  then show ?thesis using that [OF s'(1,2,3)] by blast
qed

lemma write_loop_ok:
  "disk_ok s \<Longrightarrow> ino_ok s ino L \<Longrightarrow> w + n \<le> length buffer \<Longrightarrow>
   \<exists>s'. write_loop s ino b buffer (int n) (int off) (int w) = Some (int (w + min n (L - off)), s') \<and> keeps s s' \<and> disk_ok s' \<and>
     disk_byte s' = patched (disk_byte s) (512 * start (data ino) + off) (take (min n (L - off)) (drop w buffer))"
proof (induction n arbitrary: s b off w rule: less_induct)
  case (less n)
  let ?A = "512 * start (data ino) + off"
  have L: "len (data ino) = int L" using less.prems(2) by (simp add: ino_ok_def)
  show ?case
  proof (cases "n = 0 \<or> L \<le> off")
    case True
    then show ?thesis using chunk_of_end [OF L, of off "int n"] L less.prems(1)
      by (subst write_loop.simps) (auto simp: byte_to_sector_def Let_def)
  next
    case False
    then have n: "0 < n" "off < L" by auto
    define c where "c = chunk_nat L n off"
    have c: "0 < c" "c \<le> n" "c \<le> L - off" "off mod 512 + c \<le> 512" using n by (auto simp: c_def chunk_nat_def)
    define chunk where "chunk = take c (drop w buffer)"
    have lc: "length chunk = c" using c(2) less.prems(3) by (simp add: chunk_def)
    note sec = byte_to_sector_ok [OF less.prems(2) n(2) less.prems(1)]
    have rest: "\<exists>s'. write_loop s1 ino b' buffer (int n - int c) (int off + int c) (int w + int c) =
        Some (int (w + min n (L - off)), s') \<and> keeps s s' \<and> disk_ok s' \<and>
        disk_byte s' = patched (disk_byte s) ?A (take (min n (L - off)) (drop w buffer))"
      if q: "keeps s s1" "disk_ok s1" "disk_byte s1 = patched (disk_byte s) ?A chunk" for s1 b'
    proof -
      have "ino_ok s1 ino L" using less.prems(2) ino_ok_keeps [OF q(1)] by simp
      moreover have "n - c < n" "w + c + (n - c) \<le> length buffer" using c n less.prems(3) by auto
      ultimately obtain s' where s': "write_loop s1 ino b' buffer (int (n - c)) (int (off + c)) (int (w + c)) =
          Some (int (w + c + min (n - c) (L - (off + c))), s')" "keeps s1 s'" "disk_ok s'"
        "disk_byte s' = patched (disk_byte s1) (512 * start (data ino) + (off + c)) (take (min (n - c) (L - (off + c))) (drop (w + c) buffer))"
        using less.IH [of "n - c" s1 "w + c" b' "off + c"] q(2) by blast
      have k: "min n (L - off) = c + min (n - c) (L - (off + c))" using c by linarith
      have "chunk @ take (min (n - c) (L - (off + c))) (drop (w + c) buffer) = take (min n (L - off)) (drop w buffer)"
        unfolding k chunk_def by (simp add: take_add add.commute)
      then have "disk_byte s' = patched (disk_byte s) ?A (take (min n (L - off)) (drop w buffer))"
        using s'(4) patched_twice [of "disk_byte s" ?A chunk] by (simp add: q(3) lc add.assoc)
      then show ?thesis using s'(1,3) keeps_trans [OF q(1) s'(2)] c k by (auto simp: of_nat_diff add.assoc)
    qed
    show ?thesis
    proof (cases "off mod 512 = 0 \<and> c = 512")
      case True
      have "length (sectors (dev s) (?A div 512)) = 512" using less.prems(1) sec(2) by (simp add: disk_ok_def)
      then obtain s1 where s1: "dev_write s (?A div 512) chunk = Some s1" "keeps s s1" "disk_ok s1"
          "disk_byte s1 = patched (disk_byte s) ?A chunk"
        using write_sector [OF less.prems(1) sec(2), of chunk] True lc by (auto simp: sec(3))
      have "take 512 (drop w buffer) = chunk" using True by (simp add: chunk_def)
      then show ?thesis using rest [OF s1(2-4), of b] n s1(1) sec(1) True c
        by (subst write_loop.simps)
          (auto simp: chunk_of_nat [OF L n(2)] c_def [symmetric] chunk_def [symmetric] int_mod_512)
    next
      case False
      obtain s0 where s0: "need_bounce s b = (True, s0)" "quiet s s0" "disk_ok s0" using need_bounce_ok [OF less.prems(1)] .
      have "?A div 512 < dev_size (dev s0)" using sec(2) s0(2) by (simp add: quiet_def keeps_def)
      from dev_read_ok [OF s0(3) this] obtain s1 where
        s1: "dev_read s0 (?A div 512) = Some (sectors (dev s0) (?A div 512), s1)" "quiet s0 s1" "disk_ok s1" .
      have q: "quiet s s1" by (rule quiet_trans [OF s0(2) s1(2)])
      then have e: "sectors (dev s1) = sectors (dev s0)" "?A div 512 < dev_size (dev s1)" "disk_byte s1 = disk_byte s" "keeps s s1"
        using s0(2) sec(2) quiet_byte [OF q] by (auto simp: quiet_def keeps_def)
      have "?A mod 512 + length chunk \<le> 512" using c(4) lc by (simp only: sec(3))
      from write_sector [OF s1(3) e(2) this] obtain s2 where s2:
        "dev_write s1 (?A div 512) (take (off mod 512) (sectors (dev s0) (?A div 512)) @ chunk @
           drop (off mod 512 + c) (sectors (dev s0) (?A div 512))) = Some s2" "keeps s1 s2" "disk_ok s2"
        "disk_byte s2 = patched (disk_byte s) ?A chunk" by (simp only: sec(3) lc e) blast
      have "off mod 512 \<noteq> 0 \<or> c < 512" using False c(4) by linarith
      then have br: "0 < int off mod 512 \<or> int c < 512 - int off mod 512" using c(4) False by (auto simp: int_mod_512)
      show ?thesis using rest [OF keeps_trans [OF e(4) s2(2)] s2(3,4), of True] n s1(1) s0(1) s2(1) sec(1) False c br
        by (subst write_loop.simps)
          (auto simp: chunk_of_nat [OF L n(2)] c_def [symmetric] chunk_def [symmetric] int_mod_512)
    qed
  qed
qed

text \<open>The contents of an inode of \<open>L\<close> bytes.\<close>

definition ino_bytes :: "fs \<Rightarrow> inode \<Rightarrow> nat \<Rightarrow> byte list" where
  "ino_bytes s ino L = map (disk_byte s) [512 * start (data ino)..<512 * start (data ino) + L]"

lemma length_ino_bytes [simp]: "length (ino_bytes s ino L) = L"
  by (simp add: ino_bytes_def)

lemma nth_ino_bytes: "i < L \<Longrightarrow> ino_bytes s ino L ! i = disk_byte s (512 * start (data ino) + i)"
  by (simp add: ino_bytes_def)

lemma quiet_bytes: "quiet s s' \<Longrightarrow> ino_bytes s' ino L = ino_bytes s ino L"
  by (simp add: ino_bytes_def quiet_byte)

lemma inode_read_at_ok:
  assumes "disk_ok s" "inodes s p = Some ino" "ino_ok s ino L"
  obtains s' where "inode_read_at s p (int n) (int off) = Some (take n (drop off (ino_bytes s ino L)), s')"
    "quiet s s'" "disk_ok s'"
proof -
  have "map (disk_byte s) [512 * start (data ino) + off..<512 * start (data ino) + off + min n (L - off)] =
      take n (drop off (ino_bytes s ino L))"
    by (rule nth_equalityI) (auto simp: nth_ino_bytes add.assoc)
  then show ?thesis using read_loop_ok [OF assms(1,3), of False n off] that assms(2) by (auto simp: inode_read_at_def)
qed

lemma inode_write_at_ok:
  assumes "disk_ok s" "inodes s p = Some ino" "ino_ok s ino L" "deny_write_cnt ino = 0" "n \<le> length buf"
  obtains s' where "inode_write_at s p buf (int n) (int off) = Some (int (min n (L - off)), s')" "keeps s s'" "disk_ok s'"
    "disk_byte s' = patched (disk_byte s) (512 * start (data ino) + off) (take (min n (L - off)) buf)"
  using write_loop_ok [OF assms(1,3), of 0 n buf False off] that assms(2,4,5) by (auto simp: inode_write_at_def)

text \<open>The list with \<open>xs\<close> written over it from \<open>off\<close> on.\<close>

definition overwrite :: "'a list \<Rightarrow> nat \<Rightarrow> 'a list \<Rightarrow> 'a list" where
  "overwrite c off xs = take off c @ xs @ drop (off + length xs) c"

lemma patched_bytes:
  assumes "disk_byte s' = patched (disk_byte s) (512 * start (data ino) + off) (take (min n (L - off)) buf)" "n \<le> length buf"
  shows "ino_bytes s' ino L = overwrite (ino_bytes s ino L) off (take (min n (L - off)) buf)"
proof (rule nth_equalityI)
  show "length (ino_bytes s' ino L) = length (overwrite (ino_bytes s ino L) off (take (min n (L - off)) buf))"
    using assms(2) by (auto simp: overwrite_def min_def)
  fix i assume "i < length (ino_bytes s' ino L)"
  then have i: "i < L" by simp
  have "512 * start (data ino) + i - (512 * start (data ino) + off) = i - off" by simp
  then show "ino_bytes s' ino L ! i = overwrite (ino_bytes s ino L) off (take (min n (L - off)) buf) ! i"
    using i assms(2) by (auto simp: overwrite_def nth_append nth_ino_bytes assms(1) patched_def)
qed

lemma patched_other:
  assumes "disk_byte s' = patched (disk_byte s) (512 * start (data ino) + off) (take (min n (L - off)) buf)"
    "512 * start (data ino) + L \<le> 512 * start (data ino') \<or> 512 * start (data ino') + L' \<le> 512 * start (data ino)"
  shows "ino_bytes s' ino' L' = ino_bytes s ino' L'"
  by (rule nth_equalityI) (use assms(2) in \<open>auto simp: nth_ino_bytes assms(1) patched_def\<close>)

section \<open>The free map as an allocator of sectors\<close>

definition fm_ok :: "fs \<Rightarrow> bool" where
  "fm_ok s \<longleftrightarrow> bm_wf (free_map s) \<and> disk_ok s \<and> free_map_file s \<noteq> NULL \<and>
     (\<exists>fl ino L. files s (free_map_file s) = Some fl \<and> inodes s (f_inode fl) = Some ino \<and> ino_ok s ino L \<and>
        deny_write_cnt ino = 0 \<and> byte_cnt (bit_cnt (free_map s)) \<le> L)"

lemma length_enc32 [simp]: "length (enc32 n) = 4"
  by (simp add: enc32_def)

lemma length_bitmap_bytes: "length (bitmap_bytes b) = 4 * length (bits b)"
  by (simp add: bitmap_bytes_def length_concat o_def sum_list_triv)

lemma byte_cnt_bytes: "bm_wf b \<Longrightarrow> byte_cnt (bit_cnt b) \<le> length (bitmap_bytes b)"
proof -
  assume "bm_wf b"
  then have "bit_cnt b \<le> 32 * length (bits b)" by (simp add: bm_wf_def)
  then have "(bit_cnt b + 31) div 32 \<le> length (bits b)" by simp
  moreover have "elem_cnt (bit_cnt b) \<le> (bit_cnt b + 31) div 32"
    unfolding elem_cnt_def ELEM_BITS_def using wrap32_le [of "bit_cnt b + 32 - 1"] by (simp add: div_le_mono)
  ultimately show ?thesis using wrap32_le [of "4 * elem_cnt (bit_cnt b)"] by (simp add: byte_cnt_def length_bitmap_bytes)
qed

lemma bitmap_write_ok:
  assumes "fm_ok s"
  obtains s' where "bitmap_write s (free_map s) (free_map_file s) = Some (True, s')" "keeps s s'" "fm_ok s'"
proof -
  from assms obtain fl ino L where f: "files s (free_map_file s) = Some fl" "inodes s (f_inode fl) = Some ino" "ino_ok s ino L"
    "deny_write_cnt ino = 0" "byte_cnt (bit_cnt (free_map s)) \<le> L" and s: "bm_wf (free_map s)" "disk_ok s" "free_map_file s \<noteq> NULL"
    by (auto simp: fm_ok_def)
  let ?n = "byte_cnt (bit_cnt (free_map s))"
  obtain s' where s': "inode_write_at s (f_inode fl) (bitmap_bytes (free_map s)) (int ?n) (int 0) = Some (int (min ?n (L - 0)), s')"
      "keeps s s'" "disk_ok s'"
    using inode_write_at_ok [OF s(2) f(2,3,4) byte_cnt_bytes [OF s(1)], of 0] .
  have "bitmap_write s (free_map s) (free_map_file s) = Some (True, s')"
    using s'(1) f(1,5) by (simp add: bitmap_write_def file_write_at_def min_absorb1)
  moreover have "fm_ok s'" using f s s'(2,3) ino_ok_keeps [OF s'(2)] by (auto simp: fm_ok_def keeps_def)
  ultimately show ?thesis using that s'(2) by blast
qed

lemma fm_ok_map: "fm_ok s \<Longrightarrow> bm_wf b \<Longrightarrow> bit_cnt b = bit_cnt (free_map s) \<Longrightarrow> fm_ok (s\<lparr> free_map := b \<rparr>)"
  by (auto simp: fm_ok_def disk_ok_def ino_ok_def)

lemma free_map_allocate_ok:
  assumes "fm_ok s"
  shows "\<exists>r b s'. bm_get (free_map s) n = Some (r, b) \<and> free_map_allocate s n = Some (r, s') \<and> fm_ok s' \<and> free_map s' = b"
proof -
  have wf: "bm_wf (free_map s)" "free_map_file s \<noteq> NULL" using assms by (auto simp: fm_ok_def)
  obtain r b where rb: "bm_get (free_map s) n = Some (r, b)" "bm_wf b" "bit_cnt b = bit_cnt (free_map s)"
    using bm_get_cases [OF wf(1), of n] by blast
  then obtain i where i: "bitmap_scan_and_flip (free_map s) 0 n False = Some (i, b)" "r = (if i = BITMAP_ERROR then None else Some i)"
    by (auto simp: bm_get_def Option.bind_eq_Some_conv split: if_splits)
  have ok: "fm_ok (s\<lparr> free_map := b \<rparr>)" by (rule fm_ok_map [OF assms rb(2,3)])
  from bitmap_write_ok [OF this] obtain s' where
    "bitmap_write (s\<lparr> free_map := b \<rparr>) b (free_map_file s) = Some (True, s')" "keeps (s\<lparr> free_map := b \<rparr>) s'" "fm_ok s'" by auto
  then show ?thesis using rb(1) i wf(2) ok by (cases "i = BITMAP_ERROR") (auto simp: free_map_allocate_def keeps_def)
qed

lemma free_map_release_ok:
  assumes "fm_ok s" "bm_put (free_map s) i n = Some b" "bm_wf b" "bit_cnt b = bit_cnt (free_map s)"
  shows "\<exists>s'. free_map_release s i n = Some s' \<and> fm_ok s' \<and> free_map s' = b"
proof -
  have ok: "fm_ok (s\<lparr> free_map := b \<rparr>)" by (rule fm_ok_map [OF assms(1,3,4)])
  from bitmap_write_ok [OF this] obtain s' where
    "bitmap_write (s\<lparr> free_map := b \<rparr>) b (free_map_file s) = Some (True, s')" "keeps (s\<lparr> free_map := b \<rparr>) s'" "fm_ok s'" by auto
  then show ?thesis using assms(2)
    by (auto simp: free_map_release_def bm_put_def keeps_def Option.bind_eq_Some_conv)
qed

interpretation sector_slots: slot_alloc fm_ok "\<lambda>s. {..<bit_cnt (free_map s)}" "\<lambda>s. bm_used (free_map s)"
    free_map_allocate free_map_release
proof
  fix s and n :: nat
  assume s: "fm_ok s" and n: "0 < n"
  then have wf: "bm_wf (free_map s)" by (simp add: fm_ok_def)
  obtain r b s' where a: "bm_get (free_map s) n = Some (r, b)" "free_map_allocate s n = Some (r, s')" "fm_ok s'" "free_map s' = b"
    using free_map_allocate_ok [OF s, of n] by blast
  show "\<exists>r s'. free_map_allocate s n = Some (r, s') \<and> fm_ok s' \<and> {..<bit_cnt (free_map s')} = {..<bit_cnt (free_map s)}"
    using a bm_slots.get_total [OF wf n] by auto
  show "{i..<i + n} \<subseteq> {..<bit_cnt (free_map s)} \<and> {i..<i + n} \<inter> bm_used (free_map s) = {} \<and>
      bm_used (free_map s'') = bm_used (free_map s) \<union> {i..<i + n}" if "free_map_allocate s n = Some (Some i, s'')" for i s''
    using a that bm_slots.get_some [OF wf n] by auto
  show "bm_used (free_map s'') = bm_used (free_map s) \<and>
      (\<forall>i. {i..<i + n} \<subseteq> {..<bit_cnt (free_map s)} \<longrightarrow> {i..<i + n} \<inter> bm_used (free_map s) \<noteq> {})"
    if "free_map_allocate s n = Some (None, s'')" for s''
    using a that bm_slots.get_none [OF wf n] by auto
next
  fix s
  assume "fm_ok s"
  then show "bm_used (free_map s) \<subseteq> {..<bit_cnt (free_map s)}" by (auto simp: bm_used_def)
next
  fix s i and n :: nat
  assume s: "fm_ok s" and n: "0 < n" and u: "{i..<i + n} \<subseteq> bm_used (free_map s)"
  have "bm_wf (free_map s)" using s by (simp add: fm_ok_def)
  moreover have "i + n \<le> bit_cnt (free_map s)" by (rule slot_range_le [OF n]) (use u in \<open>auto simp: bm_used_def\<close>)
  ultimately obtain b where b: "bm_put (free_map s) i n = Some b" "bm_wf b" "bit_cnt b = bit_cnt (free_map s)"
      "bm_used b = bm_used (free_map s) - {i..<i + n}"
    using bm_put_used [OF _ u] by blast
  then show "\<exists>s'. free_map_release s i n = Some s' \<and> fm_ok s' \<and> {..<bit_cnt (free_map s')} = {..<bit_cnt (free_map s)} \<and>
      bm_used (free_map s') = bm_used (free_map s) - {i..<i + n}"
    using free_map_release_ok [OF s b(1-3)] by auto
qed

section \<open>Properties\<close>

text \<open>C0: \<open>inode_write_at\<close> writes as many of the bytes as fit before the end of the file, over any number of sectors and
  with any alignment, and \<open>inode_read_at\<close> then returns at any position exactly the file with those bytes
  replaced; the bytes of every other file, and the in-memory inodes, are unchanged.\<close>

theorem inode_write_read:
  assumes "disk_ok s" and "inodes s p = Some ino" and "ino_ok s ino L" and "deny_write_cnt ino = 0" and "n \<le> length buf"
  shows "\<exists>s'. inode_write_at s p buf (int n) (int off) = Some (int (min n (L - off)), s') \<and> inodes s' = inodes s \<and>
    (\<forall>m pos. \<exists>s''. inode_read_at s' p (int m) (int pos) =
       Some (take m (drop pos (overwrite (ino_bytes s ino L) off (take (min n (L - off)) buf))), s'') \<and> inodes s'' = inodes s) \<and>
    (\<forall>ino' L'. 512 * start (data ino) + L \<le> 512 * start (data ino') \<or> 512 * start (data ino') + L' \<le> 512 * start (data ino) \<longrightarrow>
       ino_bytes s' ino' L' = ino_bytes s ino' L')"
proof -
  obtain s' where s': "inode_write_at s p buf (int n) (int off) = Some (int (min n (L - off)), s')" "keeps s s'" "disk_ok s'"
      "disk_byte s' = patched (disk_byte s) (512 * start (data ino) + off) (take (min n (L - off)) buf)"
    using inode_write_at_ok [OF assms, of off] .
  have i: "inodes s' = inodes s" "inodes s' p = Some ino" "ino_ok s' ino L"
    using s'(2) assms(2,3) ino_ok_keeps [OF s'(2)] by (simp_all add: keeps_def)
  have "\<exists>s''. inode_read_at s' p (int m) (int pos) =
      Some (take m (drop pos (overwrite (ino_bytes s ino L) off (take (min n (L - off)) buf))), s'') \<and> inodes s'' = inodes s" for m pos
  proof -
    obtain s'' where "inode_read_at s' p (int m) (int pos) = Some (take m (drop pos (ino_bytes s' ino L)), s'')" "quiet s' s''"
      using inode_read_at_ok [OF s'(3) i(2,3), of m pos] .
    then show ?thesis using i(1) patched_bytes [OF s'(4) assms(5)] by (simp add: quiet_def keeps_def)
  qed
  then show ?thesis using s'(1) i(1) patched_other [OF s'(4)] by blast
qed

text \<open>A device of eight sectors with a file of 1000 bytes in sectors 3 and 4 and the free map in sector 2.\<close>

definition demo_fs :: fs where
  "demo_fs = \<lparr> dev = \<lparr> dev_type = BLOCK_FILESYS, dev_size = 8, sectors = \<lambda>_. replicate 512 0, read_cnt = 0, write_cnt = 0 \<rparr>,
     open_inodes = [1, 2],
     inodes = [1 \<mapsto> \<lparr> sector = 1, open_cnt = 1, removed = False, deny_write_cnt = 0, data = \<lparr> start = 3, len = 1000, magic = INODE_MAGIC \<rparr> \<rparr>,
               2 \<mapsto> \<lparr> sector = 0, open_cnt = 1, removed = False, deny_write_cnt = 0, data = \<lparr> start = 2, len = 4, magic = INODE_MAGIC \<rparr> \<rparr>],
     files = [3 \<mapsto> \<lparr> f_inode = 2, f_pos = 0, deny_write = False \<rparr>], dirs = Map.empty,
     free_map = \<lparr> bit_cnt = 8, bits = [0x1f] \<rparr>, free_map_file = 3, next_ptr = 4, alloc_fails = [] \<rparr>"

lemma demo_disk_ok: "disk_ok demo_fs"
  by (simp add: disk_ok_def demo_fs_def NULL_def)

theorem inode_write_read_witness:
  "\<exists>s' s''. inode_write_at demo_fs 1 (replicate 600 7) 600 300 = Some (600, s') \<and>
     inode_read_at s' 1 2 299 = Some ([0, 7], s'')"
proof -
  obtain ino where i: "inodes demo_fs 1 = Some ino" "ino_ok demo_fs ino 1000" "deny_write_cnt ino = 0" "start (data ino) = 3"
    by (auto simp: demo_fs_def ino_ok_def)
  have z: "ino_bytes demo_fs ino 1000 = replicate 1000 0"
    by (rule nth_equalityI) (simp_all add: nth_ino_bytes disk_byte_def, simp add: demo_fs_def)
  have "take 2 (drop 299 (overwrite (replicate 1000 0) 300 (replicate 600 7))) = [0, 7 :: byte]"
    by (simp add: overwrite_def numeral_2_eq_2 drop_Cons' take_Cons')
  moreover obtain s' where w: "inode_write_at demo_fs 1 (replicate 600 7) 600 300 = Some (600, s')"
      "\<forall>m pos. \<exists>s''. inode_read_at s' 1 (int m) (int pos) =
         Some (take m (drop pos (overwrite (replicate 1000 0) 300 (replicate 600 7))), s'') \<and> inodes s'' = inodes demo_fs"
    using inode_write_read [OF demo_disk_ok i(1-3), of 600 "replicate 600 7" 300] unfolding z by auto
  moreover have "\<exists>s''. inode_read_at s' 1 (int 2) (int 299) =
      Some (take 2 (drop 299 (overwrite (replicate 1000 0) 300 (replicate 600 7))), s'')" using w(2) by blast
  ultimately show ?thesis by (simp only: of_nat_numeral) blast
qed

text \<open>C0: whatever sequence of requests is made, the free map never hands out a sector twice: allocating and
  releasing never fail an assertion, and the groups of sectors held are pairwise disjoint and all marked in
  the map.\<close>

theorem free_map_run_disjoint:
  assumes "fm_ok s" and "held_ok (bm_used (free_map s)) held"
  shows "\<exists>s' held'. slot_run free_map_allocate free_map_release s held rs = Some (s', held') \<and> fm_ok s' \<and>
    held_ok (bm_used (free_map s')) held'"
  using sector_slots.run_disjoint [OF assms] by blast

theorem free_map_run_disjoint_witness:
  "\<exists>s' held'. slot_run free_map_allocate free_map_release demo_fs [] [Take 2, Take 1, Give 0, Take 3] = Some (s', held') \<and>
     held_ok (bm_used (free_map s')) held'"
proof -
  have "fm_ok demo_fs" using demo_disk_ok
    by (auto simp: fm_ok_def demo_fs_def bm_wf_def NULL_def ino_ok_def byte_cnt_def elem_cnt_def ELEM_BITS_def intro!: exI [of _ 4])
  from free_map_run_disjoint [OF this held_ok_Nil] show ?thesis by blast
qed

end
