(* ===== verification/Filesys.thy ===== *)
theory Filesys
  imports Inode
begin

text \<open>
  \<open>filesys/directory.c\<close> and \<open>filesys/filesys.c\<close>: directories as files of 20-byte entries, and the operations on
  named files. A name is the list of the characters of the string. An entry that the source keeps in a
  local \<open>struct dir_entry\<close> is the list of its 20 bytes.
\<close>

section \<open>Directory entries\<close>

definition NAME_MAX :: nat where
  "NAME_MAX = 14"

definition e_inode_sector :: "byte list \<Rightarrow> nat" where
  "e_inode_sector e = dec32 e"

definition e_name :: "byte list \<Rightarrow> byte list" where
  "e_name e = take (NAME_MAX + 1) (drop 4 e)"

definition e_in_use :: "byte list \<Rightarrow> bool" where
  "e_in_use e \<longleftrightarrow> e ! 19 \<noteq> 0"

definition dir_entry_size :: int where
  "dir_entry_size = 20"

text \<open>\<open>strcmp (name, e.name)\<close>; reading on past an unterminated name field has no result.\<close>

definition same_name :: "byte list \<Rightarrow> byte list \<Rightarrow> bool option" where
  "same_name name e = do {
     c_assert (0 \<in> set (e_name e));
     Some (takeWhile (\<lambda>b. b \<noteq> 0) (e_name e) = name) }"

text \<open>The entry after \<open>in_use\<close>, \<open>name\<close> (by \<open>strlcpy\<close>, which leaves the bytes after the terminator) and
  \<open>inode_sector\<close> are set.\<close>

definition fill_entry :: "byte list \<Rightarrow> byte list \<Rightarrow> nat \<Rightarrow> byte list" where
  "fill_entry e name sec =
     (let n = min (length name) NAME_MAX
      in enc32 sec @ (take n name @ [0] @ drop (n + 1) (e_name e)) @ [1])"

section \<open>Opening and closing directories\<close>

definition dir_create :: "fs \<Rightarrow> nat \<Rightarrow> nat \<Rightarrow> (bool \<times> fs) option" where
  "dir_create s sec entry_cnt = inode_create s sec (as_off (wrap32 (entry_cnt * 20)))"

definition dir_open :: "fs \<Rightarrow> ptr \<Rightarrow> (ptr \<times> fs) option" where
  "dir_open s p = (case fs_malloc s of (d, s) \<Rightarrow>
     if p \<noteq> NULL \<and> d \<noteq> NULL
     then Some (d, s\<lparr> dirs := (dirs s)(d \<mapsto> \<lparr> d_inode = p, d_pos = 0 \<rparr>) \<rparr>)
     else do { s \<leftarrow> inode_close s p; Some (NULL, s) })"

definition dir_open_root :: "fs \<Rightarrow> (ptr \<times> fs) option" where
  "dir_open_root s = do { (p, s) \<leftarrow> inode_open s ROOT_DIR_SECTOR; dir_open s p }"

definition dir_reopen :: "fs \<Rightarrow> ptr \<Rightarrow> (ptr \<times> fs) option" where
  "dir_reopen s d = do {
     dr \<leftarrow> dirs s d;
     (p, s) \<leftarrow> inode_reopen s (d_inode dr);
     dir_open s p }"

definition dir_close :: "fs \<Rightarrow> ptr \<Rightarrow> fs option" where
  "dir_close s d =
     (if d \<noteq> NULL then do {
        dr \<leftarrow> dirs s d;
        s \<leftarrow> inode_close s (d_inode dr);
        Some (s\<lparr> dirs := (dirs s)(d := None) \<rparr>) }
      else Some s)"

definition dir_get_inode :: "fs \<Rightarrow> ptr \<Rightarrow> ptr option" where
  "dir_get_inode s d = map_option d_inode (dirs s d)"

section \<open>Entries of a directory\<close>

text \<open>The loop of \<open>lookup\<close>: the entry found and its offset.\<close>

partial_function (option) lookup_loop ::
  "fs \<Rightarrow> ptr \<Rightarrow> byte list \<Rightarrow> int \<Rightarrow> ((byte list \<times> int) option \<times> fs) option" where
  "lookup_loop s p name ofs = do {
     (e, s) \<leftarrow> inode_read_at s p dir_entry_size ofs;
     if int (length e) = dir_entry_size then do {
       found \<leftarrow> (if e_in_use e then same_name name e else Some False);
       if found then Some (Some (e, ofs), s) else lookup_loop s p name (ofs + dir_entry_size) }
     else Some (None, s) }"

definition lookup :: "fs \<Rightarrow> ptr \<Rightarrow> byte list \<Rightarrow> ((byte list \<times> int) option \<times> fs) option" where
  "lookup s d name = do {
     c_assert (d \<noteq> NULL);
     dr \<leftarrow> dirs s d;
     lookup_loop s (d_inode dr) name 0 }"

definition dir_lookup :: "fs \<Rightarrow> ptr \<Rightarrow> byte list \<Rightarrow> (ptr \<times> fs) option" where
  "dir_lookup s d name = do {
     (r, s) \<leftarrow> lookup s d name;
     case r of Some (e, ofs) \<Rightarrow> inode_open s (e_inode_sector e) | None \<Rightarrow> Some (NULL, s) }"

text \<open>
  The loop that looks for a free slot: the entry last read, overwritten as far as a short read at the end
  of the file goes, and the offset at which the loop stops. A directory with no room for even one entry
  leaves the local entry uninitialised, which has no result.
\<close>

partial_function (option) free_slot_loop ::
  "fs \<Rightarrow> ptr \<Rightarrow> byte list \<Rightarrow> int \<Rightarrow> (byte list \<times> int \<times> fs) option" where
  "free_slot_loop s p e0 ofs = do {
     (e, s) \<leftarrow> inode_read_at s p dir_entry_size ofs;
     if int (length e) = dir_entry_size then
       if \<not> e_in_use e then Some (e, ofs, s) else free_slot_loop s p e (ofs + dir_entry_size)
     else if e0 = [] then None
     else Some (e @ drop (length e) e0, ofs, s) }"

definition dir_add :: "fs \<Rightarrow> ptr \<Rightarrow> byte list \<Rightarrow> nat \<Rightarrow> (bool \<times> fs) option" where
  "dir_add s d name sec = do {
     c_assert (d \<noteq> NULL);
     if name = [] \<or> length name > NAME_MAX then Some (False, s)
     else do {
       (r, s) \<leftarrow> lookup s d name;
       if r \<noteq> None then Some (False, s)
       else do {
         dr \<leftarrow> dirs s d;
         (e, ofs, s) \<leftarrow> free_slot_loop s (d_inode dr) [] 0;
         (n, s) \<leftarrow> inode_write_at s (d_inode dr) (fill_entry e name sec) dir_entry_size ofs;
         Some (n = dir_entry_size, s) } } }"

definition dir_remove :: "fs \<Rightarrow> ptr \<Rightarrow> byte list \<Rightarrow> (bool \<times> fs) option" where
  "dir_remove s d name = do {
     c_assert (d \<noteq> NULL);
     (r, s) \<leftarrow> lookup s d name;
     case r of None \<Rightarrow> Some (False, s)
     | Some (e, ofs) \<Rightarrow> do {
         (p, s) \<leftarrow> inode_open s (e_inode_sector e);
         if p = NULL then Some (False, s)
         else do {
           dr \<leftarrow> dirs s d;
           (n, s) \<leftarrow> inode_write_at s (d_inode dr) (e[19 := 0]) dir_entry_size ofs;
           if n \<noteq> dir_entry_size then do { s \<leftarrow> inode_close s p; Some (False, s) }
           else do {
             s \<leftarrow> inode_remove s p;
             s \<leftarrow> inode_close s p;
             Some (True, s) } } } }"

text \<open>The name copied out by \<open>strlcpy\<close>, and the directory with its new position.\<close>

partial_function (option) readdir_loop :: "fs \<Rightarrow> ptr \<Rightarrow> int \<Rightarrow> (byte list option \<times> int \<times> fs) option" where
  "readdir_loop s p pos = do {
     (e, s) \<leftarrow> inode_read_at s p dir_entry_size pos;
     if int (length e) = dir_entry_size then do {
       let pos = pos + dir_entry_size;
       if e_in_use e then do {
         c_assert (0 \<in> set (e_name e));
         Some (Some (takeWhile (\<lambda>b. b \<noteq> 0) (e_name e)), pos, s) }
       else readdir_loop s p pos }
     else Some (None, pos, s) }"

definition dir_readdir :: "fs \<Rightarrow> ptr \<Rightarrow> (byte list option \<times> fs) option" where
  "dir_readdir s d = do {
     dr \<leftarrow> dirs s d;
     (r, pos, s) \<leftarrow> readdir_loop s (d_inode dr) (d_pos dr);
     Some (r, s\<lparr> dirs := (dirs s)(d \<mapsto> dr\<lparr> d_pos := pos \<rparr>) \<rparr>) }"

section \<open>Named files\<close>

definition filesys_create :: "fs \<Rightarrow> byte list \<Rightarrow> int \<Rightarrow> (bool \<times> fs) option" where
  "filesys_create s name initial_size = do {
     (d, s) \<leftarrow> dir_open_root s;
     (success, inode_sector, s) \<leftarrow>
       (if d \<noteq> NULL then do {
          (sec, s) \<leftarrow> free_map_allocate s 1;
          (case sec of None \<Rightarrow> Some (False, 0, s)
           | Some sec \<Rightarrow> do {
               (ok, s) \<leftarrow> inode_create s sec initial_size;
               if ok then do { (ok, s) \<leftarrow> dir_add s d name sec; Some (ok, sec, s) } else Some (False, sec, s) }) }
        else Some (False, 0, s));
     s \<leftarrow> (if \<not> success \<and> inode_sector \<noteq> 0 then free_map_release s inode_sector 1 else Some s);
     s \<leftarrow> dir_close s d;
     Some (success, s) }"

definition filesys_open :: "fs \<Rightarrow> byte list \<Rightarrow> (ptr \<times> fs) option" where
  "filesys_open s name = do {
     (d, s) \<leftarrow> dir_open_root s;
     (p, s) \<leftarrow> (if d \<noteq> NULL then dir_lookup s d name else Some (NULL, s));
     s \<leftarrow> dir_close s d;
     file_open s p }"

definition filesys_remove :: "fs \<Rightarrow> byte list \<Rightarrow> (bool \<times> fs) option" where
  "filesys_remove s name = do {
     (d, s) \<leftarrow> dir_open_root s;
     (ok, s) \<leftarrow> (if d \<noteq> NULL then dir_remove s d name else Some (False, s));
     s \<leftarrow> dir_close s d;
     Some (ok, s) }"

definition do_format :: "fs \<Rightarrow> fs option" where
  "do_format s = do {
     s \<leftarrow> free_map_create s;
     (ok, s) \<leftarrow> dir_create s ROOT_DIR_SECTOR 16;
     c_assert ok;
     free_map_close s }"

text \<open>\<open>role\<close> is the device that has the file system role, if any.\<close>

definition filesys_init :: "fs \<Rightarrow> block option \<Rightarrow> 32 word list option \<Rightarrow> bool \<Rightarrow> fs option" where
  "filesys_init s role ws format = do {
     fs_device \<leftarrow> role;
     let s = inode_init (s\<lparr> dev := fs_device \<rparr>);
     s \<leftarrow> free_map_init s ws;
     s \<leftarrow> (if format then do_format s else Some s);
     free_map_open s }"

definition filesys_done :: "fs \<Rightarrow> fs option" where
  "filesys_done s = free_map_close s"

section \<open>Directories as lists of entries\<close>

lemma dec_enc32: "n < 2 ^ 32 \<Longrightarrow> dec32 (enc32 n @ xs) = n"
proof -
  assume n: "n < 2 ^ 32"
  define a b c where d: "a = n div 256" "b = a div 256" "c = b div 256"
  have "n = 256 * a + n mod 256" "a = 256 * b + a mod 256" "b = 256 * c + b mod 256" by (simp_all add: d)
  moreover have "c < 256" using n by (simp add: d div_mult2_eq [symmetric])
  moreover have "n div 2 ^ 8 = a" "n div 2 ^ 16 = b" "n div 2 ^ 24 = c" by (simp_all add: d div_mult2_eq [symmetric])
  ultimately show ?thesis by (simp add: dec32_def enc32_def unat_of_nat)
qed

definition entry :: "byte list \<Rightarrow> nat \<Rightarrow> byte list" where
  "entry c i = take 20 (drop (20 * i) c)"

definition entry_is :: "byte list \<Rightarrow> byte list \<Rightarrow> bool" where
  "entry_is name e \<longleftrightarrow> e_in_use e \<and> takeWhile (\<lambda>b. b \<noteq> 0) (e_name e) = name"

text \<open>The names of the entries in use are terminated.\<close>

definition names_ok :: "byte list \<Rightarrow> bool" where
  "names_ok c \<longleftrightarrow> (\<forall>i < length c div 20. e_in_use (entry c i) \<longrightarrow> 0 \<in> set (e_name (entry c i)))"

text \<open>The sector that a directory with contents \<open>c\<close> gives for a name.\<close>

definition dir_sector :: "byte list \<Rightarrow> byte list \<Rightarrow> nat option" where
  "dir_sector c name = map_option (\<lambda>i. e_inode_sector (entry c i)) (find (\<lambda>i. entry_is name (entry c i)) [0..<length c div 20])"

lemma length_entry: "i < length c div 20 \<Longrightarrow> length (entry c i) = 20"
proof -
  assume "i < length c div 20"
  then have "20 * Suc i \<le> 20 * (length c div 20)" by simp
  also have "\<dots> \<le> length c" by simp
  finally show ?thesis by (simp add: entry_def)
qed

lemma short_entry: "length (entry c (length c div 20)) < 20"
proof -
  have "length c - 20 * (length c div 20) = length c mod 20" by (simp add: minus_mult_div_eq_mod)
  then show ?thesis by (simp add: entry_def)
qed

locale directory =
  fixes s0 :: fs and p :: ptr and ino :: inode and L :: nat
  assumes open_dir: "inodes s0 p = Some ino" and on_disk: "ino_ok s0 ino L"
begin

lemma read_entry:
  assumes "quiet s0 s" "disk_ok s"
  obtains s' where "inode_read_at s p dir_entry_size (int (20 * i)) = Some (entry (ino_bytes s0 ino L) i, s')"
    "quiet s0 s'" "disk_ok s'"
proof -
  have "inodes s p = Some ino" "ino_ok s ino L"
    using assms(1) open_dir on_disk ino_ok_keeps [OF quiet_keeps [OF assms(1)]] by (simp_all add: quiet_def keeps_def)
  from inode_read_at_ok [OF assms(2) this, of 20 "20 * i"] obtain s' where
    "inode_read_at s p (int 20) (int (20 * i)) = Some (take 20 (drop (20 * i) (ino_bytes s ino L)), s')" "quiet s s'" "disk_ok s'" .
  then show ?thesis using that [of s'] quiet_trans [OF assms(1)] quiet_bytes [OF assms(1)]
    by (simp add: dir_entry_size_def entry_def)
qed

lemma lookup_loop_ok:
  "quiet s0 s \<Longrightarrow> disk_ok s \<Longrightarrow> names_ok (ino_bytes s0 ino L) \<Longrightarrow> i \<le> L div 20 \<Longrightarrow>
   \<exists>s'. lookup_loop s p name (int (20 * i)) =
     Some (map_option (\<lambda>j. (entry (ino_bytes s0 ino L) j, int (20 * j)))
            (find (\<lambda>j. entry_is name (entry (ino_bytes s0 ino L) j)) [i..<L div 20]), s') \<and> quiet s0 s' \<and> disk_ok s'"
proof (induction "L div 20 - i" arbitrary: i s)
  case 0
  let ?c = "ino_bytes s0 ino L"
  from 0 have i: "i = L div 20" by simp
  obtain s' where "inode_read_at s p dir_entry_size (int (20 * i)) = Some (entry ?c i, s')" "quiet s0 s'" "disk_ok s'"
    using read_entry [OF 0(2,3)] .
  then show ?case using short_entry [of ?c] i by (subst lookup_loop.simps) (simp add: dir_entry_size_def)
next
  case (Suc n)
  let ?c = "ino_bytes s0 ino L"
  have i: "i < L div 20" using Suc.hyps(2) by simp
  obtain s' where s': "inode_read_at s p dir_entry_size (int (20 * i)) = Some (entry ?c i, s')" "quiet s0 s'" "disk_ok s'"
    using read_entry [OF Suc.prems(1,2)] .
  have l: "length (entry ?c i) = 20" using i by (intro length_entry) simp
  have nm: "(if e_in_use (entry ?c i) then same_name name (entry ?c i) else Some False) = Some (entry_is name (entry ?c i))"
    using Suc.prems(3) i by (auto simp: names_ok_def same_name_def entry_is_def)
  have up: "[i..<L div 20] = i # [Suc i..<L div 20]" using i by (rule upt_conv_Cons)
  have "\<exists>s''. lookup_loop s' p name (int (20 * Suc i)) =
     Some (map_option (\<lambda>j. (entry ?c j, int (20 * j))) (find (\<lambda>j. entry_is name (entry ?c j)) [Suc i..<L div 20]), s'') \<and>
     quiet s0 s'' \<and> disk_ok s''"
    by (rule Suc.hyps(1)) (use Suc.hyps(2) Suc.prems i s' in auto)
  then show ?case using s' l nm
    by (subst lookup_loop.simps) (auto simp: dir_entry_size_def up algebra_simps simp del: upt_Suc)
qed

lemma free_slot_loop_ok:
  "quiet s0 s \<Longrightarrow> disk_ok s \<Longrightarrow> i \<le> L div 20 \<Longrightarrow> 0 < i \<longrightarrow> length e0 = 20 \<Longrightarrow> 20 \<le> L \<Longrightarrow>
   \<exists>e s'. free_slot_loop s p e0 (int (20 * i)) = Some (e, int (20 * (case find (\<lambda>j. \<not> e_in_use (entry (ino_bytes s0 ino L) j)) [i..<L div 20] of
              None \<Rightarrow> L div 20 | Some j \<Rightarrow> j)), s') \<and>
     (\<forall>j. find (\<lambda>j. \<not> e_in_use (entry (ino_bytes s0 ino L) j)) [i..<L div 20] = Some j \<longrightarrow> e = entry (ino_bytes s0 ino L) j) \<and>
     length e = 20 \<and> quiet s0 s' \<and> disk_ok s'"
proof (induction "L div 20 - i" arbitrary: i s e0)
  case 0
  let ?c = "ino_bytes s0 ino L"
  from 0 have i: "i = L div 20" by simp
  then have "0 < i" using 0 by (simp add: div_greater_zero_iff)
  then have "e0 \<noteq> []" "length e0 = 20" using 0 by auto
  moreover obtain s' where "inode_read_at s p dir_entry_size (int (20 * i)) = Some (entry ?c i, s')" "quiet s0 s'" "disk_ok s'"
    using read_entry [OF 0(2,3)] .
  ultimately show ?case using short_entry [of ?c] i by (subst free_slot_loop.simps) (simp add: dir_entry_size_def)
next
  case (Suc n)
  let ?c = "ino_bytes s0 ino L"
  have i: "i < L div 20" using Suc.hyps(2) by simp
  obtain s' where s': "inode_read_at s p dir_entry_size (int (20 * i)) = Some (entry ?c i, s')" "quiet s0 s'" "disk_ok s'"
    using read_entry [OF Suc.prems(1,2)] .
  have l: "length (entry ?c i) = 20" using i by (intro length_entry) simp
  have up: "[i..<L div 20] = i # [Suc i..<L div 20]" using i by (rule upt_conv_Cons)
  show ?case
  proof (cases "e_in_use (entry ?c i)")
    case False
    then show ?thesis using s' l by (subst free_slot_loop.simps) (simp add: dir_entry_size_def up)
  next
    case True
    have "\<exists>e s''. free_slot_loop s' p (entry ?c i) (int (20 * Suc i)) = Some (e, int (20 * (case find (\<lambda>j. \<not> e_in_use (entry ?c j)) [Suc i..<L div 20] of
              None \<Rightarrow> L div 20 | Some j \<Rightarrow> j)), s'') \<and>
       (\<forall>j. find (\<lambda>j. \<not> e_in_use (entry ?c j)) [Suc i..<L div 20] = Some j \<longrightarrow> e = entry ?c j) \<and>
       length e = 20 \<and> quiet s0 s'' \<and> disk_ok s''"
      by (rule Suc.hyps(1)) (use Suc.hyps(2) Suc.prems i s' l in auto)
    then show ?thesis using s' l True
      by (subst free_slot_loop.simps) (auto simp: dir_entry_size_def up algebra_simps simp del: upt_Suc)
  qed
qed

end

end
