(* ===== verification/Spec2Isabelle.thy ===== *)
theory Spec2Isabelle
  imports Klist_Queue PageDir Hash Args Stdio Arith Filesys
begin

text \<open>
  A verification library for the Pintos kernel sources under \<open>src/src\<close>.
\<close>

end
